(* ===== verification/Karst_Prelude.thy ===== *)
theory Karst_Prelude
  imports Main "HOL-Library.AList" "HOL-Library.Word" "HOL-Library.Monad_Syntax"
begin

section \<open>Shared types, machine arithmetic, hash maps and invariants\<close>

text \<open>
  This theory holds what every component of the development shares:

  \<^item> names for the machine types of the Rust sources. Bytes, and integers on which the code
    works bitwise, are words; slots, stakes and counters are natural numbers below \<open>2 ^ 64\<close>
    with the behaviour at the boundary written out: \<open>sat_add64\<close> is \<open>saturating_add\<close>,
    truncating subtraction is \<open>saturating_sub\<close>, and \<open>add64\<close>/\<open>sub64\<close> are the plain
    operators \<open>+\<close>/\<open>-\<close> of the release profile, which wrap around (the workspace's
    \<open>Cargo.toml\<close> does not switch overflow checks on);
  \<^item> \<open>HashMap\<close>, \<open>BTreeMap\<close> and \<open>HashSet\<close> as association lists and lists with distinct
    keys. The order of the list is the iteration order of the container, which Rust leaves
    unspecified for hash maps; lemmas are proved for every list with distinct keys;
  \<^item> the contract of a map container as the locale \<open>hash_map\<close>, with its interpretation on
    association lists, the locale \<open>invariant_steps\<close>, which lifts an invariant of one
    step to runs, the locale \<open>simulation\<close>, which lifts the simulation of one operation to
    sequences of them, and the locale \<open>weighted_quorums\<close> of quorum intersection;
  \<^item> vectors as lists, read and written by index with \<open>vec_get\<close> and \<open>vec_set\<close>;
  \<^item> panics as \<open>None\<close> of the option type.
\<close>

subsection \<open>Machine types\<close>

type_synonym u8 = "8 word"
type_synonym u16 = "16 word"
type_synonym u64w = "64 word"
type_synonym u64 = nat
type_synonym slot = nat
type_synonym stake = nat

named_theorems u64_arith \<open>definitions and facts of the bounded arithmetic\<close>
named_theorems hm_simps \<open>lookup after an update of an association list\<close>

definition u64_max :: u64 where
  "u64_max = 2 ^ 64 - 1"

definition sat_add64 :: "u64 \<Rightarrow> u64 \<Rightarrow> u64" where
  "sat_add64 a b = min (a + b) u64_max"

definition add64 :: "u64 \<Rightarrow> u64 \<Rightarrow> u64" where
  "add64 a b = (a + b) mod 2 ^ 64"

definition sub64 :: "u64 \<Rightarrow> u64 \<Rightarrow> u64" where
  "sub64 a b = (a + 2 ^ 64 - b) mod 2 ^ 64"

lemma sat_add64_exact [u64_arith]: "a + b \<le> u64_max \<Longrightarrow> sat_add64 a b = a + b"
  by (simp add: sat_add64_def)

lemma sat_add64_ge [simp]: "a \<le> u64_max \<Longrightarrow> a \<le> sat_add64 a b"
  by (simp add: sat_add64_def)

lemma sat_add64_bound [simp]: "sat_add64 a b \<le> u64_max"
  by (simp add: sat_add64_def)

lemma sat_add64_mono: "a \<le> a' \<Longrightarrow> b \<le> b' \<Longrightarrow> sat_add64 a b \<le> sat_add64 a' b'"
  by (auto simp: sat_add64_def min_def)

lemma add64_exact [u64_arith]: "a + b < 2 ^ 64 \<Longrightarrow> add64 a b = a + b"
  by (simp add: add64_def)

lemma sub64_exact [u64_arith]: "b \<le> a \<Longrightarrow> a < 2 ^ 64 \<Longrightarrow> sub64 a b = a - b"
  by (simp add: sub64_def mod_if)

lemma le_u64_max_iff: "a \<le> u64_max \<longleftrightarrow> a < 2 ^ 64"
  by (auto simp: u64_max_def)

subsection \<open>Vectors as lists\<close>

text \<open>Reading and writing by index; out of range is \<open>None\<close>.\<close>

definition vec_get :: "'a list \<Rightarrow> nat \<Rightarrow> 'a option" where
  "vec_get xs i = (if i < length xs then Some (xs ! i) else None)"

definition vec_set :: "'a list \<Rightarrow> nat \<Rightarrow> 'a \<Rightarrow> 'a list option" where
  "vec_set xs i x = (if i < length xs then Some (xs[i := x]) else None)"

subsection \<open>Hash maps as association lists\<close>

type_synonym ('k, 'v) hmap = "('k \<times> 'v) list"

abbreviation hm_wf :: "('k, 'v) hmap \<Rightarrow> bool" where
  "hm_wf m \<equiv> distinct (map fst m)"

abbreviation hm_get :: "('k, 'v) hmap \<Rightarrow> 'k \<Rightarrow> 'v option" where
  "hm_get m k \<equiv> map_of m k"

abbreviation hm_insert :: "'k \<Rightarrow> 'v \<Rightarrow> ('k, 'v) hmap \<Rightarrow> ('k, 'v) hmap" where
  "hm_insert k v m \<equiv> AList.update k v m"

abbreviation hm_remove :: "'k \<Rightarrow> ('k, 'v) hmap \<Rightarrow> ('k, 'v) hmap" where
  "hm_remove k m \<equiv> AList.delete k m"

definition hm_retain :: "('k \<Rightarrow> 'v \<Rightarrow> bool) \<Rightarrow> ('k, 'v) hmap \<Rightarrow> ('k, 'v) hmap" where
  "hm_retain P m = filter (\<lambda>(k, v). P k v) m"

text \<open>\<open>map.get(&k).unwrap_or(d)\<close>, and the entry after \<open>entry(k).or_insert(d)\<close>.\<close>

definition hm_get_or :: "('k, 'v) hmap \<Rightarrow> 'v \<Rightarrow> 'k \<Rightarrow> 'v" where
  "hm_get_or m d k = (case hm_get m k of None \<Rightarrow> d | Some v \<Rightarrow> v)"

lemma hm_retain_Nil [simp]: "hm_retain P [] = []"
  by (simp add: hm_retain_def)

lemma hm_retain_Cons [simp]:
  "hm_retain P ((k, v) # m) = (if P k v then (k, v) # hm_retain P m else hm_retain P m)"
  by (simp add: hm_retain_def)

lemma hm_retain_keys: "fst ` set (hm_retain P m) \<subseteq> fst ` set m"
  by (auto simp: hm_retain_def)

lemma hm_wf_retain [simp]: "hm_wf m \<Longrightarrow> hm_wf (hm_retain P m)"
  by (induction m) (auto simp: hm_retain_def)

lemma hm_get_retain [hm_simps]:
  "hm_wf m \<Longrightarrow> hm_get (hm_retain P m) k =
     (case hm_get m k of None \<Rightarrow> None | Some v \<Rightarrow> if P k v then Some v else None)"
proof (induction m)
  case Nil
  then show ?case by simp
next
  case (Cons p m)
  obtain k' v' where p: "p = (k', v')" by (cases p)
  from Cons.prems p have notin: "k' \<notin> fst ` set m" and wf: "hm_wf m" by auto
  from notin have none: "hm_get m k' = None" by (simp add: map_of_eq_None_iff)
  show ?case using Cons.IH [OF wf] p none by auto
qed

text \<open>Retaining by key alone needs no distinctness.\<close>

lemma hm_get_retain_key [hm_simps]:
  "hm_get (hm_retain (\<lambda>k _. Q k) m) k = (if Q k then hm_get m k else None)"
  by (induction m) (auto simp: hm_retain_def)

lemma hm_get_insert [hm_simps]: "hm_get (hm_insert k v m) k' = (if k' = k then Some v else hm_get m k')"
  by (simp add: AList.update_conv')

lemma hm_get_remove [hm_simps]: "hm_get (hm_remove k m) k' = (if k' = k then None else hm_get m k')"
  by (simp add: AList.delete_conv')

lemma hm_wf_insert [simp]: "hm_wf m \<Longrightarrow> hm_wf (hm_insert k v m)"
  by (rule AList.distinct_update)

lemma hm_wf_remove [simp]: "hm_wf m \<Longrightarrow> hm_wf (hm_remove k m)"
  by (rule AList.distinct_delete)

lemma hm_get_or_insert [hm_simps]:
  "hm_get_or (hm_insert k v m) d k' = (if k' = k then v else hm_get_or m d k')"
  by (simp add: hm_get_or_def hm_simps)

lemma hm_get_mem: "hm_get m k = Some v \<Longrightarrow> (k, v) \<in> set m"
  by (rule map_of_SomeD)

lemma hm_mem_get: "hm_wf m \<Longrightarrow> (k, v) \<in> set m \<longleftrightarrow> hm_get m k = Some v"
  by (auto dest: map_of_SomeD)

lemma hm_get_keys: "k \<in> fst ` set m \<longleftrightarrow> hm_get m k \<noteq> None"
  by (auto simp: map_of_eq_None_iff)

subsection \<open>The contract of a map container\<close>

text \<open>
  What a client of \<open>HashMap\<close>/\<open>BTreeMap\<close> relies on. The components use it through the
  interpretation on association lists; the lemmas inside are the ones about sequences of
  updates that a client needs.
\<close>

locale hash_map =
  fixes mempty :: 'm
    and get :: "'m \<Rightarrow> 'k \<Rightarrow> 'v option"
    and ins :: "'k \<Rightarrow> 'v \<Rightarrow> 'm \<Rightarrow> 'm"
    and del :: "'k \<Rightarrow> 'm \<Rightarrow> 'm"
    and retain :: "('k \<Rightarrow> 'v \<Rightarrow> bool) \<Rightarrow> 'm \<Rightarrow> 'm"
    and wf :: "'m \<Rightarrow> bool"
  assumes get_empty: "get mempty k = None"
    and get_ins: "wf m \<Longrightarrow> get (ins k v m) k' = (if k' = k then Some v else get m k')"
    and get_del: "wf m \<Longrightarrow> get (del k m) k' = (if k' = k then None else get m k')"
    and get_retain: "wf m \<Longrightarrow> get (retain P m) k =
          (case get m k of None \<Rightarrow> None | Some v \<Rightarrow> if P k v then Some v else None)"
    and wf_empty: "wf mempty"
    and wf_ins: "wf m \<Longrightarrow> wf (ins k v m)"
    and wf_del: "wf m \<Longrightarrow> wf (del k m)"
    and wf_retain: "wf m \<Longrightarrow> wf (retain P m)"
begin

lemma get_fold_ins_other:
  "wf m \<Longrightarrow> k \<notin> set ks \<Longrightarrow> get (fold (\<lambda>j. ins j (f j)) ks m) k = get m k"
  by (induction ks arbitrary: m) (auto simp: wf_ins get_ins)

lemma wf_fold_ins: "wf m \<Longrightarrow> wf (fold (\<lambda>j. ins j (f j)) ks m)"
  by (induction ks arbitrary: m) (auto simp: wf_ins)

lemma get_fold_ins:
  "wf m \<Longrightarrow> get (fold (\<lambda>j. ins j (f j)) ks m) k = (if k \<in> set ks then Some (f k) else get m k)"
proof (induction ks arbitrary: m)
  case Nil
  then show ?case by simp
next
  case (Cons j ks)
  then show ?case by (cases "k \<in> set ks") (auto simp: wf_ins get_ins get_fold_ins_other)
qed

lemma retain_retain:
  "wf m \<Longrightarrow> get (retain P (retain Q m)) k = get (retain (\<lambda>k v. P k v \<and> Q k v) m) k"
  by (auto simp: get_retain wf_retain split: option.splits)

lemma retain_ins_dropped:
  "wf m \<Longrightarrow> \<not> P k v \<Longrightarrow> get (retain P (ins k v m)) k = None"
  by (simp add: get_retain wf_ins get_ins)

end

interpretation hm: hash_map "[]" map_of AList.update AList.delete hm_retain "\<lambda>m. distinct (map fst m)"
  by unfold_locales (auto simp: hm_simps AList.distinct_update AList.distinct_delete)

subsection \<open>Invariants of runs\<close>

text \<open>
  A component that keeps an invariant at every step keeps it along every run. Each component
  with a step relation interprets this locale once.
\<close>

locale invariant_steps =
  fixes step :: "'s \<Rightarrow> 's \<Rightarrow> bool"
    and inv :: "'s \<Rightarrow> bool"
  assumes step_inv: "inv s \<Longrightarrow> step s t \<Longrightarrow> inv t"
begin

lemma run_inv:
  assumes "step\<^sup>*\<^sup>* s t" and "inv s"
  shows "inv t"
  using assms by (induction rule: rtranclp_induct) (auto intro: step_inv)

end

subsection \<open>Simulation by a specification\<close>

text \<open>
  A component with answers and the state machine that specifies it, related by \<open>rel\<close>. An operation of
  the component may fail, one of the specification may not. If every admissible operation answers what
  the specification answers and keeps the relation, every sequence of them does.
\<close>

fun run_steps :: "('s \<Rightarrow> 'o \<Rightarrow> ('s \<times> 'r) option) \<Rightarrow> 's \<Rightarrow> 'o list \<Rightarrow> ('s \<times> 'r list) option" where
  "run_steps step s [] = Some (s, [])"
| "run_steps step s (op # ops) =
     (case step s op of None \<Rightarrow> None
      | Some (s', r) \<Rightarrow> map_option (\<lambda>(t, rs). (t, r # rs)) (run_steps step s' ops))"

fun run_spec :: "('a \<Rightarrow> 'o \<Rightarrow> 'a \<times> 'r) \<Rightarrow> 'a \<Rightarrow> 'o list \<Rightarrow> 'a \<times> 'r list" where
  "run_spec astep a [] = (a, [])"
| "run_spec astep a (op # ops) =
     (let (b, r) = astep a op; (c, rs) = run_spec astep b ops in (c, r # rs))"

locale simulation =
  fixes step :: "'s \<Rightarrow> 'o \<Rightarrow> ('s \<times> 'r) option"
    and astep :: "'a \<Rightarrow> 'o \<Rightarrow> 'a \<times> 'r"
    and rel :: "'s \<Rightarrow> 'a \<Rightarrow> bool"
    and ok :: "'o \<Rightarrow> bool"
  assumes sim: "rel s a \<Longrightarrow> ok op \<Longrightarrow> \<exists>s'. step s op = Some (s', snd (astep a op)) \<and> rel s' (fst (astep a op))"
begin

lemma run_sim:
  assumes "rel s a" "list_all ok ops"
  shows "\<exists>s'. run_steps step s ops = Some (s', snd (run_spec astep a ops)) \<and> rel s' (fst (run_spec astep a ops))"
  using assms
proof (induction ops arbitrary: s a)
  case (Cons op ops)
  obtain s' where s': "step s op = Some (s', snd (astep a op))" "rel s' (fst (astep a op))"
    using sim [of s a op] Cons.prems by auto
  obtain t where "run_steps step s' ops = Some (t, snd (run_spec astep (fst (astep a op)) ops))"
    "rel t (fst (run_spec astep (fst (astep a op)) ops))"
    using Cons.IH [OF s'(2)] Cons.prems(2) by auto
  then show ?case using s'(1) by (simp add: split_beta Let_def)
qed simp

end

subsection \<open>Weighted quorums\<close>

text \<open>
  Two kinds of quorum over one set of voters with a bounded total weight. The law says how
  much the thresholds exceed the total together; the voters of two quorums then share that
  much weight. Fork choice interprets it on the supermajority threshold, the voting protocol
  on its certificate thresholds.
\<close>

locale weighted_quorums =
  fixes tot k :: nat
    and Q1 Q2 :: "nat \<Rightarrow> bool"
  assumes overlap: "Q1 a \<Longrightarrow> Q2 b \<Longrightarrow> tot + k \<le> a + b"
begin

lemma shared_weight:
  assumes "sum_list (map wt xs) \<le> tot"
    and "Q1 (sum_list (map wt (filter A xs)))" and "Q2 (sum_list (map wt (filter B xs)))"
  shows "k \<le> sum_list (map wt (filter (\<lambda>x. A x \<and> B x) xs))"
proof -
  have "sum_list (map wt (filter A xs)) + sum_list (map wt (filter B xs)) \<le>
        sum_list (map wt xs) + sum_list (map wt (filter (\<lambda>x. A x \<and> B x) xs))"
    by (induction xs) auto
  with overlap [OF assms(2,3)] assms(1) show ?thesis by linarith
qed

lemma shared_voter:
  assumes "sum_list (map wt xs) \<le> tot" "0 < k"
    and "Q1 (sum_list (map wt (filter A xs)))" and "Q2 (sum_list (map wt (filter B xs)))"
  shows "\<exists>x \<in> set xs. A x \<and> B x \<and> 0 < wt x"
proof (rule ccontr)
  assume "\<not> ?thesis"
  then have "sum_list (map wt (filter (\<lambda>x. A x \<and> B x) xs)) = 0" by (auto simp: sum_list_eq_0_iff)
  with shared_weight [OF assms(1,3,4)] assms(2) show False by simp
qed

end

subsection \<open>Lists\<close>

lemma sum_list_filter_le:
  fixes f :: "'a \<Rightarrow> nat"
  shows "sum_list (map f (filter P xs)) \<le> sum_list (map f xs)"
  by (induction xs) auto

lemma sum_list_filter_mono:
  fixes f :: "'a \<Rightarrow> nat"
  assumes "\<And>x. x \<in> set xs \<Longrightarrow> P x \<Longrightarrow> Q x"
  shows "sum_list (map f (filter P xs)) \<le> sum_list (map f (filter Q xs))"
  using assms by (induction xs) (auto simp: trans_le_add2)

lemma sum_list_filter_if:
  fixes f :: "'a \<Rightarrow> nat"
  shows "sum_list (map f (filter P xs)) = sum_list (map (\<lambda>x. if P x then f x else 0) xs)"
  by (induction xs) auto

lemma sum_list_distinct_sum:
  fixes f :: "'a \<Rightarrow> nat"
  shows "distinct xs \<Longrightarrow> sum_list (map f xs) = sum f (set xs)"
  by (induction xs) auto

subsection \<open>Sums over hash maps\<close>

lemma sum_list_hm_insert:
  fixes g :: "'k \<times> 'v \<Rightarrow> nat"
  assumes "hm_wf m"
  shows "sum_list (map g (hm_insert k v m)) + (case hm_get m k of None \<Rightarrow> 0 | Some w \<Rightarrow> g (k, w)) =
         sum_list (map g m) + g (k, v)"
  using assms by (induction m) (auto simp: map_of_eq_None_iff [symmetric] split: option.splits)

lemma sum_list_retain:
  fixes g :: "'k \<times> 'v \<Rightarrow> nat"
  assumes "\<And>k v. (k, v) \<in> set m \<Longrightarrow> \<not> P k v \<Longrightarrow> g (k, v) = 0"
  shows "sum_list (map g (hm_retain P m)) = sum_list (map g m)"
  using assms by (induction m) auto

end
