(* ===== verification/Compact_U16.thy ===== *)
theory Compact_U16
  imports Karst_Prelude
begin

unbundle bit_operations_syntax

section \<open>The compact-u16 length prefix (\<open>karstflow-types/src/compact.rs\<close>)\<close>

text \<open>
  Transaction messages carry array lengths in a variable-length encoding of one to three
  bytes, seven payload bits each and the high bit as a continuation flag. The slice
  functions \<open>encode_compact_u16\<close>/\<open>decode_compact_u16\<close> and the stream functions
  \<open>write_compact_u16\<close>/\<open>read_compact_u16\<close> are modelled on byte lists; writing past the
  end of the caller's buffer is the index panic \<open>None\<close>.
\<close>

subsection \<open>Definitions\<close>

definition COMPACT_U16_MAX_ENCODED_SIZE :: nat where
  "COMPACT_U16_MAX_ENCODED_SIZE = 3"

datatype CompactError = UnexpectedEnd | Overflow | TooManyBytes

datatype io_error_kind = InvalidData | UnexpectedEof

text \<open>The loop of \<open>encode_compact_u16\<close>: remaining value, buffer, write index.\<close>

function encode_loop :: "u16 \<Rightarrow> u8 list \<Rightarrow> nat \<Rightarrow> (u8 list \<times> nat) option" where
  "encode_loop rem buf i =
     (let low = (ucast (rem AND 0x7F) :: u8); rem' = drop_bit 7 rem in
      if \<not> i < length buf then None
      else if rem' = 0 then Some (buf[i := low], i + 1)
      else encode_loop rem' (buf[i := low OR 0x80]) (i + 1))"
  by pat_completeness auto
termination
proof (relation "measure (\<lambda>(rem, buf, i). length buf - i)")
qed auto

declare encode_loop.simps [simp del]

definition encode_compact_u16 :: "u16 \<Rightarrow> u8 list \<Rightarrow> (u8 list \<times> nat) option" where
  "encode_compact_u16 value buf = encode_loop value buf 0"

text \<open>\<open>u16::checked_shl\<close>: \<open>None\<close> exactly when the shift amount is at least the width.\<close>

definition checked_shl16 :: "u16 \<Rightarrow> nat \<Rightarrow> u16 option" where
  "checked_shl16 x s = (if s < 16 then Some (push_bit s x) else None)"

fun decode_loop :: "u8 list \<Rightarrow> nat \<Rightarrow> u16 \<Rightarrow> nat \<Rightarrow> CompactError + (u16 \<times> nat)" where
  "decode_loop [] i value shift = Inl UnexpectedEnd"
| "decode_loop (byte # bs) i value shift =
     (if i \<ge> COMPACT_U16_MAX_ENCODED_SIZE then Inl TooManyBytes
      else (case checked_shl16 (ucast (byte AND 0x7F)) shift of
              None \<Rightarrow> Inl Overflow
            | Some x \<Rightarrow>
                (let value' = value OR x in
                 if byte AND 0x80 = 0 then Inr (value', i + 1)
                 else decode_loop bs (i + 1) value' (shift + 7))))"

definition decode_compact_u16 :: "u8 list \<Rightarrow> CompactError + (u16 \<times> nat)" where
  "decode_compact_u16 data = (if data = [] then Inl UnexpectedEnd else decode_loop data 0 0 0)"

text \<open>\<open>write_compact_u16\<close> on an in-memory writer: the bytes written so far, extended.\<close>

definition write_compact_u16 :: "u8 list \<Rightarrow> u16 \<Rightarrow> (u8 list \<times> nat) option" where
  "write_compact_u16 writer value =
     do {
       (buf, len) \<leftarrow> encode_compact_u16 value (replicate COMPACT_U16_MAX_ENCODED_SIZE 0);
       Some (writer @ take len buf, len)
     }"

text \<open>
  \<open>read_compact_u16\<close> on an in-memory reader, whose \<open>read_exact\<close> of one byte fails with
  \<open>UnexpectedEof\<close> when nothing is left. The first argument is the loop index \<open>i\<close>.
\<close>

fun read_loop :: "nat \<Rightarrow> u16 \<Rightarrow> nat \<Rightarrow> u8 list \<Rightarrow> io_error_kind + (u16 \<times> u8 list)" where
  "read_loop i value shift reader =
     (if i < COMPACT_U16_MAX_ENCODED_SIZE then
        (case reader of
           [] \<Rightarrow> Inl UnexpectedEof
         | byte # reader' \<Rightarrow>
             (case checked_shl16 (ucast (byte AND 0x7F)) shift of
                None \<Rightarrow> Inl InvalidData
              | Some x \<Rightarrow>
                  (let value' = value OR x in
                   if byte AND 0x80 = 0 then Inr (value', reader')
                   else if i = COMPACT_U16_MAX_ENCODED_SIZE - 1 then Inl InvalidData
                   else read_loop (i + 1) value' (shift + 7) reader')))
      else Inl UnexpectedEof)"

declare read_loop.simps [simp del]

definition read_compact_u16 :: "u8 list \<Rightarrow> io_error_kind + (u16 \<times> u8 list)" where
  "read_compact_u16 reader = read_loop 0 0 0 reader"

subsection \<open>Splitting a value into seven-bit groups\<close>

definition group7 :: "nat \<Rightarrow> u16 \<Rightarrow> u8" where
  "group7 k v = ucast (drop_bit (7 * k) v AND 0x7F)"

definition compact_bytes :: "u16 \<Rightarrow> u8 list" where
  "compact_bytes v =
     (if drop_bit 7 v = 0 then [group7 0 v]
      else if drop_bit 14 v = 0 then [group7 0 v OR 0x80, group7 1 v]
      else [group7 0 v OR 0x80, group7 1 v OR 0x80, group7 2 v])"

lemma length_compact_bytes: "1 \<le> length (compact_bytes v) \<and> length (compact_bytes v) \<le> 3"
  by (simp add: compact_bytes_def)

lemma drop_bit_21_u16: "drop_bit 21 (v :: u16) = 0"
  by (rule bit_word_eqI) (simp add: bit_simps)




lemma bit_127: "bit (127 :: int) n \<longleftrightarrow> n < 7" "bit (127 :: nat) n \<longleftrightarrow> n < 7"
proof -
  have "(127 :: int) = mask 7" "(127 :: nat) = mask 7"
    by (simp_all add: mask_eq_exp_minus_1)
  then show "bit (127 :: int) n \<longleftrightarrow> n < 7" "bit (127 :: nat) n \<longleftrightarrow> n < 7"
    by (simp_all only: bit_mask_iff) simp_all
qed

lemma bit_128: "bit (128 :: int) n \<longleftrightarrow> n = 7" "bit (128 :: nat) n \<longleftrightarrow> n = 7"
proof -
  have "(128 :: int) = 2 ^ 7" "(128 :: nat) = 2 ^ 7"
    by simp_all
  then show "bit (128 :: int) n \<longleftrightarrow> n = 7" "bit (128 :: nat) n \<longleftrightarrow> n = 7"
    by (simp_all only: bit_exp_iff) auto
qed

lemmas compact_bits = group7_def bit_127 bit_128 bit_simps

lemma group7_masked: "group7 k v AND 0x7F = group7 k v"
  by (rule bit_word_eqI) (auto simp: compact_bits)

lemma group7_masked_cont: "(group7 k v OR 0x80) AND 0x7F = group7 k v"
  by (rule bit_word_eqI) (auto simp: compact_bits)

lemma group7_high: "group7 k v AND 0x80 = 0"
  by (rule bit_word_eqI) (auto simp: compact_bits)

lemma group7_high_cont: "(group7 k v OR 0x80) AND 0x80 \<noteq> 0"
proof -
  have "bit ((group7 k v OR 0x80) AND 0x80) 7"
    by (auto simp: compact_bits)
  then show ?thesis by (metis bit_0_eq bot_apply bot_bool_def)
qed

lemma join_groups:
  "(ucast (group7 0 v) :: u16) OR push_bit 7 (ucast (group7 1 v)) OR push_bit 14 (ucast (group7 2 v)) = v"
proof (rule bit_word_eqI)
  fix n assume "n < LENGTH(16)"
  then have n: "n < 16" by simp
  consider "n < 7" | "7 \<le> n" "n < 14" | "14 \<le> n" by linarith
  then show "bit ((ucast (group7 0 v) :: u16) OR push_bit 7 (ucast (group7 1 v)) OR
      push_bit 14 (ucast (group7 2 v))) n = bit v n"
    using n by cases (auto simp: compact_bits)
qed

lemma group7_zero: "drop_bit (7 * k) v = 0 \<Longrightarrow> group7 k v = 0"
  by (simp add: group7_def)


lemma encode_compact_u16_eq:
  assumes "3 \<le> length buf"
  shows "encode_compact_u16 v buf =
     Some (compact_bytes v @ drop (length (compact_bytes v)) buf, length (compact_bytes v))"
proof -
  obtain a b c ds where buf: "buf = a # b # c # ds"
    using assms by (metis Suc_le_length_iff numeral_3_eq_3)
  have d: "drop_bit 7 (drop_bit 7 v) = drop_bit 14 v" "drop_bit 7 (drop_bit 14 v) = 0"
    using drop_bit_21_u16 [of v] by simp_all
  have g: "(ucast (v AND 0x7F) :: u8) = group7 0 v" "(ucast (drop_bit 7 v AND 0x7F) :: u8) = group7 1 v"
    "(ucast (drop_bit 14 v AND 0x7F) :: u8) = group7 2 v"
    by (simp_all add: group7_def)
  show ?thesis
    by (simp add: encode_compact_u16_def compact_bytes_def buf Let_def d g
        encode_loop.simps [of v] encode_loop.simps [of "drop_bit 7 v"] encode_loop.simps [of "drop_bit 14 v"])
qed

lemma decode_compact_bytes: "decode_compact_u16 (compact_bytes v @ rest) = Inr (v, length (compact_bytes v))"
proof -
  note g = group7_masked group7_masked_cont group7_high group7_high_cont
  have z1: "drop_bit 7 v = 0 \<Longrightarrow> group7 (Suc 0) v = 0" using group7_zero [of 1 v] by simp
  have z2: "drop_bit 14 v = 0 \<Longrightarrow> group7 2 v = 0" using group7_zero [of 2 v] by simp
  have z12: "drop_bit 7 v = 0 \<Longrightarrow> drop_bit 14 v = 0"
    using drop_bit_drop_bit [of 7 7 v] by simp
  from join_groups [of v] show ?thesis
    by (auto simp: compact_bytes_def decode_compact_u16_def checked_shl16_def g
        COMPACT_U16_MAX_ENCODED_SIZE_def Let_def z1 z2 z12 or.assoc)
qed


lemma decode_loop_no_overflow:
  "sh = 7 * i \<Longrightarrow> decode_loop data i acc sh \<noteq> Inl Overflow"
proof (induction data i acc sh rule: decode_loop.induct)
  case (1 i acc sh)
  then show ?case by simp
next
  case (2 byte bs i acc sh)
  show ?case
  proof (cases "i < 3")
    case True
    then have "sh < 16" using 2(2) by linarith
    then have shl: "checked_shl16 x sh = Some (push_bit sh x)" for x
      by (simp add: checked_shl16_def)
    have "decode_loop bs (i + 1) (acc OR push_bit sh (ucast (byte AND 0x7F))) (sh + 7) \<noteq> Inl Overflow"
      if "byte AND 0x80 \<noteq> 0"
      by (rule 2(1)) (use True that 2(2) in \<open>simp_all add: shl [unfolded 2(2)] COMPACT_U16_MAX_ENCODED_SIZE_def\<close>)
    then show ?thesis
      using True by (simp add: shl Let_def COMPACT_U16_MAX_ENCODED_SIZE_def)
  next
    case False
    then show ?thesis by (simp add: COMPACT_U16_MAX_ENCODED_SIZE_def)
  qed
qed

lemma decode_loop_consumes: "decode_loop data i acc sh = Inr (v, n) \<Longrightarrow> i < n"
  by (induction data i acc sh rule: decode_loop.induct)
    (force simp: Let_def split: if_splits option.splits dest: Suc_lessD)+

lemma read_loop_decode_loop:
  "i < 3 \<Longrightarrow> sh = 7 * i \<Longrightarrow>
   (case decode_loop data i acc sh of
      Inr (v, n) \<Rightarrow> read_loop i acc sh data = Inr (v, drop (n - i) data)
    | Inl _ \<Rightarrow> \<exists>e. read_loop i acc sh data = Inl e)"
proof (induction data i acc sh rule: decode_loop.induct)
  case (1 i acc sh)
  then show ?case by (simp add: read_loop.simps COMPACT_U16_MAX_ENCODED_SIZE_def)
next
  case (2 byte bs i acc sh)
  have sh: "sh < 16" using 2(2,3) by linarith
  let ?acc = "acc OR push_bit sh (ucast (byte AND 0x7F))"
  have dec: "decode_loop (byte # bs) i acc sh =
      (if byte AND 0x80 = 0 then Inr (?acc, i + 1) else decode_loop bs (i + 1) ?acc (sh + 7))"
    using 2(2) sh by (simp add: COMPACT_U16_MAX_ENCODED_SIZE_def checked_shl16_def Let_def)
  have rd: "read_loop i acc sh (byte # bs) =
      (if byte AND 0x80 = 0 then Inr (?acc, bs) else if i = 2 then Inl InvalidData
       else read_loop (i + 1) ?acc (sh + 7) bs)"
    using 2(2) sh
    by (subst read_loop.simps) (simp add: COMPACT_U16_MAX_ENCODED_SIZE_def checked_shl16_def Let_def)
  show ?case
  proof (cases "byte AND 0x80 = 0 \<or> i = 2")
    case True
    then show ?thesis using 2(2) unfolding dec rd
      by (cases bs) (auto simp: COMPACT_U16_MAX_ENCODED_SIZE_def)
  next
    case False
    then have i: "i + 1 < 3" using 2(2) by linarith
    have "case decode_loop bs (i + 1) ?acc (sh + 7) of
        Inr (v, n) \<Rightarrow> read_loop (i + 1) ?acc (sh + 7) bs = Inr (v, drop (n - (i + 1)) bs)
      | Inl _ \<Rightarrow> \<exists>e. read_loop (i + 1) ?acc (sh + 7) bs = Inl e"
    proof (rule 2(1) [where x = ?acc])
      show "\<not> COMPACT_U16_MAX_ENCODED_SIZE \<le> i"
        using 2(2) by (simp add: COMPACT_U16_MAX_ENCODED_SIZE_def)
    qed (use False 2(3) i sh in \<open>simp_all add: checked_shl16_def\<close>)
    moreover have "drop (n - i) (byte # bs) = drop (n - (i + 1)) bs" if "i + 1 < n" for n
      using that by (simp add: drop_Cons' Suc_diff_Suc)
    ultimately show ?thesis
      using False unfolding dec rd by (auto dest!: decode_loop_consumes split: sum.splits)
  qed
qed

subsection \<open>Properties\<close>

text \<open>
  C25. Round trip of the slice codec: encoding any u16 into a buffer of at least three bytes
  succeeds with one to three bytes, leaves the rest of the buffer alone, and decoding the
  written bytes, whatever follows them, gives back the value and the number of bytes.
\<close>

theorem compact_u16_roundtrip:
  assumes "COMPACT_U16_MAX_ENCODED_SIZE \<le> length buf"
  shows "\<exists>buf' n. encode_compact_u16 v buf = Some (buf', n) \<and> 1 \<le> n \<and>
           n \<le> COMPACT_U16_MAX_ENCODED_SIZE \<and> length buf' = length buf \<and>
           drop n buf' = drop n buf \<and>
           decode_compact_u16 (take n buf' @ rest) = Inr (v, n)"
  using assms encode_compact_u16_eq [of buf v] length_compact_bytes [of v] decode_compact_bytes [of v rest]
  by (auto simp: COMPACT_U16_MAX_ENCODED_SIZE_def)

theorem compact_u16_roundtrip_witness:
  "\<exists>buf' n. encode_compact_u16 300 [0, 0, 0] = Some (buf', n) \<and> 1 \<le> n \<and>
     n \<le> COMPACT_U16_MAX_ENCODED_SIZE \<and> length buf' = length [0, 0, 0 :: u8] \<and>
     drop n buf' = drop n [0, 0, 0] \<and> decode_compact_u16 (take n buf' @ [7]) = Inr (300, n)"
  by (rule compact_u16_roundtrip) (simp add: COMPACT_U16_MAX_ENCODED_SIZE_def)

text \<open>
  Stream codec: what \<open>write_compact_u16\<close> appends, \<open>read_compact_u16\<close> reads back,
  leaving the reader at the following byte; and on every input the stream reader succeeds
  exactly when the slice decoder does, with the same value and the same bytes consumed.
\<close>

lemma compact_u16_stream:
  "(\<exists>bs len. write_compact_u16 w v = Some (w @ bs, len) \<and> len = length bs \<and>
      read_compact_u16 (bs @ rest) = Inr (v, rest)) \<and>
   (case decode_compact_u16 data of
      Inr (x, n) \<Rightarrow> read_compact_u16 data = Inr (x, drop n data)
    | Inl _ \<Rightarrow> \<exists>e. read_compact_u16 data = Inl e)"
proof
  have agree: "case decode_compact_u16 data of
      Inr (x, n) \<Rightarrow> read_compact_u16 data = Inr (x, drop n data)
    | Inl _ \<Rightarrow> \<exists>e. read_compact_u16 data = Inl e" for data
    using read_loop_decode_loop [where i = 0 and sh = 0 and acc = 0 and data = data]
    by (auto simp: decode_compact_u16_def read_compact_u16_def read_loop.simps
        COMPACT_U16_MAX_ENCODED_SIZE_def split: sum.splits)
  then show "case decode_compact_u16 data of
      Inr (x, n) \<Rightarrow> read_compact_u16 data = Inr (x, drop n data)
    | Inl _ \<Rightarrow> \<exists>e. read_compact_u16 data = Inl e" .
  have "read_compact_u16 (compact_bytes v @ rest) = Inr (v, rest)"
    using agree [of "compact_bytes v @ rest"] by (simp add: decode_compact_bytes)
  then show "\<exists>bs len. write_compact_u16 w v = Some (w @ bs, len) \<and> len = length bs \<and>
      read_compact_u16 (bs @ rest) = Inr (v, rest)"
    by (simp add: write_compact_u16_def encode_compact_u16_eq COMPACT_U16_MAX_ENCODED_SIZE_def)
qed

text \<open>
  C26. The \<open>Overflow\<close> error is never reported: every shift is below 16, and payload bits of
  the third byte beyond the sixteenth bit are shifted out. So the three-byte encoding of
  65536 is accepted as the value 0.
\<close>

theorem compact_u16_overflow_unreported:
  "decode_compact_u16 data \<noteq> Inl Overflow \<and> decode_compact_u16 [0x80, 0x80, 0x04] = Inr (0, 3)"
proof
  show "decode_compact_u16 data \<noteq> Inl Overflow"
    using decode_loop_no_overflow [of 0 0 data 0] by (simp add: decode_compact_u16_def)
  show "decode_compact_u16 [0x80, 0x80, 0x04] = Inr (0, 3)"
    by (simp add: decode_compact_u16_def checked_shl16_def COMPACT_U16_MAX_ENCODED_SIZE_def)
qed

end
