(* ===== verification/Float64.thy ===== *)
theory Float64
  imports Karst_Prelude Complex_Main "HOL-Library.Log_Nat"
begin

section \<open>The double-precision arithmetic of the stake thresholds\<close>

text \<open>
  The Tower and the fork choice compare stake ratios as \<open>f64\<close>: two \<open>u64\<close> stakes are
  converted (\<open>as f64\<close>), divided, and compared with a constant such as \<open>2.0 / 3.0\<close>. This
  theory models exactly that fragment of IEEE 754 binary64: non-negative values, rounding to
  nearest with ties to even at 53 significand bits, division by zero giving an infinity or a
  NaN, and comparisons that are false on a NaN. All exponents that occur lie between -64 and
  65, so neither overflow nor subnormal numbers arise and the exponent range is not modelled.

  The lemmas show that rounding is monotone and accurate to a relative error of \<open>2 ^ -53\<close>;
  the components derive from them what a passed threshold check says about the stakes.
\<close>

subsection \<open>Definitions\<close>

datatype f64 = NaN | Infinity | Finite rat

text \<open>The exponent of the leading binary digit of a positive rational.\<close>

definition ilog2 :: "rat \<Rightarrow> int" where
  "ilog2 x = (let (n, d) = quotient_of x; k = bitlen n - bitlen d in
     if 2 powi k \<le> x then k else k - 1)"

definition round_half_even :: "rat \<Rightarrow> int" where
  "round_half_even x = (let f = \<lfloor>x\<rfloor>; r = x - of_int f in
     if r < 1 / 2 then f else if r > 1 / 2 then f + 1 else if even f then f else f + 1)"

definition round53 :: "rat \<Rightarrow> rat" where
  "round53 x = (if x \<le> 0 then 0 else
     let e = ilog2 x - 52 in of_int (round_half_even (x / 2 powi e)) * 2 powi e)"

definition f64_of_u64 :: "u64 \<Rightarrow> f64" where
  "f64_of_u64 n = Finite (round53 (of_nat n))"

fun f64_div :: "f64 \<Rightarrow> f64 \<Rightarrow> f64" where
  "f64_div (Finite a) (Finite b) =
     (if b = 0 then (if a = 0 then NaN else Infinity) else Finite (round53 (a / b)))"
| "f64_div Infinity (Finite b) = Infinity"
| "f64_div (Finite a) Infinity = Finite 0"
| "f64_div _ _ = NaN"

fun f64_add :: "f64 \<Rightarrow> f64 \<Rightarrow> f64" where
  "f64_add (Finite a) (Finite b) = Finite (round53 (a + b))"
| "f64_add NaN _ = NaN"
| "f64_add _ NaN = NaN"
| "f64_add _ _ = Infinity"

fun f64_ge :: "f64 \<Rightarrow> f64 \<Rightarrow> bool" where
  "f64_ge (Finite a) (Finite b) = (a \<ge> b)"
| "f64_ge Infinity (Finite b) = True"
| "f64_ge Infinity Infinity = True"
| "f64_ge _ _ = False"

fun f64_lt :: "f64 \<Rightarrow> f64 \<Rightarrow> bool" where
  "f64_lt (Finite a) (Finite b) = (a < b)"
| "f64_lt (Finite a) Infinity = True"
| "f64_lt _ _ = False"

text \<open>\<open>a as f64 / b as f64\<close>.\<close>

definition f64_ratio :: "u64 \<Rightarrow> u64 \<Rightarrow> f64" where
  "f64_ratio a b = f64_div (f64_of_u64 a) (f64_of_u64 b)"

text \<open>A decimal literal or a constant quotient, rounded once.\<close>

definition f64_lit :: "rat \<Rightarrow> f64" where
  "f64_lit q = Finite (round53 q)"

subsection \<open>The binary exponent\<close>

lemma pow2_pos [simp]: "0 < (2 :: rat) powi k"
  by simp

lemma pow2_nonneg [simp]: "0 \<le> (2 :: rat) powi k"
  by (simp add: less_imp_le)

lemma pow2_mono: "i \<le> j \<Longrightarrow> (2 :: rat) powi i \<le> 2 powi j"
  by (rule power_int_increasing) auto

lemma pow2_add: "(2 :: rat) powi (i + j) = 2 powi i * 2 powi j"
  by (rule power_int_add) simp

lemma bitlen_rat_bounds:
  assumes "n > 0"
  shows "(2 :: rat) powi (bitlen n - 1) \<le> of_int n" and "of_int n < (2 :: rat) powi (bitlen n)"
proof -
  have b: "bitlen n \<ge> 1" using assms bitlen_nonneg [of n] bitlen_eq_zero_iff [of n] by linarith
  from bitlen_bounds [OF assms] have lo: "2 ^ nat (bitlen n - 1) \<le> n" and hi: "n < 2 ^ nat (bitlen n)"
    by auto
  from lo have "(of_int (2 ^ nat (bitlen n - 1)) :: rat) \<le> of_int n" by (simp only: of_int_le_iff)
  then show "(2 :: rat) powi (bitlen n - 1) \<le> of_int n"
    using b by (simp add: power_int_nonneg_exp)
  from hi have "(of_int n :: rat) < of_int (2 ^ nat (bitlen n))" by (simp only: of_int_less_iff)
  then show "of_int n < (2 :: rat) powi (bitlen n)"
    using b by (simp add: power_int_nonneg_exp)
qed

lemma ilog2_bounds:
  assumes "x > 0"
  shows "2 powi (ilog2 x) \<le> x" and "x < 2 powi (ilog2 x + 1)"
proof -
  obtain n d where q: "quotient_of x = (n, d)" by (cases "quotient_of x")
  from quotient_of_div [OF q] have x: "x = of_int n / of_int d" .
  from quotient_of_denom_pos [OF q] have d: "d > 0" .
  from assms x d have n: "n > 0" by (simp add: zero_less_divide_iff)
  let ?k = "bitlen n - bitlen d"
  note bn = bitlen_rat_bounds [OF n] and bd = bitlen_rat_bounds [OF d]
  have dpos: "(0 :: rat) < of_int d" using d by simp
  have lo: "2 powi (?k - 1) \<le> x"
  proof -
    have "2 powi (?k - 1) * of_int d \<le> 2 powi (?k - 1) * (2 :: rat) powi (bitlen d)"
      using bd(2) by (intro mult_left_mono) auto
    also have "\<dots> = 2 powi (bitlen n - 1)" by (simp flip: pow2_add)
    also have "\<dots> \<le> of_int n" by (rule bn(1))
    finally show ?thesis using dpos by (simp add: x pos_le_divide_eq)
  qed
  have hi: "x < 2 powi (?k + 1)"
  proof -
    have "of_int n < (2 :: rat) powi (bitlen n)" by (rule bn(2))
    also have "\<dots> = 2 powi (?k + 1) * 2 powi (bitlen d - 1)" by (simp flip: pow2_add)
    also have "\<dots> \<le> 2 powi (?k + 1) * of_int d" using bd(1) by (intro mult_left_mono) auto
    finally show ?thesis using dpos by (simp add: x pos_divide_less_eq)
  qed
  show "2 powi (ilog2 x) \<le> x" using lo by (simp add: ilog2_def q Let_def)
  show "x < 2 powi (ilog2 x + 1)" using hi by (simp add: ilog2_def q Let_def)
qed

lemma ilog2_mono:
  assumes "0 < x" and "x \<le> y"
  shows "ilog2 x \<le> ilog2 y"
proof (rule ccontr)
  assume "\<not> ?thesis"
  then have "ilog2 y + 1 \<le> ilog2 x" by simp
  then have "(2 :: rat) powi (ilog2 y + 1) \<le> 2 powi (ilog2 x)" by (rule pow2_mono)
  with ilog2_bounds(1) [of x] ilog2_bounds(2) [of y] assms show False by linarith
qed

subsection \<open>Rounding\<close>

lemma round_half_even_mono:
  assumes "x \<le> y"
  shows "round_half_even x \<le> round_half_even y"
proof (cases "\<lfloor>x\<rfloor> = \<lfloor>y\<rfloor>")
  case True
  with assms show ?thesis by (auto simp: round_half_even_def Let_def)
next
  case False
  with assms have "\<lfloor>x\<rfloor> + 1 \<le> \<lfloor>y\<rfloor>" using floor_mono [OF assms] by linarith
  moreover have "round_half_even x \<le> \<lfloor>x\<rfloor> + 1" "\<lfloor>y\<rfloor> \<le> round_half_even y"
    by (auto simp: round_half_even_def Let_def)
  ultimately show ?thesis by linarith
qed

lemma round_half_even_int [simp]: "round_half_even (of_int i) = i"
  by (simp add: round_half_even_def)

lemma round_half_even_error: "\<bar>of_int (round_half_even x) - x\<bar> \<le> 1 / 2"
proof -
  have "of_int \<lfloor>x\<rfloor> \<le> x" "x < of_int \<lfloor>x\<rfloor> + 1" by linarith+
  then show ?thesis by (auto simp: round_half_even_def Let_def abs_le_iff field_simps)
qed

lemma round53_bounds:
  assumes "x > 0"
  shows "2 powi (ilog2 x) \<le> round53 x" and "round53 x \<le> 2 powi (ilog2 x + 1)"
proof -
  let ?e = "ilog2 x - 52"
  have r: "round53 x = of_int (round_half_even (x / 2 powi ?e)) * 2 powi ?e"
    using assms by (simp add: round53_def Let_def)
  have p: "(2 :: rat) powi ilog2 x = of_int (2 ^ 52) * 2 powi ?e"
    and p': "(2 :: rat) powi (ilog2 x + 1) = of_int (2 ^ 53) * 2 powi ?e"
    using pow2_add [of 52 ?e] pow2_add [of 53 ?e] by (simp_all add: algebra_simps)
  from ilog2_bounds [OF assms] have
    "of_int (2 ^ 52) \<le> x / 2 powi ?e" "x / 2 powi ?e \<le> of_int (2 ^ 53)"
    unfolding p p' by (simp_all add: pos_le_divide_eq pos_divide_le_eq less_imp_le)
  then have "2 ^ 52 \<le> round_half_even (x / 2 powi ?e)" "round_half_even (x / 2 powi ?e) \<le> 2 ^ 53"
    using round_half_even_mono [of "of_int (2 ^ 52)" "x / 2 powi ?e"]
      round_half_even_mono [of "x / 2 powi ?e" "of_int (2 ^ 53)"] by (simp_all only: round_half_even_int)
  then have "(of_int (2 ^ 52) :: rat) \<le> of_int (round_half_even (x / 2 powi ?e))"
    "(of_int (round_half_even (x / 2 powi ?e)) :: rat) \<le> of_int (2 ^ 53)" by (simp_all only: of_int_le_iff)
  then show "2 powi (ilog2 x) \<le> round53 x" and "round53 x \<le> 2 powi (ilog2 x + 1)"
    unfolding p p' r by (auto intro!: mult_right_mono)
qed

lemma round53_mono:
  assumes "x \<le> y"
  shows "round53 x \<le> round53 y"
proof (cases "x \<le> 0")
  case True
  have "0 \<le> round53 y" if "y > 0" using round53_bounds(1) [OF that] by (rule order_trans [rotated]) simp
  then show ?thesis using True by (cases "y \<le> 0") (auto simp: round53_def)
next
  case False
  then have pos: "x > 0" "y > 0" using assms by auto
  show ?thesis
  proof (cases "ilog2 x = ilog2 y")
    case True
    have "round_half_even (x / 2 powi (ilog2 y - 52)) \<le> round_half_even (y / 2 powi (ilog2 y - 52))"
      by (rule round_half_even_mono) (use assms in \<open>auto intro!: divide_right_mono\<close>)
    then show ?thesis using pos True by (simp add: round53_def Let_def)
  next
    case False
    with ilog2_mono [OF pos(1) assms] have "ilog2 x + 1 \<le> ilog2 y" by linarith
    then have "(2 :: rat) powi (ilog2 x + 1) \<le> 2 powi (ilog2 y)" by (rule pow2_mono)
    then show ?thesis using round53_bounds(2) [OF pos(1)] round53_bounds(1) [OF pos(2)] by linarith
  qed
qed

lemma round53_error:
  assumes "x > 0"
  shows "\<bar>round53 x - x\<bar> \<le> x / 2 ^ 53"
proof -
  let ?e = "ilog2 x - 52"
  have r: "round53 x = of_int (round_half_even (x / 2 powi ?e)) * 2 powi ?e"
    using assms by (simp add: round53_def Let_def)
  have "\<bar>of_int (round_half_even (x / 2 powi ?e)) - x / 2 powi ?e\<bar> * 2 powi ?e \<le> 1 / 2 * 2 powi ?e"
    by (rule mult_right_mono [OF round_half_even_error]) simp
  also have "\<bar>of_int (round_half_even (x / 2 powi ?e)) - x / 2 powi ?e\<bar> * 2 powi ?e
      = \<bar>(of_int (round_half_even (x / 2 powi ?e)) - x / 2 powi ?e) * 2 powi ?e\<bar>"
    by (simp add: abs_mult)
  also have "\<dots> = \<bar>round53 x - x\<bar>"
    by (simp add: r left_diff_distrib)
  also have "1 / 2 * (2 :: rat) powi ?e = 2 powi (ilog2 x) / 2 ^ 53"
    using pow2_add [of 52 ?e] by simp
  also have "\<dots> \<le> x / 2 ^ 53"
    using ilog2_bounds(1) [OF assms] by (intro divide_right_mono) auto
  finally show ?thesis .
qed

lemma round53_nonneg [simp]: "0 \<le> round53 x"
  using round53_mono [of 0 x] by (cases "x \<le> 0") (auto simp: round53_def)

lemma round53_0 [simp]: "round53 0 = 0"
  by (simp add: round53_def)

lemma round53_pos: "0 < x \<Longrightarrow> 0 < round53 x"
  using round53_bounds(1) [of x] pow2_pos [of "ilog2 x"] by linarith

text \<open>Integers below \<open>2 ^ 53\<close> are represented exactly.\<close>

lemma round53_of_nat:
  assumes "n < 2 ^ 53"
  shows "round53 (of_nat n) = of_nat n"
proof (cases "n = 0")
  case False
  then have pos: "(of_nat n :: rat) > 0" by simp
  have "(2 :: rat) powi (ilog2 (of_nat n)) \<le> of_nat n" by (rule ilog2_bounds(1) [OF pos])
  also have "(of_nat n :: rat) < of_nat (2 ^ 53)" using assms by (simp only: of_nat_less_iff)
  finally have "(2 :: rat) powi (ilog2 (of_nat n)) < 2 powi 53" by simp
  then have e: "ilog2 (of_nat n) \<le> 52"
    using pow2_mono [of 53 "ilog2 (of_nat n)"] by linarith
  let ?e = "ilog2 (of_nat n) - 52"
  obtain j where j: "?e = - int j" using e by (metis diff_ge_0_iff_ge minus_diff_eq nat_0_le zero_le_imp_eq_int minus_minus)
  have "(of_nat n :: rat) / 2 powi ?e = of_int (int n * 2 ^ j)"
    unfolding j by (simp add: power_int_minus field_simps)
  then show ?thesis
    using pos False unfolding round53_def Let_def
    by (simp only: round_half_even_int) (simp add: j power_int_minus)
qed simp


subsection \<open>Threshold checks\<close>

lemma f64_ratio_pos:
  assumes "0 < t"
  shows "f64_ratio s t = Finite (round53 (round53 (of_nat s) / round53 (of_nat t)))"
  using round53_pos [of "of_nat t"] assms by (simp add: f64_ratio_def f64_of_u64_def)

lemma f64_ratio_zero: "f64_ratio s 0 = (if s = 0 then NaN else Infinity)"
  using round53_pos [of "of_nat s"] by (cases "s = 0") (auto simp: f64_ratio_def f64_of_u64_def)

text \<open>More stake never turns a passed check into a failed one.\<close>

lemma f64_ratio_ge_mono:
  assumes "s \<le> s'" and "f64_ge (f64_ratio s t) c"
  shows "f64_ge (f64_ratio s' t) c"
proof (cases "t = 0")
  case True
  with assms show ?thesis by (cases c) (auto simp: f64_ratio_zero split: if_splits)
next
  case False
  have "round53 (round53 (of_nat s) / round53 (of_nat t)) \<le> round53 (round53 (of_nat s') / round53 (of_nat t))"
    by (intro round53_mono divide_right_mono) (use assms in auto)
  with assms False show ?thesis by (cases c) (auto simp: f64_ratio_pos)
qed

text \<open>An exact ratio at or above \<open>p / q\<close> passes, when the stakes are exact doubles.\<close>

lemma f64_ratio_ge_complete:
  assumes "s < 2 ^ 53" "t < 2 ^ 53" "p < 2 ^ 53" "q < 2 ^ 53" "0 < t" "0 < q" "p * t \<le> q * s"
  shows "f64_ge (f64_ratio s t) (f64_ratio p q)"
proof -
  have "(of_nat (p * t) :: rat) \<le> of_nat (q * s)" using assms(7) by (simp only: of_nat_le_iff)
  then have "(of_nat p / of_nat q :: rat) \<le> of_nat s / of_nat t"
    using assms by (simp add: field_simps)
  then have "round53 (of_nat p / of_nat q) \<le> round53 (of_nat s / of_nat t)" by (rule round53_mono)
  then show ?thesis using assms by (simp add: f64_ratio_pos round53_of_nat)
qed

lemma round53_le:
  assumes "0 \<le> x"
  shows "round53 x \<le> x * (1 + 1 / 2 ^ 53)"
proof (cases "x = 0")
  case False
  then have "\<bar>round53 x - x\<bar> \<le> x / 2 ^ 53" using round53_error assms by simp
  then have "round53 x \<le> x + x / 2 ^ 53" by linarith
  then show ?thesis by (simp only: distrib_left) simp
qed simp

lemma round53_ge:
  assumes "0 \<le> x"
  shows "x * (1 - 1 / 2 ^ 53) \<le> round53 x"
proof (cases "x = 0")
  case False
  then have "\<bar>round53 x - x\<bar> \<le> x / 2 ^ 53" using round53_error assms by simp
  then have "x - x / 2 ^ 53 \<le> round53 x" by linarith
  then show ?thesis by (simp only: right_diff_distrib) simp
qed simp

text \<open>
  A passed check bounds the exact stakes from below: at most one part in \<open>2 ^ 51\<close> of the
  threshold is lost to rounding.
\<close>

lemma f64_ratio_ge_sound_rat:
  assumes "0 < t" "0 < q" and ge: "f64_ge (f64_ratio s t) (f64_ratio p q)"
    and "p < 2 ^ 53" "q < 2 ^ 53"
  shows "of_nat p * of_nat t * (1 - 4 / 2 ^ 53) \<le> (of_nat q * of_nat s :: rat)"
proof -
  define u :: rat where "u = 1 / 2 ^ 53"
  define S T :: rat where "S = round53 (of_nat s)" and "T = round53 (of_nat t)"
  have u: "0 < u" "u < 1" by (simp_all add: u_def)
  have Tpos: "0 < T" using round53_pos [of "of_nat t"] assms by (simp add: T_def)
  have Tge: "of_nat t * (1 - u) \<le> T" using round53_ge [of "of_nat t"] by (simp add: T_def u_def)
  have Sle: "S \<le> of_nat s * (1 + u)" using round53_le [of "of_nat s"] by (simp add: S_def u_def)
  have Snn: "0 \<le> S" by (simp add: S_def)
  have qpos: "(0 :: rat) < of_nat q" using assms by simp
  have "of_nat p / of_nat q * (1 - u) \<le> round53 (of_nat p / of_nat q)"
    using round53_ge [of "of_nat p / of_nat q"] by (simp add: u_def)
  also have "\<dots> \<le> round53 (S / T)"
    using ge assms by (simp add: f64_ratio_pos round53_of_nat S_def T_def)
  also have "\<dots> \<le> S / T * (1 + u)"
    using round53_le [of "S / T"] Snn Tpos by (simp add: u_def)
  finally have "of_nat p / of_nat q * (1 - u) \<le> S * (1 + u) / T" by simp
  then have 1: "of_nat p * (1 - u) * T \<le> of_nat q * (S * (1 + u))"
    using Tpos qpos by (simp add: field_simps)
  have "of_nat p * (1 - u) * (of_nat t * (1 - u)) \<le> of_nat p * (1 - u) * T"
    using Tge u by (intro mult_left_mono) auto
  also note 1
  also have "of_nat q * (S * (1 + u)) \<le> of_nat q * (of_nat s * (1 + u) * (1 + u))"
    using Sle u by (intro mult_left_mono mult_right_mono) auto
  finally have 2: "of_nat p * of_nat t * (1 - u)\<^sup>2 \<le> of_nat q * of_nat s * (1 + u)\<^sup>2"
    by (simp add: power2_eq_square algebra_simps)
  have 3: "(1 - 4 * u) * (1 + u)\<^sup>2 \<le> (1 - u)\<^sup>2"
    using u by (simp add: power2_eq_square algebra_simps)
  have "of_nat p * of_nat t * (1 - 4 * u) * (1 + u)\<^sup>2 \<le> of_nat p * of_nat t * (1 - u)\<^sup>2"
    using mult_left_mono [OF 3, of "of_nat p * of_nat t"] by (simp add: mult.assoc)
  with 2 have "of_nat p * of_nat t * (1 - 4 * u) * (1 + u)\<^sup>2 \<le> of_nat q * of_nat s * (1 + u)\<^sup>2"
    by linarith
  then have "of_nat p * of_nat t * (1 - 4 * u) \<le> of_nat q * of_nat s"
    by (rule mult_right_le_imp_le) (use u in simp)
  then show ?thesis by (simp add: u_def)
qed

lemma f64_ratio_ge_sound:
  assumes "0 < t" "0 < q" "f64_ge (f64_ratio s t) (f64_ratio p q)" "p < 2 ^ 53" "q < 2 ^ 53"
  shows "p * t \<le> q * s + p * t div 2 ^ 51"
proof -
  have "(of_nat (p * t) :: rat) * (1 - 4 / 2 ^ 53) \<le> of_nat (q * s)"
    using f64_ratio_ge_sound_rat [OF assms] by simp
  then have "(of_nat (2 ^ 51 * (p * t)) :: rat) \<le> of_nat (2 ^ 51 * (q * s) + p * t)"
    by (simp add: algebra_simps)
  then have "2 ^ 51 * (p * t) \<le> 2 ^ 51 * (q * s) + p * t" by (simp only: of_nat_le_iff)
  then have "2 ^ 51 * (p * t - q * s) \<le> p * t" by (simp add: diff_mult_distrib2)
  then have "p * t - q * s \<le> p * t div 2 ^ 51"
    by (simp add: less_eq_div_iff_mult_less_eq mult.commute)
  then show ?thesis by linarith
qed

lemma f64_ratio_ge_exact:
  assumes "0 < t" "0 < q" "p < 2 ^ 53" "q < 2 ^ 53" "p * t < 2 ^ 51" "s < 2 ^ 53" "t < 2 ^ 53"
  shows "f64_ge (f64_ratio s t) (f64_ratio p q) \<longleftrightarrow> p * t \<le> q * s"
  using f64_ratio_ge_sound [of t q s p] f64_ratio_ge_complete [of s t p q] assms by auto

end
