(* ===== verification/Tower.thy ===== *)
theory Tower
  imports Float64
begin

section \<open>Tower BFT: the vote tower (\<open>karstflow-consensus/src/tower.rs\<close>)\<close>

text \<open>
  The tower is a stack of votes, oldest first, each with a confirmation count that doubles
  its lockout. Pushing a vote pops the expired votes from the top, roots the oldest vote when
  the tower is full, and doubles the lockouts of the votes that are confirmed consecutively.
  Slots are \<open>u64\<close>, confirmation counts \<open>u32\<close>; both are natural numbers with the
  saturating operations of the source written out. A panic (removing from an empty vector) is
  \<open>None\<close>.
\<close>

subsection \<open>Definitions\<close>

definition VOTE_THRESHOLD_SIZE :: f64 where "VOTE_THRESHOLD_SIZE = f64_ratio 2 3"
definition SWITCH_FORK_THRESHOLD :: f64 where "SWITCH_FORK_THRESHOLD = f64_lit (38 / 100)"
definition MAX_LOCKOUT_HISTORY :: nat where "MAX_LOCKOUT_HISTORY = 31"
definition VOTE_THRESHOLD_DEPTH :: nat where "VOTE_THRESHOLD_DEPTH = 8"
definition INITIAL_LOCKOUT :: nat where "INITIAL_LOCKOUT = 2"
definition SUPERMAJORITY_THRESHOLD :: f64 where "SUPERMAJORITY_THRESHOLD = f64_ratio 2 3"
definition MAX_CONFIRMATION_COUNT :: nat where "MAX_CONFIRMATION_COUNT = MAX_LOCKOUT_HISTORY"

record TowerVote =
  tv_slot :: slot
  confirmation_count :: nat

definition new_vote :: "slot \<Rightarrow> TowerVote" where
  "new_vote s = \<lparr>tv_slot = s, confirmation_count = 1\<rparr>"

definition lockout :: "TowerVote \<Rightarrow> u64" where
  "lockout v = min (INITIAL_LOCKOUT ^ confirmation_count v) u64_max"

definition expiration_slot :: "TowerVote \<Rightarrow> slot" where
  "expiration_slot v = sat_add64 (tv_slot v) (lockout v)"

definition is_locked_out_at :: "TowerVote \<Rightarrow> slot \<Rightarrow> bool" where
  "is_locked_out_at v s \<longleftrightarrow> expiration_slot v > s"

definition increment_confirmation :: "TowerVote \<Rightarrow> TowerVote" where
  "increment_confirmation v = v\<lparr>confirmation_count := min (confirmation_count v + 1) (2 ^ 32 - 1)\<rparr>"

record Tower =
  votes :: "TowerVote list"
  tower_root :: "slot option"
  max_size :: nat

definition tower_new :: Tower where
  "tower_new = \<lparr>votes = [], tower_root = None, max_size = MAX_LOCKOUT_HISTORY\<rparr>"

definition with_root :: "slot \<Rightarrow> Tower" where
  "with_root r = \<lparr>votes = [], tower_root = Some r, max_size = MAX_LOCKOUT_HISTORY\<rparr>"

definition from_saved :: "TowerVote list \<Rightarrow> slot option \<Rightarrow> Tower" where
  "from_saved vs r = \<lparr>votes = vs, tower_root = r, max_size = MAX_LOCKOUT_HISTORY\<rparr>"

definition last_vote_slot :: "Tower \<Rightarrow> slot option" where
  "last_vote_slot t = (if votes t = [] then None else Some (tv_slot (last (votes t))))"

text \<open>The loop of \<open>simulate_vote\<close>; the last argument is \<open>count\<close>.\<close>

fun simulate_loop :: "TowerVote list \<Rightarrow> slot \<Rightarrow> nat \<Rightarrow> nat" where
  "simulate_loop vs s 0 = 0"
| "simulate_loop vs s (Suc count) =
     (if s < expiration_slot (vs ! count) then Suc count else simulate_loop vs s count)"

definition simulate_vote :: "Tower \<Rightarrow> slot \<Rightarrow> nat" where
  "simulate_vote t s = simulate_loop (votes t) s (length (votes t))"

definition is_locked_out :: "Tower \<Rightarrow> slot \<Rightarrow> (slot \<Rightarrow> slot \<Rightarrow> bool) \<Rightarrow> bool" where
  "is_locked_out t s is_same_fork \<longleftrightarrow>
     (case tower_root t of Some r \<Rightarrow> s \<le> r | None \<Rightarrow> False) \<or>
     list_ex (\<lambda>v. is_locked_out_at v s \<and> \<not> is_same_fork (tv_slot v) s) (votes t)"

text \<open>
  The confirmation loop of \<open>push_vote\<close>, over the votes from newest to oldest: votes are
  incremented as long as their counts are 1, 2, 3, and so on.
\<close>

fun confirm_loop :: "nat \<Rightarrow> TowerVote list \<Rightarrow> TowerVote list" where
  "confirm_loop prev_conf [] = []"
| "confirm_loop prev_conf (v # vs) =
     (if confirmation_count v \<noteq> prev_conf + 1 then v # vs
      else increment_confirmation v # confirm_loop (prev_conf + 1) vs)"

definition push_vote :: "Tower \<Rightarrow> slot \<Rightarrow> (Tower \<times> slot option) option" where
  "push_vote t s =
     (if (case last_vote_slot t of Some l \<Rightarrow> s \<le> l | None \<Rightarrow> False) then Some (t, None)
      else
        let remaining = take (simulate_vote t s) (votes t) in
        do {
          (rest, r, new_root) \<leftarrow>
            (if length remaining \<ge> max_size t
             then (case remaining of
                     [] \<Rightarrow> None
                   | bottom # rest \<Rightarrow> Some (rest, Some (tv_slot bottom), Some (tv_slot bottom)))
             else Some (remaining, tower_root t, None));
          Some (t\<lparr>votes := rev (confirm_loop 0 (rev rest)) @ [new_vote s], tower_root := r\<rparr>, new_root)
        })"

definition set_root :: "Tower \<Rightarrow> slot \<Rightarrow> Tower" where
  "set_root t new_root =
     t\<lparr>tower_root := Some new_root, votes := filter (\<lambda>v. tv_slot v > new_root) (votes t)\<rparr>"

definition clear_votes :: "Tower \<Rightarrow> Tower" where
  "clear_votes t = t\<lparr>votes := []\<rparr>"

datatype TowerError =
    LockoutViolation slot
  | VoteNotNewer slot slot
  | VoteBelowRoot slot slot
  | SlotsNotOrdered slot slot
  | ZeroConfirmation slot
  | ConfirmationTooLarge slot nat
  | ConfirmationsNotOrdered slot nat
  | TowerTooLarge nat nat

definition record_vote ::
  "Tower \<Rightarrow> slot \<Rightarrow> (slot \<Rightarrow> slot \<Rightarrow> bool) \<Rightarrow> (TowerError + (Tower \<times> slot option)) option" where
  "record_vote t s is_same_fork =
     (if is_locked_out t s is_same_fork then Some (Inl (LockoutViolation s))
      else map_option Inr (push_vote t s))"

definition check_switch_threshold :: "Tower \<Rightarrow> stake \<Rightarrow> stake \<Rightarrow> bool" where
  "check_switch_threshold t total_stake stake_on_other_forks \<longleftrightarrow>
     (if total_stake = 0 then True
      else if votes t = [] then True
      else f64_ge (f64_ratio stake_on_other_forks total_stake) SWITCH_FORK_THRESHOLD)"

definition can_switch_to ::
  "Tower \<Rightarrow> slot \<Rightarrow> stake \<Rightarrow> stake \<Rightarrow> (slot \<Rightarrow> slot \<Rightarrow> bool) \<Rightarrow> bool" where
  "can_switch_to t candidate total_stake current_fork_stake is_same_fork \<longleftrightarrow>
     (case last_vote_slot t of
        None \<Rightarrow> True
      | Some l \<Rightarrow>
          if is_same_fork l candidate then True
          else check_switch_threshold t total_stake (total_stake - current_fork_stake))"

definition last_vote_lockout_expiration :: "Tower \<Rightarrow> slot option" where
  "last_vote_lockout_expiration t =
     (if votes t = [] then None else Some (expiration_slot (last (votes t))))"

definition vote_slots :: "Tower \<Rightarrow> slot list" where
  "vote_slots t = map tv_slot (votes t)"

definition contains_vote :: "Tower \<Rightarrow> slot \<Rightarrow> bool" where
  "contains_vote t s \<longleftrightarrow> list_ex (\<lambda>v. tv_slot v = s) (votes t)"

definition get_vote :: "Tower \<Rightarrow> nat \<Rightarrow> TowerVote option" where
  "get_vote t index = (if index < length (votes t) then Some (votes t ! index) else None)"

text \<open>\<open>iter().sum()\<close> adds with the wrapping operator of the release profile.\<close>

definition total_lockout_distance :: "Tower \<Rightarrow> u64" where
  "total_lockout_distance t = fold (\<lambda>v acc. add64 acc (lockout v)) (votes t) 0"

definition max_lockout :: "Tower \<Rightarrow> u64 option" where
  "max_lockout t = (if votes t = [] then None else Some (Max (set (map lockout (votes t)))))"

definition is_full :: "Tower \<Rightarrow> bool" where
  "is_full t \<longleftrightarrow> length (votes t) \<ge> max_size t"

definition is_any_vote_locked_out :: "Tower \<Rightarrow> slot \<Rightarrow> bool" where
  "is_any_vote_locked_out t s \<longleftrightarrow> list_ex (\<lambda>v. is_locked_out_at v s) (votes t)"

definition switching_threshold :: "Tower \<Rightarrow> f64" where
  "switching_threshold t = f64_add (f64_lit 1) SWITCH_FORK_THRESHOLD"

definition check_threshold :: "Tower \<Rightarrow> nat \<Rightarrow> (slot \<Rightarrow> stake) \<Rightarrow> stake \<Rightarrow> bool" where
  "check_threshold t depth stake_for_slot total_stake \<longleftrightarrow>
     (if total_stake = 0 then False
      else
        let check_depth = min depth (length (votes t)) in
        if check_depth = 0 then True
        else
          let idx = length (votes t) - check_depth in
          if idx \<ge> length (votes t) then True
          else f64_ge (f64_ratio (stake_for_slot (tv_slot (votes t ! idx))) total_stake)
                 VOTE_THRESHOLD_SIZE)"

text \<open>The four checks of \<open>verify\<close>, in the order of the source; each reports its first failure.\<close>

fun verify_above_root :: "slot \<Rightarrow> TowerVote list \<Rightarrow> TowerError + unit" where
  "verify_above_root r [] = Inr ()"
| "verify_above_root r (v # vs) =
     (if tv_slot v \<le> r then Inl (VoteBelowRoot (tv_slot v) r) else verify_above_root r vs)"

fun verify_slots :: "TowerVote list \<Rightarrow> TowerError + unit" where
  "verify_slots (u # v # vs) =
     (if tv_slot v \<le> tv_slot u then Inl (SlotsNotOrdered (tv_slot v) (tv_slot u))
      else verify_slots (v # vs))"
| "verify_slots _ = Inr ()"

fun verify_confirmations :: "TowerVote option \<Rightarrow> TowerVote list \<Rightarrow> TowerError + unit" where
  "verify_confirmations prev [] = Inr ()"
| "verify_confirmations prev (v # vs) =
     (if confirmation_count v = 0 then Inl (ZeroConfirmation (tv_slot v))
      else if confirmation_count v > MAX_CONFIRMATION_COUNT
        then Inl (ConfirmationTooLarge (tv_slot v) (confirmation_count v))
      else if (case prev of Some u \<Rightarrow> confirmation_count v > confirmation_count u | None \<Rightarrow> False)
        then Inl (ConfirmationsNotOrdered (tv_slot v) (confirmation_count v))
      else verify_confirmations (Some v) vs)"

definition tower_verify :: "Tower \<Rightarrow> TowerError + unit" where
  "tower_verify t =
     (if length (votes t) > max_size t then Inl (TowerTooLarge (length (votes t)) (max_size t))
      else case (case tower_root t of Some r \<Rightarrow> verify_above_root r (votes t) | None \<Rightarrow> Inr ()) of
        Inl e \<Rightarrow> Inl e
      | Inr _ \<Rightarrow>
          (case verify_slots (votes t) of
             Inl e \<Rightarrow> Inl e
           | Inr _ \<Rightarrow> verify_confirmations None (votes t)))"

definition create_vote_slots :: "Tower \<Rightarrow> slot list \<times> slot option" where
  "create_vote_slots t = (vote_slots t, tower_root t)"

text \<open>The candidate loop of \<open>select_vote_slot\<close>; \<open>best\<close> is the best candidate so far.\<close>

fun select_loop ::
  "Tower \<Rightarrow> (slot \<Rightarrow> slot \<Rightarrow> bool) \<Rightarrow> (slot \<times> stake) list \<Rightarrow> (slot \<times> stake) option \<Rightarrow> (slot \<times> stake) option"
where
  "select_loop t is_same_fork [] best = best"
| "select_loop t is_same_fork ((s, weight) # cs) best =
     (if (case last_vote_slot t of Some l \<Rightarrow> s \<le> l | None \<Rightarrow> False)
      then select_loop t is_same_fork cs best
      else if is_locked_out t s is_same_fork then select_loop t is_same_fork cs best
      else select_loop t is_same_fork cs
        (case best of
           None \<Rightarrow> Some (s, weight)
         | Some (best_slot, best_weight) \<Rightarrow>
             if weight > best_weight \<or> (weight = best_weight \<and> s < best_slot)
             then Some (s, weight) else best))"

definition select_vote_slot ::
  "Tower \<Rightarrow> (slot \<times> stake) list \<Rightarrow> (slot \<Rightarrow> slot \<Rightarrow> bool) \<Rightarrow> slot option" where
  "select_vote_slot t candidates is_same_fork =
     map_option fst (select_loop t is_same_fork candidates None)"

lemmas tower_consts = MAX_LOCKOUT_HISTORY_def VOTE_THRESHOLD_DEPTH_def INITIAL_LOCKOUT_def
  MAX_CONFIRMATION_COUNT_def

subsection \<open>The invariant\<close>

text \<open>
  Slots strictly increase, confirmation counts strictly decrease towards the top, and both
  the size and the counts stay within the lockout history. This is stronger than what
  \<open>verify\<close> checks (it accepts equal neighbouring counts), and it is what \<open>push_vote\<close> keeps.
  That the votes lie above the root is a clause of its own: \<open>push_vote\<close> does not compare the
  slot with the root, so it keeps that clause only for slots above the root.
\<close>

definition votes_ordered :: "TowerVote list \<Rightarrow> bool" where
  "votes_ordered vs \<longleftrightarrow> sorted_wrt (\<lambda>u v. tv_slot u < tv_slot v \<and> confirmation_count u > confirmation_count v) vs
     \<and> (\<forall>v \<in> set vs. 1 \<le> confirmation_count v \<and> confirmation_count v \<le> MAX_LOCKOUT_HISTORY)"

definition tower_core :: "Tower \<Rightarrow> bool" where
  "tower_core t \<longleftrightarrow> max_size t = MAX_LOCKOUT_HISTORY \<and> length (votes t) \<le> MAX_LOCKOUT_HISTORY
     \<and> votes_ordered (votes t)"

definition above_root :: "Tower \<Rightarrow> bool" where
  "above_root t \<longleftrightarrow> (case tower_root t of Some r \<Rightarrow> \<forall>v \<in> set (votes t). r < tv_slot v | None \<Rightarrow> True)"

definition tower_inv :: "Tower \<Rightarrow> bool" where
  "tower_inv t \<longleftrightarrow> tower_core t \<and> above_root t"

lemmas tower_inv_defs = tower_inv_def tower_core_def above_root_def

lemma votes_ordered_take: "votes_ordered vs \<Longrightarrow> votes_ordered (take n vs)"
  by (auto simp: votes_ordered_def sorted_wrt_take dest: in_set_takeD)

lemma votes_ordered_tl: "votes_ordered (v # vs) \<Longrightarrow> votes_ordered vs"
  by (simp add: votes_ordered_def)

lemma votes_ordered_filter: "votes_ordered vs \<Longrightarrow> votes_ordered (filter P vs)"
  by (auto simp: votes_ordered_def sorted_wrt_filter)

lemma simulate_loop_le: "simulate_loop vs s n \<le> n"
  by (induction vs s n rule: simulate_loop.induct) auto

lemma simulate_loop_spec:
  "n \<le> length vs \<Longrightarrow>
   take (simulate_loop vs s n) vs = rev (dropWhile (\<lambda>v. expiration_slot v \<le> s) (rev (take n vs)))"
  by (induction vs s n rule: simulate_loop.induct) (auto simp: take_Suc_conv_app_nth not_less)

text \<open>The confirmation loop only changes counts, and by at most one.\<close>

lemma confirm_loop_slots [simp]: "map tv_slot (confirm_loop k vs) = map tv_slot vs"
  by (induction k vs rule: confirm_loop.induct) (auto simp: increment_confirmation_def)

lemma confirm_loop_length [simp]: "length (confirm_loop k vs) = length vs"
  by (induction k vs rule: confirm_loop.induct) auto

text \<open>
  Seen from the newest vote, counts strictly increase; the loop keeps that, and every count
  stays above the number of votes that are newer.
\<close>

lemma confirm_loop_ordered:
  assumes "sorted_wrt (<) (map confirmation_count vs)" and "\<forall>v \<in> set vs. k < confirmation_count v"
    and "\<forall>v \<in> set vs. confirmation_count v \<le> MAX_LOCKOUT_HISTORY" and "k + length vs < MAX_LOCKOUT_HISTORY"
  shows "sorted_wrt (<) (map confirmation_count (confirm_loop k vs)) \<and>
         (\<forall>v \<in> set (confirm_loop k vs). k + 1 < confirmation_count v \<and>
            confirmation_count v \<le> MAX_LOCKOUT_HISTORY)"
  using assms
proof (induction k vs rule: confirm_loop.induct)
  case (1 k)
  then show ?case by simp
next
  case (2 k v vs)
  show ?case
  proof (cases "confirmation_count v = k + 1")
    case True
    then have inc: "confirmation_count (increment_confirmation v) = k + 2"
      using 2(5) by (simp add: increment_confirmation_def tower_consts)
    have "sorted_wrt (<) (map confirmation_count (confirm_loop (k + 1) vs)) \<and>
        (\<forall>w \<in> set (confirm_loop (k + 1) vs). k + 1 + 1 < confirmation_count w \<and>
           confirmation_count w \<le> MAX_LOCKOUT_HISTORY)"
      using 2 True by auto
    then show ?thesis using True inc 2(5) by auto
  next
    case False
    then show ?thesis using 2(2,3,4) by fastforce
  qed
qed

lemma votes_ordered_rev:
  "votes_ordered vs \<longleftrightarrow> sorted_wrt (<) (map tv_slot vs) \<and> sorted_wrt (<) (map confirmation_count (rev vs)) \<and>
     (\<forall>v \<in> set vs. 1 \<le> confirmation_count v \<and> confirmation_count v \<le> MAX_LOCKOUT_HISTORY)"
proof -
  have "sorted_wrt (\<lambda>u v. P u v \<and> Q u v) vs \<longleftrightarrow> sorted_wrt P vs \<and> sorted_wrt Q vs" for P Q
    by (induction vs) auto
  then show ?thesis
    by (simp add: votes_ordered_def sorted_wrt_map sorted_wrt_rev rev_map [symmetric] conj_assoc)
qed

text \<open>The new votes of a push, from the votes that remain after expiry and rooting.\<close>

lemma votes_ordered_push:
  assumes "votes_ordered vs" and "length vs < MAX_LOCKOUT_HISTORY" and "\<forall>v \<in> set vs. tv_slot v < s"
  shows "votes_ordered (rev (confirm_loop 0 (rev vs)) @ [new_vote s])"
proof -
  let ?ws = "confirm_loop 0 (rev vs)"
  have conf: "sorted_wrt (<) (map confirmation_count ?ws) \<and>
      (\<forall>v \<in> set ?ws. 1 < confirmation_count v \<and> confirmation_count v \<le> MAX_LOCKOUT_HISTORY)"
    using confirm_loop_ordered [of "rev vs" 0] assms(1,2) by (auto simp: votes_ordered_rev Suc_le_eq)
  have slots: "map tv_slot (rev ?ws) = map tv_slot vs"
    using confirm_loop_slots [of 0 "rev vs"] by (metis rev_map rev_rev_ident)
  then have "tv_slot ` set ?ws = tv_slot ` set vs" by (metis set_map set_rev)
  then have "\<forall>w \<in> set ?ws. tv_slot w < s" using assms(3) by force
  then show ?thesis
    using conf slots assms(1,3)
    by (auto simp: votes_ordered_rev sorted_wrt_append rev_map [symmetric] new_vote_def tower_consts)
qed


subsection \<open>Every operation keeps the invariant\<close>

lemma tower_inv_new: "tower_inv tower_new"
  by (simp add: tower_inv_defs tower_new_def votes_ordered_def)

lemma tower_inv_with_root: "tower_inv (with_root r)"
  by (simp add: tower_inv_defs with_root_def votes_ordered_def)

lemma tower_core_set_root: "tower_core t \<Longrightarrow> tower_core (set_root t r)"
  by (auto simp: tower_core_def set_root_def intro: votes_ordered_filter order_trans [OF length_filter_le])

lemma above_root_set_root: "above_root (set_root t r)"
  by (auto simp: above_root_def set_root_def)

lemma tower_inv_clear: "tower_core t \<Longrightarrow> tower_inv (clear_votes t)"
  by (auto simp: tower_inv_defs clear_votes_def votes_ordered_def split: option.splits)

lemma from_saved_id: "tower_core t \<Longrightarrow> from_saved (votes t) (tower_root t) = t"
  by (simp add: tower_core_def from_saved_def)

lemma last_vote_newest:
  assumes "votes_ordered (votes t)" and "last_vote_slot t = Some l" and "v \<in> set (votes t)"
  shows "tv_slot v \<le> l"
proof -
  from assms(2) have ne: "votes t \<noteq> []" and l: "l = tv_slot (last (votes t))"
    by (auto simp: last_vote_slot_def split: if_splits)
  from ne obtain us where "votes t = us @ [last (votes t)]" by (metis append_butlast_last_id)
  with assms(1,3) l show ?thesis
    by (metis (no_types, lifting) Un_iff empty_iff list.set(1) less_imp_le order_refl set_ConsD
        set_append sorted_wrt_append list.set_intros(1) votes_ordered_def)
qed

text \<open>What a push does when the slot is newer than the last vote: the whole effect in one lemma.\<close>

lemma push_vote_newer:
  assumes inv: "tower_core t" and newer: "\<And>l. last_vote_slot t = Some l \<Longrightarrow> l < s"
  defines "rem \<equiv> take (simulate_vote t s) (votes t)"
  shows "push_vote t s =
     (if length rem = MAX_LOCKOUT_HISTORY
      then Some (t\<lparr>votes := rev (confirm_loop 0 (rev (tl rem))) @ [new_vote s],
                   tower_root := Some (tv_slot (hd rem))\<rparr>, Some (tv_slot (hd rem)))
      else Some (t\<lparr>votes := rev (confirm_loop 0 (rev rem)) @ [new_vote s]\<rparr>, None))"
proof -
  have "length rem \<le> MAX_LOCKOUT_HISTORY" "max_size t = MAX_LOCKOUT_HISTORY"
    using inv by (auto simp: tower_core_def rem_def)
  moreover have "\<not> (case last_vote_slot t of Some l \<Rightarrow> s \<le> l | None \<Rightarrow> False)"
    using newer by (auto simp: not_le split: option.splits)
  ultimately show ?thesis
    unfolding push_vote_def Let_def rem_def [symmetric]
    by (cases rem) (auto simp: tower_consts)
qed

lemma push_vote_stale:
  "last_vote_slot t = Some l \<Longrightarrow> s \<le> l \<Longrightarrow> push_vote t s = Some (t, None)"
  by (simp add: push_vote_def)

lemma push_slots_all:
  "(\<forall>v \<in> set (rev (confirm_loop 0 (rev vs)) @ [new_vote s]). P (tv_slot v)) \<longleftrightarrow>
   P s \<and> (\<forall>v \<in> set vs. P (tv_slot v))"
proof -
  have "(\<forall>v \<in> set (confirm_loop 0 (rev vs)). P (tv_slot v)) \<longleftrightarrow>
      (\<forall>x \<in> set (map tv_slot (confirm_loop 0 (rev vs))). P x)"
    by (simp del: confirm_loop_slots)
  also have "\<dots> \<longleftrightarrow> (\<forall>v \<in> set vs. P (tv_slot v))" unfolding confirm_loop_slots by simp
  finally show ?thesis by (simp add: new_vote_def)
qed

lemma newer_than_all:
  assumes "tower_core t" and "\<And>l. last_vote_slot t = Some l \<Longrightarrow> l < s" and "v \<in> set (votes t)"
  shows "tv_slot v < s"
proof -
  obtain l where l: "last_vote_slot t = Some l"
    using assms(3) by (cases "votes t = []") (auto simp: last_vote_slot_def)
  with assms have "tv_slot v \<le> l" by (auto simp: tower_core_def intro: last_vote_newest)
  with assms(2) [OF l] show ?thesis by simp
qed

lemma tower_push:
  assumes inv: "tower_core t"
  shows "\<exists>t' r. push_vote t s = Some (t', r) \<and> tower_core t' \<and>
     (above_root t \<longrightarrow> (\<forall>r0. tower_root t = Some r0 \<longrightarrow> r0 < s) \<longrightarrow> above_root t')"
proof (cases "\<exists>l. last_vote_slot t = Some l \<and> s \<le> l")
  case True
  with inv show ?thesis by (auto simp: push_vote_stale)
next
  case False
  then have newer: "\<And>l. last_vote_slot t = Some l \<Longrightarrow> l < s" by (auto simp: not_le)
  let ?rem = "take (simulate_vote t s) (votes t)"
  have ord: "votes_ordered ?rem" using inv by (simp add: tower_core_def votes_ordered_take)
  have lens: "length ?rem \<le> MAX_LOCKOUT_HISTORY" using inv by (auto simp: tower_core_def)
  have oldr: "\<forall>v \<in> set ?rem. tv_slot v < s"
    using newer_than_all [OF inv newer] by (auto dest: in_set_takeD)
  show ?thesis
  proof (cases "length ?rem = MAX_LOCKOUT_HISTORY")
    case True
    then obtain b rest where b: "?rem = b # rest" by (cases ?rem) (auto simp: tower_consts)
    have "votes_ordered rest" using ord b votes_ordered_tl by metis
    moreover have "\<forall>v \<in> set rest. tv_slot b < tv_slot v" "tv_slot b < s" "\<forall>v \<in> set rest. tv_slot v < s"
      using ord b oldr by (auto simp: votes_ordered_def)
    moreover have "length rest < MAX_LOCKOUT_HISTORY" using b True by (metis length_Cons lessI)
    ultimately have "votes_ordered (rev (confirm_loop 0 (rev rest)) @ [new_vote s])"
      "\<forall>v \<in> set (rev (confirm_loop 0 (rev rest)) @ [new_vote s]). tv_slot b < tv_slot v"
      "length (rev (confirm_loop 0 (rev rest)) @ [new_vote s]) \<le> MAX_LOCKOUT_HISTORY"
      unfolding push_slots_all by (auto intro: votes_ordered_push)
    moreover have "push_vote t s =
        Some (t\<lparr>votes := rev (confirm_loop 0 (rev rest)) @ [new_vote s], tower_root := Some (tv_slot b)\<rparr>, Some (tv_slot b))"
      using push_vote_newer [OF inv newer] True b by simp
    ultimately show ?thesis
      using inv by (simp add: tower_core_def above_root_def)
  next
    case False
    have "votes_ordered (rev (confirm_loop 0 (rev ?rem)) @ [new_vote s])"
      using votes_ordered_push [OF ord] False lens oldr by auto
    moreover have "\<forall>v \<in> set (rev (confirm_loop 0 (rev ?rem)) @ [new_vote s]). r < tv_slot v"
      if "tower_root t = Some r" "above_root t" "r < s" for r
      unfolding push_slots_all using that by (auto simp: above_root_def dest: in_set_takeD)
    moreover have "length (rev (confirm_loop 0 (rev ?rem)) @ [new_vote s]) \<le> MAX_LOCKOUT_HISTORY"
      using False lens by simp
    moreover have "push_vote t s = Some (t\<lparr>votes := rev (confirm_loop 0 (rev ?rem)) @ [new_vote s]\<rparr>, None)"
      using push_vote_newer [OF inv newer] False by simp
    ultimately show ?thesis
      using inv unfolding above_root_def by (simp add: tower_core_def split: option.splits)
  qed
qed

text \<open>
  The confirmation loop in closed form: counted from the newest vote, the \<open>i\<close>-th vote is
  incremented exactly when its count is its depth. Since the counts strictly increase, the
  loop stops at the first vote whose count is larger, and no vote behind it has its depth.
\<close>

lemma confirm_loop_deeper:
  "sorted_wrt (<) (map confirmation_count vs) \<Longrightarrow> \<forall>v \<in> set vs. k < confirmation_count v \<Longrightarrow>
   i < length vs \<Longrightarrow> k + i < confirmation_count (vs ! i)"
proof (induction vs arbitrary: k i)
  case Nil
  then show ?case by simp
next
  case (Cons v vs)
  then show ?case using Cons.IH [of "k + 1" "i - 1"] by (cases i) fastforce+
qed

lemma confirm_loop_nth:
  "sorted_wrt (<) (map confirmation_count vs) \<Longrightarrow> \<forall>v \<in> set vs. k < confirmation_count v \<Longrightarrow>
   i < length vs \<Longrightarrow>
   confirm_loop k vs ! i =
     (if confirmation_count (vs ! i) = k + Suc i then increment_confirmation (vs ! i) else vs ! i)"
proof (induction k vs arbitrary: i rule: confirm_loop.induct)
  case (1 k)
  then show ?case by simp
next
  case (2 k v vs)
  show ?case
  proof (cases "confirmation_count v = k + 1")
    case True
    have "\<forall>w \<in> set vs. k + 1 < confirmation_count w" using 2(2) True by auto
    then show ?thesis using 2 True by (cases i) auto
  next
    case False
    have "k + 1 < confirmation_count v" using False 2(3) by auto
    then have "\<forall>w \<in> set (v # vs). k + 1 < confirmation_count w" using 2(2) by auto
    from confirm_loop_deeper [OF 2(2) this 2(4)] show ?thesis using False by auto
  qed
qed

text \<open>What a push makes of the votes it keeps, as a map over their depths.\<close>

definition confirm_at :: "nat \<Rightarrow> TowerVote \<Rightarrow> TowerVote" where
  "confirm_at depth v = (if confirmation_count v = depth then v\<lparr>confirmation_count := depth + 1\<rparr> else v)"

lemma confirm_loop_map:
  assumes "votes_ordered vs"
  shows "rev (confirm_loop 0 (rev vs)) = map (\<lambda>i. confirm_at (length vs - i) (vs ! i)) [0..<length vs]"
proof (rule nth_equalityI)
  fix i assume "i < length (rev (confirm_loop 0 (rev vs)))"
  then have i: "i < length vs" by simp
  have "confirm_loop 0 (rev vs) ! (length vs - Suc i) =
      (if confirmation_count (vs ! i) = length vs - i then increment_confirmation (vs ! i) else vs ! i)"
    using confirm_loop_nth [of "rev vs" 0 "length vs - Suc i"] assms i
    by (auto simp: votes_ordered_rev rev_nth Suc_le_eq Suc_diff_Suc)
  moreover have "confirmation_count (vs ! i) \<le> 31"
    using assms i by (auto simp: votes_ordered_def tower_consts)
  ultimately show "rev (confirm_loop 0 (rev vs)) ! i =
      map (\<lambda>i. confirm_at (length vs - i) (vs ! i)) [0..<length vs] ! i"
    using i by (auto simp: rev_nth confirm_at_def increment_confirmation_def)
qed simp

lemma record_vote_cases:
  assumes "record_vote t s sf = Some (Inr (t', r))"
  shows "push_vote t s = Some (t', r)" and "\<not> is_locked_out t s sf"
  using assms by (auto simp: record_vote_def split: if_splits)

lemma not_locked_out_above_root:
  "\<not> is_locked_out t s sf \<Longrightarrow> tower_root t = Some r \<Longrightarrow> r < s"
  by (auto simp: is_locked_out_def)

lemma record_vote_push:
  assumes "tower_core t" and "record_vote t s sf = Some (Inr (t', r))"
  shows "tower_core t' \<and> (above_root t \<longrightarrow> above_root t')"
  using tower_push [OF assms(1), of s] record_vote_cases [OF assms(2)]
  by (auto dest: not_locked_out_above_root)

lemma record_vote_total:
  assumes "tower_core t"
  shows "record_vote t s sf \<noteq> None"
  using tower_push [OF assms, of s] by (auto simp: record_vote_def)

text \<open>
  The steps of a tower in use: votes recorded under any fork oracle, votes pushed without the
  lockout check, a root set, votes cleared, and a restart from the saved votes and root. With
  \<open>guarded\<close>, slots are only pushed above the root, which \<open>record_vote\<close> ensures by itself and
  \<open>push_vote\<close> leaves to its caller.
\<close>

inductive tower_step :: "bool \<Rightarrow> Tower \<Rightarrow> Tower \<Rightarrow> bool" for guarded where
  step_record: "record_vote t s sf = Some (Inr (t', r)) \<Longrightarrow> tower_step guarded t t'"
| step_push: "push_vote t s = Some (t', r) \<Longrightarrow>
    (guarded \<Longrightarrow> \<forall>r0. tower_root t = Some r0 \<longrightarrow> r0 < s) \<Longrightarrow> tower_step guarded t t'"
| step_set_root: "tower_step guarded t (set_root t r)"
| step_clear: "tower_step guarded t (clear_votes t)"
| step_restart: "tower_step guarded t (from_saved (votes t) (tower_root t))"

definition tower_inv_if :: "bool \<Rightarrow> Tower \<Rightarrow> bool" where
  "tower_inv_if guarded t \<longleftrightarrow> tower_core t \<and> (guarded \<longrightarrow> above_root t)"

lemma tower_inv_push:
  assumes "tower_core t" and "push_vote t s = Some (t', r)"
  shows "tower_core t'" "above_root t \<Longrightarrow> \<forall>r0. tower_root t = Some r0 \<longrightarrow> r0 < s \<Longrightarrow> above_root t'"
  using tower_push [OF assms(1), of s] assms(2) by auto

lemma tower_inv_step:
  assumes "tower_inv_if guarded t" and "tower_step guarded t t'"
  shows "tower_inv_if guarded t'"
proof -
  have core: "tower_core t" and above: "guarded \<Longrightarrow> above_root t"
    using assms(1) by (auto simp: tower_inv_if_def)
  from assms(2) show ?thesis
  proof (cases rule: tower_step.cases)
    case (step_record s sf r)
    then show ?thesis using record_vote_push [OF core] above by (auto simp: tower_inv_if_def)
  next
    case (step_push s r)
    then show ?thesis using tower_inv_push [OF core] above by (auto simp: tower_inv_if_def)
  next
    case (step_set_root r)
    then show ?thesis using core by (simp add: tower_inv_if_def tower_core_set_root above_root_set_root)
  next
    case step_clear
    then show ?thesis using tower_inv_clear [OF core] by (simp add: tower_inv_if_def tower_inv_def)
  next
    case step_restart
    then show ?thesis using assms(1) from_saved_id [OF core] by simp
  qed
qed

interpretation tower_run: invariant_steps "tower_step guarded" "tower_inv_if guarded" for guarded
  by unfold_locales (rule tower_inv_step)

lemma verify_above_root_ok: "\<forall>v \<in> set vs. r < tv_slot v \<Longrightarrow> verify_above_root r vs = Inr ()"
  by (induction r vs rule: verify_above_root.induct) auto

lemma verify_slots_ok: "votes_ordered vs \<Longrightarrow> verify_slots vs = Inr ()"
  by (induction vs rule: verify_slots.induct) (auto simp: votes_ordered_def)

lemma verify_confirmations_ok:
  "votes_ordered vs \<Longrightarrow> \<forall>u. prev = Some u \<longrightarrow> (\<forall>v \<in> set vs. confirmation_count v \<le> confirmation_count u) \<Longrightarrow>
   verify_confirmations prev vs = Inr ()"
proof (induction prev vs rule: verify_confirmations.induct)
  case (1 prev)
  then show ?case by simp
next
  case (2 prev v vs)
  from 2(2) have "votes_ordered vs" "\<forall>w \<in> set vs. confirmation_count w \<le> confirmation_count v"
    "1 \<le> confirmation_count v" "confirmation_count v \<le> MAX_CONFIRMATION_COUNT"
    by (auto simp: votes_ordered_def tower_consts)
  moreover have "\<not> (case prev of Some u \<Rightarrow> confirmation_count v > confirmation_count u | None \<Rightarrow> False)"
    using 2(3) by (auto simp: not_less split: option.splits)
  ultimately show ?case using 2(1) by simp
qed

lemma verify_above_root_cases:
  "verify_above_root r vs = Inr () \<or> (\<exists>s \<le> r. verify_above_root r vs = Inl (VoteBelowRoot s r))"
  by (induction r vs rule: verify_above_root.induct) auto

lemma tower_core_verify:
  assumes "tower_core t"
  shows "tower_verify t = (case tower_root t of Some r \<Rightarrow> verify_above_root r (votes t) | None \<Rightarrow> Inr ())"
  using assms
  by (auto simp: tower_core_def tower_verify_def verify_slots_ok verify_confirmations_ok
      split: option.splits sum.splits)

lemma tower_inv_verify: "tower_inv t \<Longrightarrow> tower_verify t = Inr ()"
  by (auto simp: tower_inv_def tower_core_verify above_root_def verify_above_root_ok split: option.splits)

text \<open>
  \<open>verify\<close> accepts equal neighbouring counts, and such a tower does not stay verified: two saved
  votes with one confirmation each pass, and the next push lifts only the newer one above the
  older. This is why restored votes are required to have strictly decreasing counts.
\<close>

lemma verified_tower_breaks:
  defines "t \<equiv> from_saved [new_vote 5, new_vote 6] None"
  shows "tower_verify t = Inr () \<and>
     (\<exists>t'. push_vote t 7 = Some (t', None) \<and> tower_verify t' = Inl (ConfirmationsNotOrdered 6 2))"
  by (simp add: t_def from_saved_def new_vote_def push_vote_def last_vote_slot_def simulate_vote_def
      expiration_slot_def lockout_def sat_add64_def u64_max_def increment_confirmation_def
      tower_verify_def tower_consts)

subsection \<open>Lockouts within the invariant\<close>

lemma lockout_exact:
  assumes "confirmation_count v \<le> MAX_LOCKOUT_HISTORY"
  shows "lockout v = 2 ^ confirmation_count v"
proof -
  have "(2 :: nat) ^ confirmation_count v \<le> 2 ^ 31"
    using assms by (intro power_increasing) (auto simp: tower_consts)
  then show ?thesis by (simp add: lockout_def tower_consts u64_max_def)
qed

lemma sum_pow2_ordered:
  assumes "sorted_wrt (<) (ns :: nat list)" and "\<forall>n \<in> set ns. n \<le> m"
  shows "sum_list (map (\<lambda>n. 2 ^ n) ns) < (2 :: nat) ^ Suc m"
proof -
  have d: "distinct ns" using assms(1) strict_sorted_iff by blast
  have "sum_list (map (\<lambda>n. 2 ^ n) ns) = (\<Sum>n \<in> set ns. (2 :: nat) ^ n)"
    by (rule sum_list_distinct_sum [OF d])
  also have "\<dots> \<le> (\<Sum>n \<in> {..<Suc m}. 2 ^ n)"
    using assms(2) by (intro sum_mono2) (auto simp: less_Suc_eq_le)
  also have "\<dots> < 2 ^ Suc m" using sum_power2 [of "Suc m"] by (simp add: lessThan_atLeast0)
  finally show ?thesis .
qed

lemma fold_add64_exact:
  "acc + sum_list (map f xs) < 2 ^ 64 \<Longrightarrow> fold (\<lambda>x a. add64 a (f x)) xs acc = acc + sum_list (map f xs)"
  by (induction xs arbitrary: acc) (auto simp: add64_def)


subsection \<open>A run of consecutive slots\<close>

fun push_votes :: "Tower \<Rightarrow> slot list \<Rightarrow> Tower option" where
  "push_votes t [] = Some t"
| "push_votes t (s # ss) = (case push_vote t s of None \<Rightarrow> None | Some (t', _) \<Rightarrow> push_votes t' ss)"

definition run_votes :: "slot \<Rightarrow> nat \<Rightarrow> TowerVote list" where
  "run_votes tip k = rev (map (\<lambda>i. \<lparr>tv_slot = tip - i, confirmation_count = i + 1\<rparr>) [0..<k])"

lemma push_votes_append:
  "push_votes t (xs @ ys) = (case push_votes t xs of None \<Rightarrow> None | Some t' \<Rightarrow> push_votes t' ys)"
  by (induction t xs rule: push_votes.induct) (auto split: option.splits)

lemma length_run_votes [simp]: "length (run_votes tip k) = k"
  by (simp add: run_votes_def)

lemma last_run_votes: "0 < k \<Longrightarrow> last (run_votes tip k) = new_vote tip"
  by (simp add: run_votes_def last_rev hd_map new_vote_def)

lemma hd_run_votes: "0 < k \<Longrightarrow> tv_slot (hd (run_votes tip k)) = tip - (k - 1)"
  by (cases k) (simp_all add: run_votes_def)

lemma tl_run_votes: "tl (run_votes tip k) = run_votes tip (k - 1)"
  by (cases k) (simp_all add: run_votes_def)

lemma confirm_loop_run:
  "k \<le> MAX_LOCKOUT_HISTORY \<Longrightarrow>
   confirm_loop j (map (\<lambda>i. \<lparr>tv_slot = f i, confirmation_count = i + 1\<rparr>) [j..<k]) =
     map (\<lambda>i. \<lparr>tv_slot = f i, confirmation_count = i + 2\<rparr>) [j..<k]"
proof (induction "k - j" arbitrary: j)
  case 0
  then show ?case by simp
next
  case (Suc d)
  then have j: "j < k" by simp
  have "d = k - Suc j" using Suc.hyps(2) by simp
  from Suc.hyps(1) [OF this Suc.prems] show ?case
    using j Suc.prems by (simp add: upt_conv_Cons increment_confirmation_def tower_consts)
qed

lemma push_run_votes:
  assumes "k < MAX_LOCKOUT_HISTORY"
  shows "rev (confirm_loop 0 (rev (run_votes tip k))) @ [new_vote (Suc tip)] = run_votes (Suc tip) (Suc k)"
proof -
  have "map (\<lambda>i. \<lparr>tv_slot = Suc tip - i, confirmation_count = i + 1\<rparr>) [0..<Suc k] =
      new_vote (Suc tip) # map (\<lambda>i. \<lparr>tv_slot = tip - i, confirmation_count = i + 2\<rparr>) [0..<k]"
    unfolding upt_conv_Cons [OF zero_less_Suc] map_Suc_upt [symmetric]
    by (simp add: new_vote_def)
  then show ?thesis
    using confirm_loop_run [of k 0 "\<lambda>i. tip - i"] assms by (simp add: run_votes_def)
qed

lemma simulate_vote_fresh:
  assumes "votes t \<noteq> []" and "s < expiration_slot (last (votes t))"
  shows "simulate_vote t s = length (votes t)"
  using assms by (cases "length (votes t)") (auto simp: simulate_vote_def last_conv_nth)

lemma push_vote_run:
  assumes "0 < k" "k \<le> MAX_LOCKOUT_HISTORY" "Suc tip < u64_max"
    and t: "t = \<lparr>votes = run_votes tip k, tower_root = r, max_size = MAX_LOCKOUT_HISTORY\<rparr>"
  shows "push_vote t (Suc tip) =
     (if k = MAX_LOCKOUT_HISTORY
      then Some (t\<lparr>votes := run_votes (Suc tip) k, tower_root := Some (tip - (k - 1))\<rparr>, Some (tip - (k - 1)))
      else Some (t\<lparr>votes := run_votes (Suc tip) (Suc k)\<rparr>, None))"
proof -
  have ne: "run_votes tip k \<noteq> []" using assms(1) by (metis length_run_votes list.size(3) less_irrefl)
  have "expiration_slot (new_vote tip) = min (tip + 2) u64_max"
    by (simp add: expiration_slot_def lockout_def new_vote_def sat_add64_def tower_consts u64_max_def)
  then have "simulate_vote t (Suc tip) = length (votes t)"
    using assms ne by (intro simulate_vote_fresh) (auto simp: last_run_votes)
  then have all: "take (simulate_vote t (Suc tip)) (votes t) = run_votes tip k" by (simp add: t)
  have last: "last_vote_slot t = Some tip"
    using ne assms(1) by (simp add: last_vote_slot_def t last_run_votes new_vote_def)
  show ?thesis
  proof (cases "k = MAX_LOCKOUT_HISTORY")
    case True
    obtain b rest where b: "run_votes tip k = b # rest" using ne by (cases "run_votes tip k") auto
    have "rest = run_votes tip (k - 1)" "tv_slot b = tip - (k - 1)"
      using tl_run_votes [of tip k] hd_run_votes [of k tip] b assms(1) by auto
    then show ?thesis
      using True assms push_run_votes [of "k - 1" tip]
      unfolding push_vote_def Let_def all last b by (simp add: t)
  next
    case False
    then show ?thesis
      using assms push_run_votes [of k tip]
      unfolding push_vote_def Let_def all last by (simp add: t)
  qed
qed

text \<open>
  Voting on consecutive slots confirms every vote each time: after voting on
  \<open>s, \<dots>, s + n\<close> from an empty tower, the tower holds the last 31 of them with
  confirmation counts 31, \<dots>, 1 from oldest to newest, and the root is the slot 32 votes
  back as soon as there is one.
\<close>

lemma push_votes_run:
  assumes "s + Suc n \<le> u64_max"
  shows "push_votes tower_new [s..<s + Suc n] =
     Some \<lparr>votes = run_votes (s + n) (min (Suc n) MAX_LOCKOUT_HISTORY),
           tower_root = (if Suc n > MAX_LOCKOUT_HISTORY then Some (s + Suc n - 32) else None),
           max_size = MAX_LOCKOUT_HISTORY\<rparr>"
  using assms
proof (induction n)
  case 0
  then show ?case
    by (simp add: tower_new_def push_vote_def last_vote_slot_def simulate_vote_def run_votes_def
        new_vote_def tower_consts)
next
  case (Suc n)
  have app: "[s..<s + Suc (Suc n)] = [s..<s + Suc n] @ [Suc (s + n)]" by simp
  let ?k = "min (Suc n) MAX_LOCKOUT_HISTORY"
  have "0 < ?k" "?k \<le> MAX_LOCKOUT_HISTORY" "Suc (s + n) < u64_max"
    using Suc.prems by (auto simp: tower_consts)
  note step = push_vote_run [OF this refl]
  have IH: "push_votes tower_new [s..<s + Suc n] =
     Some \<lparr>votes = run_votes (s + n) ?k,
           tower_root = (if Suc n > MAX_LOCKOUT_HISTORY then Some (s + Suc n - 32) else None),
           max_size = MAX_LOCKOUT_HISTORY\<rparr>"
    using Suc by simp
  show ?case
    unfolding app push_votes_append IH option.case push_votes.simps step
    by (auto simp: tower_consts min_def)
qed


subsection \<open>Choosing a slot to vote on\<close>

definition eligible :: "Tower \<Rightarrow> (slot \<Rightarrow> slot \<Rightarrow> bool) \<Rightarrow> slot \<Rightarrow> bool" where
  "eligible t sf s \<longleftrightarrow> (\<forall>l. last_vote_slot t = Some l \<longrightarrow> l < s) \<and> \<not> is_locked_out t s sf"

definition better :: "slot \<times> stake \<Rightarrow> slot \<times> stake \<Rightarrow> bool" where
  "better a b \<longleftrightarrow> snd a > snd b \<or> snd a = snd b \<and> fst a \<le> fst b"

lemma better_trans: "better x y \<Longrightarrow> better y z \<Longrightarrow> better x z"
  by (auto simp: better_def)

definition pick :: "slot \<times> stake \<Rightarrow> (slot \<times> stake) option \<Rightarrow> slot \<times> stake" where
  "pick c best = (case best of None \<Rightarrow> c
     | Some b \<Rightarrow> if snd c > snd b \<or> (snd c = snd b \<and> fst c < fst b) then c else b)"

lemma select_loop_Cons:
  "select_loop t sf (c # cs) best =
     (if eligible t sf (fst c) then select_loop t sf cs (Some (pick c best)) else select_loop t sf cs best)"
  by (cases c; cases best) (auto simp: eligible_def pick_def not_less split: option.splits)

lemma pick_props: "pick c best = c \<or> best = Some (pick c best)" "better (pick c best) c"
  "best = Some b \<Longrightarrow> better (pick c best) b"
  by (auto simp: pick_def better_def split: option.splits)

lemma select_loop_spec:
  "case select_loop t sf cs best of
     None \<Rightarrow> best = None \<and> (\<forall>c \<in> set cs. \<not> eligible t sf (fst c))
   | Some a \<Rightarrow> (a \<in> set cs \<and> eligible t sf (fst a) \<or> best = Some a) \<and>
       (\<forall>c \<in> set cs. eligible t sf (fst c) \<longrightarrow> better a c) \<and> (\<forall>b. best = Some b \<longrightarrow> better a b)"
proof (induction cs arbitrary: best)
  case Nil
  then show ?case by (auto simp: better_def split: option.splits)
next
  case (Cons c cs)
  show ?case
  proof (cases "eligible t sf (fst c)")
    case False
    then show ?thesis using Cons [of best] by (auto simp: select_loop_Cons split: option.splits)
  next
    case True
    have eq: "select_loop t sf (c # cs) best = select_loop t sf cs (Some (pick c best))"
      using True by (simp add: select_loop_Cons)
    from Cons [of "Some (pick c best)"] obtain a where a: "select_loop t sf cs (Some (pick c best)) = Some a"
      and mem: "a \<in> set cs \<and> eligible t sf (fst a) \<or> pick c best = a"
      and all: "\<forall>c \<in> set cs. eligible t sf (fst c) \<longrightarrow> better a c" "better a (pick c best)"
      by (auto split: option.splits)
    have "better a c" "\<And>b. best = Some b \<Longrightarrow> better a b"
      using all(2) pick_props(2,3) better_trans by blast+
    moreover have "a \<in> set (c # cs) \<and> eligible t sf (fst a) \<or> best = Some a"
      using mem pick_props(1) [of c best] True by auto
    ultimately show ?thesis using a all(1) unfolding eq by simp
  qed
qed


subsection \<open>Properties\<close>



text \<open>
  C20. The whole result of \<open>push_vote\<close> on a well-formed tower. A slot not newer than the last
  vote changes nothing. Otherwise exactly the expired votes on top of the stack are popped; if
  31 votes are left the oldest of them leaves the tower and becomes the root, which thereby
  strictly advances, and else the root stays. Of the votes that stay, the one at depth \<open>d\<close>
  from the top gains a confirmation exactly when it has \<open>d\<close> of them, no other field of any vote
  changes, and the new vote with one confirmation is put on top.
\<close>

theorem push_vote_effect:
  fixes t :: Tower and s :: slot
  assumes "tower_inv t"
  defines "kept \<equiv> rev (dropWhile (\<lambda>v. expiration_slot v \<le> s) (rev (votes t)))"
  defines "full \<equiv> length kept = MAX_LOCKOUT_HISTORY"
  defines "rest \<equiv> (if full then tl kept else kept)"
  shows "if \<exists>l. last_vote_slot t = Some l \<and> s \<le> l then push_vote t s = Some (t, None)
     else push_vote t s = Some
       (t\<lparr>votes := map (\<lambda>i. confirm_at (length rest - i) (rest ! i)) [0..<length rest] @ [new_vote s],
          tower_root := (if full then Some (tv_slot (hd kept)) else tower_root t)\<rparr>,
        if full then Some (tv_slot (hd kept)) else None) \<and>
       (full \<longrightarrow> (\<forall>r0. tower_root t = Some r0 \<longrightarrow> r0 < tv_slot (hd kept)))"
proof -
  have core: "tower_core t" and above: "above_root t" using assms(1) by (auto simp: tower_inv_def)
  have kept: "kept = take (simulate_vote t s) (votes t)"
    using simulate_loop_spec [of "length (votes t)" "votes t" s] by (simp add: kept_def simulate_vote_def)
  have ord: "votes_ordered kept" using core by (simp add: kept tower_core_def votes_ordered_take)
  then have "votes_ordered rest" by (cases kept) (auto simp: rest_def votes_ordered_def)
  note conf = confirm_loop_map [OF this]
  have adv: "r0 < tv_slot (hd kept)" if "tower_root t = Some r0" full for r0
  proof -
    have "kept \<noteq> []" using that(2) by (auto simp: full_def tower_consts)
    then have "hd kept \<in> set (votes t)" by (metis hd_in_set in_set_takeD kept)
    then show ?thesis using above that(1) by (simp add: above_root_def)
  qed
  show ?thesis
  proof (cases "\<exists>l. last_vote_slot t = Some l \<and> s \<le> l")
    case True
    then show ?thesis by (auto simp: push_vote_stale)
  next
    case False
    then have "\<And>l. last_vote_slot t = Some l \<Longrightarrow> l < s" by (auto simp: not_le)
    from push_vote_newer [OF core this] adv conf False show ?thesis
      unfolding kept [symmetric] full_def [symmetric] by (cases full) (auto simp: rest_def)
  qed
qed

theorem push_vote_effect_witness:
  "push_vote \<lparr>votes = [\<lparr>tv_slot = 2, confirmation_count = 3\<rparr>, \<lparr>tv_slot = 5, confirmation_count = 2\<rparr>,
       \<lparr>tv_slot = 7, confirmation_count = 1\<rparr>], tower_root = None, max_size = 31\<rparr> 8 =
     Some (\<lparr>votes = [\<lparr>tv_slot = 2, confirmation_count = 4\<rparr>, \<lparr>tv_slot = 5, confirmation_count = 3\<rparr>,
       \<lparr>tv_slot = 7, confirmation_count = 2\<rparr>, \<lparr>tv_slot = 8, confirmation_count = 1\<rparr>],
       tower_root = None, max_size = 31\<rparr>, None)"
proof -
  let ?t = "\<lparr>votes = [\<lparr>tv_slot = 2, confirmation_count = 3\<rparr>, \<lparr>tv_slot = 5, confirmation_count = 2\<rparr>,
       \<lparr>tv_slot = 7, confirmation_count = 1\<rparr>], tower_root = None, max_size = 31\<rparr> :: Tower"
  have "tower_inv ?t" by (simp add: tower_inv_defs votes_ordered_def tower_consts)
  from push_vote_effect [OF this, of 8] show ?thesis
    by (simp add: last_vote_slot_def expiration_slot_def lockout_def sat_add64_def u64_max_def
        tower_consts confirm_at_def new_vote_def upt_rec)
qed

text \<open>
  C21. Outcomes of \<open>record_vote\<close> in a well-formed tower. It fails, leaving the caller's
  tower alone, exactly when the slot is at or below the root or some vote that is still
  locked at the slot is on another fork. A slot that is not newer than the last vote is
  accepted without being recorded (the \<open>VoteNotNewer\<close> error is never produced); otherwise
  the slot is the tower's new last vote.
\<close>

theorem record_vote_outcomes:
  assumes "tower_inv t"
  shows "(record_vote t s sf = Some (Inl e) \<longleftrightarrow>
            e = LockoutViolation s \<and>
            ((\<exists>r. tower_root t = Some r \<and> s \<le> r) \<or>
             (\<exists>v \<in> set (votes t). s < expiration_slot v \<and> \<not> sf (tv_slot v) s))) \<and>
         (record_vote t s sf = Some (Inr (t', new_root)) \<longrightarrow>
            (if \<exists>l. last_vote_slot t = Some l \<and> s \<le> l then t' = t \<and> new_root = None
             else last_vote_slot t' = Some s))"
proof
  have lo: "is_locked_out t s sf \<longleftrightarrow> (\<exists>r. tower_root t = Some r \<and> s \<le> r) \<or>
      (\<exists>v \<in> set (votes t). s < expiration_slot v \<and> \<not> sf (tv_slot v) s)"
    by (auto simp: is_locked_out_def list_ex_iff is_locked_out_at_def split: option.splits)
  show "record_vote t s sf = Some (Inl e) \<longleftrightarrow> e = LockoutViolation s \<and>
            ((\<exists>r. tower_root t = Some r \<and> s \<le> r) \<or>
             (\<exists>v \<in> set (votes t). s < expiration_slot v \<and> \<not> sf (tv_slot v) s))"
    unfolding lo [symmetric] by (auto simp: record_vote_def)
  show "record_vote t s sf = Some (Inr (t', new_root)) \<longrightarrow>
            (if \<exists>l. last_vote_slot t = Some l \<and> s \<le> l then t' = t \<and> new_root = None
             else last_vote_slot t' = Some s)"
  proof
    assume rv: "record_vote t s sf = Some (Inr (t', new_root))"
    show "if \<exists>l. last_vote_slot t = Some l \<and> s \<le> l then t' = t \<and> new_root = None
             else last_vote_slot t' = Some s"
    proof (cases "\<exists>l. last_vote_slot t = Some l \<and> s \<le> l")
      case True
      then show ?thesis using record_vote_cases(1) [OF rv] by (auto simp: push_vote_stale)
    next
      case False
      then have "\<And>l. last_vote_slot t = Some l \<Longrightarrow> l < s" by (auto simp: not_le)
      from push_vote_newer [OF _ this] assms show ?thesis
        using False record_vote_cases(1) [OF rv]
        by (auto simp: tower_inv_def last_vote_slot_def new_vote_def split: if_splits)
    qed
  qed
qed

theorem record_vote_outcomes_witness:
  "record_vote \<lparr>votes = [new_vote 7], tower_root = None, max_size = 31\<rparr> 8 (\<lambda>a b. False) =
     Some (Inl (LockoutViolation 8)) \<and>
   record_vote \<lparr>votes = [new_vote 7], tower_root = None, max_size = 31\<rparr> 7 (\<lambda>a b. True) =
     Some (Inr (\<lparr>votes = [new_vote 7], tower_root = None, max_size = 31\<rparr>, None))"
proof
  let ?t = "\<lparr>votes = [new_vote 7], tower_root = None, max_size = 31\<rparr> :: Tower"
  have inv: "tower_inv ?t" by (simp add: tower_inv_defs votes_ordered_def new_vote_def tower_consts)
  have exp: "expiration_slot \<lparr>tv_slot = 7, confirmation_count = Suc 0\<rparr> = 9"
    by (simp add: expiration_slot_def lockout_def sat_add64_def u64_max_def tower_consts)
  show "record_vote ?t 8 (\<lambda>a b. False) = Some (Inl (LockoutViolation 8))"
    using record_vote_outcomes [OF inv, of 8 "\<lambda>a b. False" "LockoutViolation 8"]
    by (simp add: new_vote_def exp)
  obtain t' r where "record_vote ?t 7 (\<lambda>a b. True) = Some (Inr (t', r))"
    by (auto simp: record_vote_def is_locked_out_def push_vote_def last_vote_slot_def new_vote_def)
  with record_vote_outcomes [OF inv, of 7 "\<lambda>a b. True" _ t' r]
  show "record_vote ?t 7 (\<lambda>a b. True) = Some (Inr (?t, None))"
    by (simp add: last_vote_slot_def new_vote_def)
qed

text \<open>
  \<open>select_vote_slot\<close> returns nothing exactly when no candidate is newer than the last
  vote and free of lockouts; otherwise it returns such a candidate of maximal fork weight,
  the lowest slot among equals.
\<close>

lemma select_vote_slot_best:
  "case select_vote_slot t cs sf of
     None \<Rightarrow> (\<forall>c \<in> set cs. \<not> eligible t sf (fst c))
   | Some s \<Rightarrow> (\<exists>w. (s, w) \<in> set cs \<and> eligible t sf s \<and>
       (\<forall>(s', w') \<in> set cs. eligible t sf s' \<longrightarrow> w' < w \<or> w' = w \<and> s \<le> s'))"
  using select_loop_spec [where t = t and sf = sf and cs = cs and best = None]
  by (fastforce simp: select_vote_slot_def better_def split: option.splits)

text \<open>
  Lockout arithmetic never saturates or wraps in a well-formed tower: every lockout is
  exactly two to the confirmation count, at most \<open>2 ^ 31\<close>, and the total lockout distance is
  their exact sum, below \<open>2 ^ 32\<close>.
\<close>

lemma tower_lockouts_exact:
  assumes "tower_inv t"
  shows "(\<forall>v \<in> set (votes t). lockout v = 2 ^ confirmation_count v \<and> lockout v \<le> 2 ^ 31) \<and>
         total_lockout_distance t = sum_list (map (\<lambda>v. 2 ^ confirmation_count v) (votes t)) \<and>
         total_lockout_distance t < 2 ^ 32"
proof -
  have conf: "\<forall>v \<in> set (votes t). confirmation_count v \<le> MAX_LOCKOUT_HISTORY"
    using assms by (auto simp: tower_inv_defs votes_ordered_def)
  then have ex: "\<forall>v \<in> set (votes t). lockout v = 2 ^ confirmation_count v" by (auto intro: lockout_exact)
  have le: "\<forall>v \<in> set (votes t). (2 :: nat) ^ confirmation_count v \<le> 2 ^ 31"
  proof
    fix v assume "v \<in> set (votes t)"
    then have "confirmation_count v \<le> 31" using conf by (simp add: tower_consts)
    then show "(2 :: nat) ^ confirmation_count v \<le> 2 ^ 31" by (rule power_increasing) simp
  qed
  have "sorted_wrt (<) (map confirmation_count (rev (votes t)))"
    using assms by (auto simp: tower_inv_defs votes_ordered_rev)
  from sum_pow2_ordered [OF this, of 31] conf
  have "sum_list (map (\<lambda>n. 2 ^ n) (map confirmation_count (rev (votes t)))) < (2 :: nat) ^ 32"
    by (simp add: tower_consts)
  then have lt: "sum_list (map (\<lambda>v. 2 ^ confirmation_count v) (votes t)) < (2 :: nat) ^ 32"
    by (simp add: rev_map [symmetric] sum_list_rev comp_def del: power_numeral_even)
  have sum: "sum_list (map lockout (votes t)) = sum_list (map (\<lambda>v. 2 ^ confirmation_count v) (votes t))"
    using ex by (intro arg_cong [where f = sum_list] map_cong) auto
  have "total_lockout_distance t = sum_list (map lockout (votes t))"
    using fold_add64_exact [of 0 lockout "votes t"] lt sum by (simp add: total_lockout_distance_def)
  then show ?thesis using ex le lt sum by auto
qed

text \<open>
  C22. What the floating-point threshold checks say about the exact stakes. A passed
  two-thirds check means two thirds of the total up to one part in \<open>2 ^ 51\<close>, and for totals
  below \<open>2 ^ 50\<close> it is exactly \<open>3 * stake \<ge> 2 * total\<close>; the switch check is likewise 38 per
  cent of the total.
\<close>

theorem tower_threshold_meaning:
  fixes f :: "slot \<Rightarrow> stake"
  assumes "0 < tot" and "votes t \<noteq> []" and "0 < depth"
  defines "st \<equiv> f (tv_slot (votes t ! (length (votes t) - min depth (length (votes t)))))"
  shows "(check_threshold t depth f tot \<longrightarrow> 2 * tot \<le> 3 * st + 2 * tot div 2 ^ 51) \<and>
         (2 * tot < 2 ^ 51 \<and> st < 2 ^ 53 \<longrightarrow> (check_threshold t depth f tot \<longleftrightarrow> 2 * tot \<le> 3 * st)) \<and>
         (check_switch_threshold t tot other \<longrightarrow> 38 * tot \<le> 100 * other + 38 * tot div 2 ^ 51) \<and>
         (38 * tot < 2 ^ 51 \<and> other < 2 ^ 53 \<longrightarrow>
            (check_switch_threshold t tot other \<longleftrightarrow> 38 * tot \<le> 100 * other))"
proof -
  have ct: "check_threshold t depth f tot = f64_ge (f64_ratio st tot) (f64_ratio 2 3)"
  proof -
    have "min depth (length (votes t)) \<noteq> 0"
      "\<not> length (votes t) \<le> length (votes t) - min depth (length (votes t))"
      using assms(2,3) by (auto simp: min_def not_le)
    then show ?thesis
      using assms(1) unfolding check_threshold_def Let_def VOTE_THRESHOLD_SIZE_def st_def
      by (simp only: if_False less_numeral_extra simp_thms) simp
  qed
  have "SWITCH_FORK_THRESHOLD = f64_ratio 38 100"
    using round53_of_nat [of 38] round53_of_nat [of 100]
    by (simp add: SWITCH_FORK_THRESHOLD_def f64_lit_def f64_ratio_pos)
  then have cs: "check_switch_threshold t tot other = f64_ge (f64_ratio other tot) (f64_ratio 38 100)"
    using assms by (simp add: check_switch_threshold_def)
  show ?thesis unfolding ct cs
    using f64_ratio_ge_sound [of tot 3 st 2] f64_ratio_ge_exact [of tot 3 2 st]
      f64_ratio_ge_sound [of tot 100 other 38] f64_ratio_ge_exact [of tot 100 38 other] assms(1)
    by auto
qed

theorem tower_threshold_meaning_witness:
  "check_threshold \<lparr>votes = [new_vote 4], tower_root = None, max_size = 31\<rparr> 8 (\<lambda>s. 67) 100 \<and>
   \<not> check_threshold \<lparr>votes = [new_vote 4], tower_root = None, max_size = 31\<rparr> 8 (\<lambda>s. 66) 100 \<and>
   check_switch_threshold \<lparr>votes = [new_vote 4], tower_root = None, max_size = 31\<rparr> 100 38"
  using tower_threshold_meaning [of 100 "\<lparr>votes = [new_vote 4], tower_root = None, max_size = 31\<rparr>" 8 "\<lambda>s. 67" 38]
    tower_threshold_meaning [of 100 "\<lparr>votes = [new_vote 4], tower_root = None, max_size = 31\<rparr>" 8 "\<lambda>s. 66" 38]
  by simp

end
