(* ===== verification/Fork_Choice.thy ===== *)
theory Fork_Choice
  imports Tower
begin

section \<open>LMD-GHOST fork choice (\<open>karstflow-consensus/src/fork_choice.rs\<close>)\<close>

text \<open>
  The fork choice keeps a map from slots to fork records (parent, accumulated stake,
  confirmation and equivocation flags) and each validator's latest vote. Loops that follow
  parent links, or descend to children, do not terminate on a cyclic map; they are
  \<open>partial_function (option)\<close>, with \<open>None\<close> for a loop that never returns, and are proved to
  return on well-formed maps (every parent has a lower slot). The hash maps are association
  lists whose order stands for the unspecified iteration order.

  The operations that take a \<open>BankForks\<close> (\<open>select_fork\<close>, \<open>should_switch_fork\<close>,
  \<open>update_root\<close>) are not part of this theory.
\<close>

subsection \<open>Definitions\<close>

type_synonym Pubkey = "u8 list"

record ForkInfo =
  fi_slot :: slot
  parent :: "slot option"
  stake_weight :: stake
  confirmed :: bool
  optimistically_confirmed :: bool
  eqvoc :: bool
  duplicate_confirmed :: bool
  valid :: bool

definition fork_info_new :: "slot \<Rightarrow> slot option \<Rightarrow> ForkInfo" where
  "fork_info_new s p =
     \<lparr>fi_slot = s, parent = p, stake_weight = 0, confirmed = False,
      optimistically_confirmed = False, eqvoc = False, duplicate_confirmed = False, valid = True\<rparr>"

type_synonym forks_map = "(slot, ForkInfo) hmap"

record ForkChoice =
  forks :: forks_map
  total_stake :: stake
  best_slot :: "slot option"
  validator_latest_votes :: "(Pubkey, slot \<times> stake) hmap"

definition fork_choice_new :: "stake \<Rightarrow> ForkChoice" where
  "fork_choice_new ts = \<lparr>forks = [], total_stake = ts, best_slot = None, validator_latest_votes = []\<rparr>"

definition add_fork :: "ForkChoice \<Rightarrow> slot \<Rightarrow> slot option \<Rightarrow> ForkChoice" where
  "add_fork fc s p = fc\<lparr>forks := hm_insert s (fork_info_new s p) (forks fc)\<rparr>"

text \<open>The ancestry loop of \<open>check_optimistic_confirmation\<close>, bounded by the depth counter.\<close>

function optimistic_loop :: "forks_map \<Rightarrow> stake \<Rightarrow> slot option \<Rightarrow> nat \<Rightarrow> bool" where
  "optimistic_loop fs ts current depth =
     (case current of
        None \<Rightarrow> False
      | Some s \<Rightarrow>
          (case hm_get fs s of
             None \<Rightarrow> False
           | Some f \<Rightarrow>
               if f64_lt (f64_ratio (stake_weight f) ts) VOTE_THRESHOLD_SIZE then False
               else if depth + 1 \<ge> VOTE_THRESHOLD_DEPTH then True
               else optimistic_loop fs ts (parent f) (depth + 1)))"
  by pat_completeness auto
termination
  by (relation "measure (\<lambda>(fs, ts, current, depth). VOTE_THRESHOLD_DEPTH - depth)") auto

declare optimistic_loop.simps [simp del]

definition check_optimistic_confirmation :: "ForkChoice \<Rightarrow> slot \<Rightarrow> bool" where
  "check_optimistic_confirmation fc s = optimistic_loop (forks fc) (total_stake fc) (Some s) 0"

definition update_confirmation :: "ForkChoice \<Rightarrow> slot \<Rightarrow> ForkChoice" where
  "update_confirmation fc s =
     (let is_optimistic = check_optimistic_confirmation fc s in
      case hm_get (forks fc) s of
        None \<Rightarrow> fc
      | Some f \<Rightarrow>
          let f1 = (if f64_ge (f64_ratio (stake_weight f) (total_stake fc)) VOTE_THRESHOLD_SIZE
                    then f\<lparr>confirmed := True\<rparr> else f);
              f2 = (if is_optimistic then f1\<lparr>optimistically_confirmed := True\<rparr> else f1)
          in fc\<lparr>forks := hm_insert s f2 (forks fc)\<rparr>)"

definition add_stake :: "ForkChoice \<Rightarrow> slot \<Rightarrow> stake \<Rightarrow> ForkChoice" where
  "add_stake fc s st =
     (case hm_get (forks fc) s of
        None \<Rightarrow> fc
      | Some f \<Rightarrow>
          update_confirmation
            (fc\<lparr>forks := hm_insert s (f\<lparr>stake_weight := sat_add64 (stake_weight f) st\<rparr>) (forks fc)\<rparr>) s)"

definition parent_of :: "forks_map \<Rightarrow> slot \<Rightarrow> slot option" where
  "parent_of fs s = Option.bind (hm_get fs s) parent"

partial_function (option) descendant_loop :: "forks_map \<Rightarrow> slot \<Rightarrow> slot option \<Rightarrow> bool option" where
  "descendant_loop fs ancestor current =
     (case current of
        None \<Rightarrow> Some False
      | Some s \<Rightarrow> if s = ancestor then Some True else descendant_loop fs ancestor (parent_of fs s))"

declare descendant_loop.simps [code]

definition is_descendant :: "ForkChoice \<Rightarrow> slot \<Rightarrow> slot \<Rightarrow> bool option" where
  "is_descendant fc s ancestor =
     (if s = ancestor then Some True else descendant_loop (forks fc) ancestor (Some s))"

definition is_ancestor :: "ForkChoice \<Rightarrow> slot \<Rightarrow> slot \<Rightarrow> bool option" where
  "is_ancestor fc s descendant = is_descendant fc descendant s"

fun heaviest_loop :: "ForkChoice \<Rightarrow> slot \<Rightarrow> forks_map \<Rightarrow> slot \<times> stake \<Rightarrow> (slot \<times> stake) option" where
  "heaviest_loop fc from_slot [] best = Some best"
| "heaviest_loop fc from_slot ((s, f) # fs) best =
     (if s \<le> from_slot then heaviest_loop fc from_slot fs best
      else do {
        d \<leftarrow> is_descendant fc s from_slot;
        heaviest_loop fc from_slot fs (if d \<and> stake_weight f > snd best then (s, stake_weight f) else best)
      })"

definition get_heaviest_fork :: "ForkChoice \<Rightarrow> slot \<Rightarrow> slot option option" where
  "get_heaviest_fork fc from_slot =
     (case hm_get (forks fc) from_slot of
        None \<Rightarrow> Some None
      | Some f \<Rightarrow> map_option (\<lambda>b. Some (fst b))
                   (heaviest_loop fc from_slot (forks fc) (from_slot, stake_weight f)))"

text \<open>\<open>map(|f| f.stake_weight).unwrap_or(0)\<close>.\<close>

definition weight_of :: "forks_map \<Rightarrow> slot \<Rightarrow> stake" where
  "weight_of fs s = (case hm_get fs s of None \<Rightarrow> 0 | Some f \<Rightarrow> stake_weight f)"

definition can_switch_fork :: "ForkChoice \<Rightarrow> slot \<Rightarrow> slot \<Rightarrow> bool" where
  "can_switch_fork fc current candidate =
     (let current_weight = weight_of (forks fc) current;
          candidate_weight = weight_of (forks fc) candidate in
      if current_weight = 0 then True
      else f64_ge (f64_ratio candidate_weight current_weight) (f64_add (f64_lit 1) SWITCH_FORK_THRESHOLD))"

definition valid_children :: "forks_map \<Rightarrow> slot \<Rightarrow> slot list" where
  "valid_children fs current = map fst (filter (\<lambda>(s, f). parent f = Some current \<and> valid f) fs)"

text \<open>
  \<open>compute_best_fork\<close> picks a child with \<open>Iterator::max_by\<close>, which keeps the later of two
  elements unless the earlier compares greater; the comparison is by weight, then by lower
  slot. \<open>select_heaviest_fork\<close> scans with an explicit best child.
\<close>

definition cmp_greater :: "forks_map \<Rightarrow> slot \<Rightarrow> slot \<Rightarrow> bool" where
  "cmp_greater fs a b \<longleftrightarrow> weight_of fs a > weight_of fs b \<or> weight_of fs a = weight_of fs b \<and> a < b"

fun max_by_child :: "forks_map \<Rightarrow> slot list \<Rightarrow> slot option" where
  "max_by_child fs [] = None"
| "max_by_child fs (c # cs) = Some (foldl (\<lambda>best c. if cmp_greater fs best c then best else c) c cs)"

partial_function (option) best_fork_loop :: "forks_map \<Rightarrow> slot \<Rightarrow> slot option" where
  "best_fork_loop fs current =
     (case max_by_child fs (valid_children fs current) of
        None \<Rightarrow> Some current
      | Some best_child \<Rightarrow> best_fork_loop fs best_child)"

declare best_fork_loop.simps [code]

definition compute_best_fork :: "ForkChoice \<Rightarrow> slot \<Rightarrow> (ForkChoice \<times> slot option) option" where
  "compute_best_fork fc rt =
     do { current \<leftarrow> best_fork_loop (forks fc) rt; Some (fc\<lparr>best_slot := Some current\<rparr>, Some current) }"

fun scan_children :: "forks_map \<Rightarrow> slot list \<Rightarrow> slot \<times> stake \<Rightarrow> slot \<times> stake" where
  "scan_children fs [] best = best"
| "scan_children fs (child # cs) (best_child, best_weight) =
     (let weight = weight_of fs child in
      if weight > best_weight \<or> (weight = best_weight \<and> child < best_child)
      then scan_children fs cs (child, weight)
      else scan_children fs cs (best_child, best_weight))"

partial_function (option) heaviest_fork_loop :: "forks_map \<Rightarrow> slot \<Rightarrow> slot option" where
  "heaviest_fork_loop fs current =
     (case valid_children fs current of
        [] \<Rightarrow> Some current
      | c # cs \<Rightarrow> heaviest_fork_loop fs (fst (scan_children fs cs (c, weight_of fs c))))"

declare heaviest_fork_loop.simps [code]

definition select_heaviest_fork :: "ForkChoice \<Rightarrow> slot \<Rightarrow> (ForkChoice \<times> slot option) option" where
  "select_heaviest_fork fc rt =
     (if hm_get (forks fc) rt = None then Some (fc, None)
      else do {
        current \<leftarrow> heaviest_fork_loop (forks fc) rt;
        Some (fc\<lparr>best_slot := Some current\<rparr>, Some current)
      })"

definition update_total_stake :: "ForkChoice \<Rightarrow> stake \<Rightarrow> ForkChoice" where
  "update_total_stake fc new_total =
     fold (\<lambda>s fc. update_confirmation fc s) (map fst (forks fc)) (fc\<lparr>total_stake := new_total\<rparr>)"

definition fc_set_root :: "ForkChoice \<Rightarrow> slot \<Rightarrow> ForkChoice" where
  "fc_set_root fc new_root = fc\<lparr>forks := hm_retain (\<lambda>s _. s \<ge> new_root) (forks fc)\<rparr>"

definition get_fork_tips :: "ForkChoice \<Rightarrow> slot list" where
  "get_fork_tips fc =
     filter (\<lambda>s. \<not> list_ex (\<lambda>(_, f). parent f = Some s) (forks fc)) (map fst (forks fc))"

partial_function (option) fork_path_loop :: "forks_map \<Rightarrow> slot list \<Rightarrow> slot \<Rightarrow> slot list option" where
  "fork_path_loop fs path current =
     (case parent_of fs current of
        None \<Rightarrow> Some path
      | Some p \<Rightarrow> fork_path_loop fs (path @ [p]) p)"

declare fork_path_loop.simps [code]

definition get_fork_path :: "ForkChoice \<Rightarrow> slot \<Rightarrow> slot list option" where
  "get_fork_path fc s = map_option rev (fork_path_loop (forks fc) [s] s)"

definition stake_distribution :: "ForkChoice \<Rightarrow> (slot, stake) hmap" where
  "stake_distribution fc = map (\<lambda>(s, f). (s, stake_weight f)) (forks fc)"

text \<open>The loop of \<open>add_stake_to_ancestry\<close> and \<open>subtract_stake_from_ancestry\<close>.\<close>

partial_function (option) ancestry_loop ::
  "(stake \<Rightarrow> stake) \<Rightarrow> forks_map \<Rightarrow> slot option \<Rightarrow> forks_map option" where
  "ancestry_loop g fs current =
     (case current of
        None \<Rightarrow> Some fs
      | Some s \<Rightarrow>
          (case hm_get fs s of
             None \<Rightarrow> Some fs
           | Some f \<Rightarrow> ancestry_loop g (hm_insert s (f\<lparr>stake_weight := g (stake_weight f)\<rparr>) fs) (parent f)))"

declare ancestry_loop.simps [code]

definition add_stake_to_ancestry :: "ForkChoice \<Rightarrow> slot \<Rightarrow> stake \<Rightarrow> ForkChoice option" where
  "add_stake_to_ancestry fc s st =
     map_option (\<lambda>fs. fc\<lparr>forks := fs\<rparr>) (ancestry_loop (\<lambda>w. sat_add64 w st) (forks fc) (Some s))"

definition subtract_stake_from_ancestry :: "ForkChoice \<Rightarrow> slot \<Rightarrow> stake \<Rightarrow> ForkChoice option" where
  "subtract_stake_from_ancestry fc s st =
     map_option (\<lambda>fs. fc\<lparr>forks := fs\<rparr>) (ancestry_loop (\<lambda>w. w - st) (forks fc) (Some s))"

definition insert_vote :: "ForkChoice \<Rightarrow> Pubkey \<Rightarrow> slot \<times> stake \<Rightarrow> ForkChoice" where
  "insert_vote fc v x = fc\<lparr>validator_latest_votes := hm_insert v x (validator_latest_votes fc)\<rparr>"

definition record_validator_vote :: "ForkChoice \<Rightarrow> Pubkey \<Rightarrow> slot \<Rightarrow> stake \<Rightarrow> ForkChoice option" where
  "record_validator_vote fc validator s st =
     (case hm_get (validator_latest_votes fc) validator of
        Some (old_slot, old_stake) \<Rightarrow>
          if old_slot = s then
            if old_stake \<noteq> st then do {
              fc1 \<leftarrow> subtract_stake_from_ancestry fc old_slot old_stake;
              fc2 \<leftarrow> add_stake_to_ancestry fc1 s st;
              Some (update_confirmation (insert_vote fc2 validator (s, st)) s)
            } else Some fc
          else do {
            fc1 \<leftarrow> subtract_stake_from_ancestry fc old_slot old_stake;
            fc2 \<leftarrow> add_stake_to_ancestry fc1 s st;
            Some (update_confirmation (insert_vote fc2 validator (s, st)) s)
          }
      | None \<Rightarrow> do {
          fc2 \<leftarrow> add_stake_to_ancestry fc s st;
          Some (update_confirmation (insert_vote fc2 validator (s, st)) s)
        })"

definition compute_supermajority_root :: "ForkChoice \<Rightarrow> slot option \<Rightarrow> slot option" where
  "compute_supermajority_root fc current_root =
     (if total_stake fc = 0 then current_root
      else fold (\<lambda>(s, f) candidate.
             if (case current_root of Some r \<Rightarrow> s \<le> r | None \<Rightarrow> False) then candidate
             else if f64_ge (f64_ratio (stake_weight f) (total_stake fc)) SUPERMAJORITY_THRESHOLD
             then Some (case candidate of Some c \<Rightarrow> max c s | None \<Rightarrow> s)
             else candidate) (forks fc) current_root)"

text \<open>
  \<open>subtree_weight\<close> recurses into the children; the first argument bounds the depth of the
  recursion, \<open>None\<close> being a recursion that does not end within it. \<open>sum()\<close> wraps around.
\<close>

fun subtree_weight :: "nat \<Rightarrow> ForkChoice \<Rightarrow> slot \<Rightarrow> stake option" where
  "subtree_weight 0 fc s = None"
| "subtree_weight (Suc n) fc s =
     map_option (\<lambda>ws. sat_add64 (weight_of (forks fc) s) (foldl add64 0 ws))
       (those (map (\<lambda>(child, _). subtree_weight n fc child)
                 (filter (\<lambda>(_, f). parent f = Some s) (forks fc))))"

text \<open>Collecting the elements that satisfy a predicate which may not return.\<close>

fun filter_opt :: "('a \<Rightarrow> bool option) \<Rightarrow> 'a list \<Rightarrow> 'a list option" where
  "filter_opt P [] = Some []"
| "filter_opt P (x # xs) = do { b \<leftarrow> P x; ys \<leftarrow> filter_opt P xs; Some (if b then x # ys else ys) }"

definition prune_non_descendants :: "ForkChoice \<Rightarrow> slot \<Rightarrow> ForkChoice option" where
  "prune_non_descendants fc new_root =
     do {
       keep \<leftarrow> filter_opt (\<lambda>s. if s = new_root then Some True else is_descendant fc s new_root)
                 (map fst (forks fc));
       let fs = hm_retain (\<lambda>s _. s \<in> set keep) (forks fc);
       Some (fc\<lparr>forks := fs,
                validator_latest_votes :=
                  hm_retain (\<lambda>_ (s, _). hm_get fs s \<noteq> None) (validator_latest_votes fc)\<rparr>)
     }"

definition validator_vote_slot :: "ForkChoice \<Rightarrow> Pubkey \<Rightarrow> slot option" where
  "validator_vote_slot fc v = map_option fst (hm_get (validator_latest_votes fc) v)"

definition mark_equivocating :: "ForkChoice \<Rightarrow> slot \<Rightarrow> ForkChoice" where
  "mark_equivocating fc s =
     (case hm_get (forks fc) s of
        None \<Rightarrow> fc
      | Some f \<Rightarrow>
          let f1 = f\<lparr>eqvoc := True\<rparr>;
              f2 = (if \<not> duplicate_confirmed f1 then f1\<lparr>valid := False\<rparr> else f1)
          in fc\<lparr>forks := hm_insert s f2 (forks fc)\<rparr>)"

definition mark_duplicate_confirmed :: "ForkChoice \<Rightarrow> slot \<Rightarrow> ForkChoice" where
  "mark_duplicate_confirmed fc s =
     (case hm_get (forks fc) s of
        None \<Rightarrow> fc
      | Some f \<Rightarrow>
          fc\<lparr>forks := hm_insert s (f\<lparr>duplicate_confirmed := True, valid := True\<rparr>) (forks fc)\<rparr>)"

partial_function (option) invalid_ancestor_loop :: "forks_map \<Rightarrow> slot option \<Rightarrow> slot option option" where
  "invalid_ancestor_loop fs current =
     (case current of
        None \<Rightarrow> Some None
      | Some s \<Rightarrow>
          (case hm_get fs s of
             None \<Rightarrow> Some None
           | Some f \<Rightarrow> if \<not> valid f then Some (Some s) else invalid_ancestor_loop fs (parent f)))"

declare invalid_ancestor_loop.simps [code]

definition invalid_ancestor :: "ForkChoice \<Rightarrow> slot \<Rightarrow> slot option option" where
  "invalid_ancestor fc s = invalid_ancestor_loop (forks fc) (parent_of (forks fc) s)"

text \<open>The breadth-first search of \<open>deepest_fork\<close>: queue and last slot popped.\<close>

partial_function (option) bfs_loop :: "forks_map \<Rightarrow> slot list \<Rightarrow> slot \<Rightarrow> slot option" where
  "bfs_loop fs queue lst =
     (case queue of
        [] \<Rightarrow> Some lst
      | current # queue' \<Rightarrow>
          bfs_loop fs (queue' @ map fst (filter (\<lambda>(s, f). parent f = Some current) fs)) current)"

declare bfs_loop.simps [code]

definition deepest_fork :: "ForkChoice \<Rightarrow> slot \<Rightarrow> slot option option" where
  "deepest_fork fc rt =
     (if hm_get (forks fc) rt = None then Some None
      else map_option Some (bfs_loop (forks fc) [rt] rt))"

record ForkChoiceStats =
  total_forks :: nat
  confirmed_forks :: nat
  optimistically_confirmed_forks :: nat
  fork_tips_count :: nat
  stats_total_stake :: stake
  max_fork_stake :: stake
  stats_best_slot :: "slot option"

definition stats :: "ForkChoice \<Rightarrow> ForkChoiceStats" where
  "stats fc =
     \<lparr>total_forks = length (forks fc),
      confirmed_forks = length (filter (\<lambda>(_, f). confirmed f) (forks fc)),
      optimistically_confirmed_forks = length (filter (\<lambda>(_, f). optimistically_confirmed f) (forks fc)),
      fork_tips_count = length (get_fork_tips fc),
      stats_total_stake = total_stake fc,
      max_fork_stake = (if forks fc = [] then 0 else Max (set (map (\<lambda>(_, f). stake_weight f) (forks fc)))),
      stats_best_slot = best_slot fc\<rparr>"

subsection \<open>Ancestry in a tree of slots\<close>

text \<open>
  The chain of a slot: the slot, its parent, and so on, as long as the parent is a lower slot.
  The locale states what the code relies on (parents are lower) and derives that ancestry is a
  partial order in which the ancestors of one slot are linearly ordered.
\<close>

function chain :: "(slot \<Rightarrow> slot option) \<Rightarrow> slot \<Rightarrow> slot list" where
  "chain par s = s # (case par s of None \<Rightarrow> [] | Some p \<Rightarrow> if p < s then chain par p else [])"
  by pat_completeness auto
termination
  by (relation "measure snd") auto

declare chain.simps [simp del]

locale fork_tree =
  fixes par :: "slot \<Rightarrow> slot option"
  assumes par_less: "par s = Some p \<Longrightarrow> p < s"
begin

lemma chain_unfold: "chain par s = s # (case par s of None \<Rightarrow> [] | Some p \<Rightarrow> chain par p)"
  by (subst chain.simps) (auto dest: par_less split: option.splits)

lemma chain_root: "par s = None \<Longrightarrow> chain par s = [s]"
  by (simp add: chain_unfold [of s])

lemma chain_parent: "par s = Some p \<Longrightarrow> chain par s = s # chain par p"
  by (simp add: chain_unfold [of s])

lemma self_in_chain: "s \<in> set (chain par s)"
  by (simp add: chain_unfold [of s])

lemma chain_mem_iff: "a \<in> set (chain par s) \<longleftrightarrow> a = s \<or> (\<exists>p. par s = Some p \<and> a \<in> set (chain par p))"
  by (subst chain_unfold) (auto split: option.splits)

lemma chain_induct [case_names step]:
  assumes "\<And>s. (\<And>p. par s = Some p \<Longrightarrow> P p) \<Longrightarrow> P s"
  shows "P s"
proof (induction s rule: less_induct)
  case (less s)
  show ?case by (rule assms) (auto intro: less dest: par_less)
qed

lemma chain_le: "a \<in> set (chain par s) \<Longrightarrow> a \<le> s"
proof (induction s rule: chain_induct)
  case (step s)
  from step.prems consider "a = s" | p where "par s = Some p" "a \<in> set (chain par p)"
    by (auto simp: chain_mem_iff [of a s])
  then show ?case
  proof cases
    case (2 p)
    with step.IH [of p] par_less [of s p] show ?thesis by simp
  qed simp
qed

lemma chain_trans: "a \<in> set (chain par b) \<Longrightarrow> b \<in> set (chain par s) \<Longrightarrow> a \<in> set (chain par s)"
proof (induction s rule: chain_induct)
  case (step s)
  from step.prems(2) consider "b = s" | p where "par s = Some p" "b \<in> set (chain par p)"
    by (auto simp: chain_mem_iff [of b s])
  then show ?case
  proof cases
    case (2 p)
    with step.IH [of p] step.prems(1) show ?thesis by (auto simp: chain_mem_iff [of a s])
  qed (use step.prems in simp)
qed

lemma chain_antisym: "a \<in> set (chain par b) \<Longrightarrow> b \<in> set (chain par a) \<Longrightarrow> a = b"
  using chain_le [of a b] chain_le [of b a] by simp

lemma chain_linear:
  "a \<in> set (chain par s) \<Longrightarrow> b \<in> set (chain par s) \<Longrightarrow> a \<le> b \<Longrightarrow> a \<in> set (chain par b)"
proof (induction s rule: chain_induct)
  case (step s)
  show ?case
  proof (cases "b = s")
    case False
    with step.prems(2) obtain p where p: "par s = Some p" "b \<in> set (chain par p)"
      by (auto simp: chain_mem_iff [of b s])
    then have "b < s" using chain_le par_less by force
    with step.prems p have "a \<in> set (chain par p)" by (auto simp: chain_mem_iff [of a s])
    with step.IH [OF p(1)] step.prems p show ?thesis by simp
  qed (use step.prems in simp)
qed

lemma siblings_disjoint:
  "par a = Some p \<Longrightarrow> par b = Some p \<Longrightarrow> a \<in> set (chain par s) \<Longrightarrow> b \<in> set (chain par s) \<Longrightarrow> a = b"
proof (induction a b rule: linorder_wlog)
  case (le a b)
  then have "a \<in> set (chain par b)" using chain_linear by blast
  moreover have "\<not> a \<le> p" using le par_less by force
  ultimately show ?case using le chain_le [of a p] by (auto simp: chain_mem_iff [of a b])
qed auto

lemma child_towards:
  assumes "p \<in> set (chain par s)" "p \<noteq> s"
  shows "\<exists>c \<in> set (chain par s). par c = Some p"
  using assms
proof (induction s rule: chain_induct)
  case (step s)
  then obtain q where q: "par s = Some q" "p \<in> set (chain par q)"
    by (auto simp: chain_mem_iff [of p s])
  show ?case
  proof (cases "p = q")
    case True
    with q show ?thesis by (auto simp: chain_unfold [of s])
  next
    case False
    with step.IH [OF q(1) q(2)] obtain c where "c \<in> set (chain par q)" "par c = Some p" by blast
    with q show ?thesis by (auto simp: chain_mem_iff [of _ s])
  qed
qed

end

text \<open>
  The parent links of any fork map, restricted to lower parents, form such a tree; on a
  well-formed map the restriction changes nothing.
\<close>

definition lower_parent :: "forks_map \<Rightarrow> slot \<Rightarrow> slot option" where
  "lower_parent fs s =
     (case parent_of fs s of None \<Rightarrow> None | Some p \<Rightarrow> if p < s then Some p else None)"

interpretation ft: fork_tree "lower_parent fs" for fs
  by unfold_locales (auto simp: lower_parent_def split: option.splits if_splits)

abbreviation ancestry :: "forks_map \<Rightarrow> slot \<Rightarrow> slot list" where
  "ancestry fs \<equiv> chain (lower_parent fs)"

definition forks_wf :: "forks_map \<Rightarrow> bool" where
  "forks_wf fs \<longleftrightarrow> hm_wf fs \<and> (\<forall>(s, f) \<in> set fs. fi_slot f = s \<and> (case parent f of None \<Rightarrow> True | Some p \<Rightarrow> p < s))"

lemma forks_wf_get:
  "forks_wf fs \<longleftrightarrow> hm_wf fs \<and>
     (\<forall>s f. hm_get fs s = Some f \<longrightarrow> fi_slot f = s \<and> (\<forall>p. parent f = Some p \<longrightarrow> p < s))"
proof (cases "hm_wf fs")
  case True
  show ?thesis
    unfolding forks_wf_def Ball_def split_paired_All prod.case
    using True by (simp only: hm_mem_get) (fastforce split: option.splits)
qed (simp add: forks_wf_def)

lemma parent_of_lower: "forks_wf fs \<Longrightarrow> parent_of fs s = lower_parent fs s"
  by (auto simp: lower_parent_def parent_of_def forks_wf_get bind_eq_Some_conv split: option.splits)

lemma parent_of_get: "hm_get fs s = Some f \<Longrightarrow> parent_of fs s = parent f"
  by (simp add: parent_of_def)

lemma parent_of_none: "hm_get fs s = None \<Longrightarrow> parent_of fs s = None"
  by (simp add: parent_of_def)

lemma ancestry_unknown: "hm_get fs s = None \<Longrightarrow> ancestry fs s = [s]"
  by (rule ft.chain_root) (simp add: lower_parent_def parent_of_def)

subsection \<open>Walks along the ancestry\<close>

lemma descendant_loop_ancestry:
  assumes "forks_wf fs"
  shows "descendant_loop fs a (Some s) = Some (a \<in> set (ancestry fs s))"
proof (induction s rule: ft.chain_induct [where fs = fs])
  case (step s)
  show ?case
  proof (cases "lower_parent fs s")
    case None
    then show ?thesis using assms
      by (subst descendant_loop.simps)
         (auto simp: parent_of_lower ft.chain_root descendant_loop.simps [of fs a None])
  next
    case (Some p)
    with step [of p] assms show ?thesis
      by (subst descendant_loop.simps) (auto simp: parent_of_lower ft.chain_parent)
  qed
qed

lemma is_descendant_ancestry:
  "forks_wf (forks fc) \<Longrightarrow> is_descendant fc s a = Some (a \<in> set (ancestry (forks fc) s))"
  by (auto simp: is_descendant_def descendant_loop_ancestry ft.self_in_chain)

lemma fork_path_loop_ancestry:
  assumes "forks_wf fs"
  shows "fork_path_loop fs path s = Some (path @ tl (ancestry fs s))"
proof (induction s arbitrary: path rule: ft.chain_induct [where fs = fs])
  case (step s)
  show ?case
  proof (cases "lower_parent fs s")
    case None
    then show ?thesis using assms
      by (subst fork_path_loop.simps) (auto simp: parent_of_lower ft.chain_root)
  next
    case (Some p)
    with step [of p] assms show ?thesis
      by (subst fork_path_loop.simps) (auto simp: parent_of_lower ft.chain_parent ft.chain_unfold [of _ p])
  qed
qed

lemma get_fork_path_ancestry:
  "forks_wf (forks fc) \<Longrightarrow> get_fork_path fc s = Some (rev (ancestry (forks fc) s))"
  by (simp add: get_fork_path_def fork_path_loop_ancestry ft.chain_unfold [of _ s])

text \<open>
  Two fork maps have the same shape when they hold the same slots, in the same order, with the
  same parents: all updates of weights and flags keep the shape, and with it the ancestry.
\<close>

definition same_shape :: "forks_map \<Rightarrow> forks_map \<Rightarrow> bool" where
  "same_shape fs fs' \<longleftrightarrow>
     map (\<lambda>(s, f). (s, fi_slot f, parent f)) fs = map (\<lambda>(s, f). (s, fi_slot f, parent f)) fs'"

lemma same_shape_refl [simp]: "same_shape fs fs"
  by (simp add: same_shape_def)

lemma same_shape_trans: "same_shape a b \<Longrightarrow> same_shape b c \<Longrightarrow> same_shape a c"
  by (simp add: same_shape_def)

lemma same_shape_keys: "same_shape fs fs' \<Longrightarrow> map fst fs = map fst fs'"
  unfolding same_shape_def by (induction fs fs' rule: list_induct2') auto

lemma same_shape_get:
  "same_shape fs fs' \<Longrightarrow>
     map_option (\<lambda>f. (fi_slot f, parent f)) (hm_get fs s) = map_option (\<lambda>f. (fi_slot f, parent f)) (hm_get fs' s)"
  unfolding same_shape_def by (induction fs fs' rule: list_induct2') auto

lemma same_shape_known: "same_shape fs fs' \<Longrightarrow> hm_get fs' s = None \<longleftrightarrow> hm_get fs s = None"
  using same_shape_get [of fs fs' s] by (cases "hm_get fs s"; cases "hm_get fs' s") simp_all

lemma same_shape_parent_of: "same_shape fs fs' \<Longrightarrow> parent_of fs' = parent_of fs"
proof
  fix s assume "same_shape fs fs'"
  from same_shape_get [OF this, of s] show "parent_of fs' s = parent_of fs s"
    by (cases "hm_get fs s"; cases "hm_get fs' s") (auto simp: parent_of_def)
qed

lemma same_shape_ancestry: "same_shape fs fs' \<Longrightarrow> ancestry fs' = ancestry fs"
  by (simp add: same_shape_parent_of lower_parent_def [abs_def])

lemma same_shape_wf: "same_shape fs fs' \<Longrightarrow> forks_wf fs' \<longleftrightarrow> forks_wf fs"
proof -
  assume s: "same_shape fs fs'"
  have "list_all (\<lambda>(s, f). fi_slot f = s \<and> (case parent f of None \<Rightarrow> True | Some p \<Rightarrow> p < s)) fs \<longleftrightarrow>
        list_all (\<lambda>(s, f). fi_slot f = s \<and> (case parent f of None \<Rightarrow> True | Some p \<Rightarrow> p < s)) fs'"
    using s unfolding same_shape_def by (induction fs fs' rule: list_induct2') auto
  with same_shape_keys [OF s] show ?thesis by (simp add: forks_wf_def list_all_iff)
qed

lemma same_shape_insert:
  "hm_get fs s = Some f \<Longrightarrow> fi_slot f' = fi_slot f \<Longrightarrow> parent f' = parent f \<Longrightarrow>
     same_shape fs (hm_insert s f' fs)"
  unfolding same_shape_def by (induction fs) (auto split: if_splits)

lemma weight_of_insert:
  "weight_of (hm_insert s f fs) x = (if x = s then stake_weight f else weight_of fs x)"
  by (simp add: weight_of_def hm_simps)

lemma ancestry_loop_spec:
  assumes "forks_wf fs"
  shows "\<exists>fs'. ancestry_loop g fs (Some s) = Some fs' \<and> same_shape fs fs' \<and>
           (\<forall>x. hm_get fs' x = (if x \<in> set (ancestry fs s)
                                then map_option (\<lambda>f. f\<lparr>stake_weight := g (stake_weight f)\<rparr>) (hm_get fs x)
                                else hm_get fs x))"
  using assms
proof (induction s arbitrary: fs rule: less_induct)
  case (less s)
  show ?case
  proof (cases "hm_get fs s")
    case None
    then show ?thesis
      by (subst ancestry_loop.simps) (auto simp: ancestry_unknown)
  next
    case (Some f)
    define f1 where "f1 = f\<lparr>stake_weight := g (stake_weight f)\<rparr>"
    define fs1 where "fs1 = hm_insert s f1 fs"
    have step: "ancestry_loop g fs (Some s) = ancestry_loop g fs1 (parent f)"
      by (subst ancestry_loop.simps) (simp add: Some fs1_def f1_def)
    have shape: "same_shape fs fs1"
      unfolding fs1_def by (rule same_shape_insert [OF Some]) (simp_all add: f1_def)
    show ?thesis
    proof (cases "parent f")
      case None
      then have "lower_parent fs s = None"
        using Some by (simp add: lower_parent_def parent_of_get)
      moreover have "ancestry_loop g fs1 None = Some fs1"
        by (subst ancestry_loop.simps) simp
      ultimately show ?thesis
        using step None shape Some by (auto simp: ft.chain_root fs1_def f1_def hm_simps)
    next
      case p: (Some p)
      with Some less.prems have lt: "p < s" by (auto simp: forks_wf_get)
      with p Some have lp: "lower_parent fs s = Some p" by (simp add: lower_parent_def parent_of_get)
      have wf1: "forks_wf fs1" using less.prems same_shape_wf [OF shape] by simp
      from less.IH [OF lt wf1] obtain fs' where
        fs': "ancestry_loop g fs1 (Some p) = Some fs'" "same_shape fs1 fs'"
        "\<And>x. hm_get fs' x = (if x \<in> set (ancestry fs p)
                 then map_option (\<lambda>f. f\<lparr>stake_weight := g (stake_weight f)\<rparr>) (hm_get fs1 x)
                 else hm_get fs1 x)"
        using same_shape_ancestry [OF shape] by auto
      have notin: "s \<notin> set (ancestry fs p)" using ft.chain_le [of s fs p] lt by auto
      have "\<forall>x. hm_get fs' x = (if x \<in> set (ancestry fs s)
                then map_option (\<lambda>f. f\<lparr>stake_weight := g (stake_weight f)\<rparr>) (hm_get fs x)
                else hm_get fs x)"
        using notin Some by (auto simp: fs'(3) ft.chain_parent [OF lp] fs1_def f1_def hm_simps)
      with step p fs'(1) same_shape_trans [OF shape fs'(2)] show ?thesis by auto
    qed
  qed
qed

text \<open>A walk that updates the weights, as one statement about weights.\<close>

definition reweighted :: "(slot \<Rightarrow> stake \<Rightarrow> stake) \<Rightarrow> forks_map \<Rightarrow> forks_map \<Rightarrow> bool" where
  "reweighted w fs fs' \<longleftrightarrow> same_shape fs fs' \<and>
     (\<forall>x f. hm_get fs x = Some f \<longrightarrow>
        (\<exists>f'. hm_get fs' x = Some f' \<and> stake_weight f' = w x (stake_weight f) \<and>
              eqvoc f' = eqvoc f \<and> duplicate_confirmed f' = duplicate_confirmed f \<and> valid f' = valid f))"

lemma reweighted_trans:
  "reweighted w fs fs1 \<Longrightarrow> reweighted w' fs1 fs2 \<Longrightarrow> reweighted (\<lambda>x. w' x \<circ> w x) fs fs2"
  unfolding reweighted_def by (fastforce intro: same_shape_trans)

lemma reweighted_weight:
  "reweighted w fs fs' \<Longrightarrow> hm_get fs x \<noteq> None \<Longrightarrow> weight_of fs' x = w x (weight_of fs x)"
  unfolding reweighted_def weight_of_def by fastforce

lemma reweighted_shape: "reweighted w fs fs' \<Longrightarrow> same_shape fs fs'"
  by (simp add: reweighted_def)

lemma ancestry_loop_reweighted:
  assumes "forks_wf fs"
  shows "\<exists>fs'. ancestry_loop g fs (Some s) = Some fs' \<and>
           reweighted (\<lambda>x w. if x \<in> set (ancestry fs s) then g w else w) fs fs'"
proof -
  from ancestry_loop_spec [OF assms, of g s] obtain fs' where
    "ancestry_loop g fs (Some s) = Some fs'" "same_shape fs fs'"
    "\<forall>x. hm_get fs' x = (if x \<in> set (ancestry fs s)
            then map_option (\<lambda>f. f\<lparr>stake_weight := g (stake_weight f)\<rparr>) (hm_get fs x)
            else hm_get fs x)" by blast
  then show ?thesis by (auto simp: reweighted_def)
qed

lemma update_confirmation_reweighted:
  "reweighted (\<lambda>_ w. w) (forks fc) (forks (update_confirmation fc s))"
proof (cases "hm_get (forks fc) s")
  case None
  then show ?thesis by (simp add: update_confirmation_def reweighted_def)
next
  case (Some f)
  define f' where
    "f' = (let f1 = (if f64_ge (f64_ratio (stake_weight f) (total_stake fc)) VOTE_THRESHOLD_SIZE
                     then f\<lparr>confirmed := True\<rparr> else f)
           in if check_optimistic_confirmation fc s then f1\<lparr>optimistically_confirmed := True\<rparr> else f1)"
  have u: "forks (update_confirmation fc s) = hm_insert s f' (forks fc)"
    by (simp add: update_confirmation_def Some f'_def Let_def)
  have f': "fi_slot f' = fi_slot f" "parent f' = parent f" "stake_weight f' = stake_weight f"
    "eqvoc f' = eqvoc f" "duplicate_confirmed f' = duplicate_confirmed f" "valid f' = valid f"
    by (simp_all add: f'_def Let_def)
  show ?thesis
    unfolding reweighted_def u using same_shape_insert [OF Some f'(1,2)] f' Some by (auto simp: hm_simps)
qed

lemma update_confirmation_votes [simp]:
  "validator_latest_votes (update_confirmation fc s) = validator_latest_votes fc"
  "total_stake (update_confirmation fc s) = total_stake fc"
  "best_slot (update_confirmation fc s) = best_slot fc"
  by (simp_all add: update_confirmation_def Let_def split: option.splits)

text \<open>On a well-formed tree the recursion of \<open>subtree_weight\<close> ends within one level per known slot.\<close>

lemma those_all: "(\<And>x. x \<in> set xs \<Longrightarrow> x \<noteq> None) \<Longrightarrow> \<exists>ys. those xs = Some ys"
  by (induction xs) (auto split: option.splits)

lemma later_slots_less:
  assumes "(c, f) \<in> set fs" "s < c"
  shows "length (filter (\<lambda>(k, _). c < k) fs) < length (filter (\<lambda>(k, _). s < (k :: slot)) fs)"
proof -
  have "filter (\<lambda>(k, _). c < k) fs = filter (\<lambda>(k, _). c < k) (filter (\<lambda>(k, _). s < k) fs)"
    using assms(2) by (auto intro: filter_cong)
  then show ?thesis using length_filter_less [of "(c, f)" "filter (\<lambda>(k, _). s < k) fs" "\<lambda>(k, _). c < k"] assms by simp
qed

lemma subtree_weight_returns:
  assumes "forks_wf (forks fc)" "length (filter (\<lambda>(k, _). s < k) (forks fc)) < n"
  shows "\<exists>w. subtree_weight n fc s = Some w"
  using assms(2)
proof (induction n arbitrary: s)
  case (Suc n)
  have "subtree_weight n fc c \<noteq> None" if "(c, f) \<in> set (forks fc)" "parent f = Some s" for c f
  proof -
    have "s < c" using assms(1) that by (auto simp: forks_wf_def split: option.splits)
    from later_slots_less [OF that(1) this] Suc.prems have "length (filter (\<lambda>(k, _). c < k) (forks fc)) < n" by simp
    from Suc.IH [OF this] show ?thesis by auto
  qed
  then have "\<exists>ws. those (map (\<lambda>(child, _). subtree_weight n fc child) (filter (\<lambda>(_, f). parent f = Some s) (forks fc))) = Some ws"
    by (intro those_all) auto
  then show ?case by auto
qed simp

lemma subtree_weight_fuel: "forks_wf (forks fc) \<Longrightarrow> \<exists>w. subtree_weight (Suc (length (forks fc))) fc s = Some w"
  by (rule subtree_weight_returns) (simp_all add: le_imp_less_Suc)

subsection \<open>The latest-message-driven invariant\<close>

text \<open>
  The specification of the weights: a slot weighs the stakes of the validators whose latest
  vote is for the slot or a descendant of it. The code maintains these sums incrementally.
\<close>

abbreviation vote_counts :: "forks_map \<Rightarrow> slot \<Rightarrow> Pubkey \<times> slot \<times> stake \<Rightarrow> stake" where
  "vote_counts fs x \<equiv> \<lambda>(v, s, st). if x \<in> set (ancestry fs s) then st else 0"

definition vote_weight :: "ForkChoice \<Rightarrow> slot \<Rightarrow> stake" where
  "vote_weight fc x = sum_list (map (vote_counts (forks fc) x) (validator_latest_votes fc))"

definition votes_total :: "ForkChoice \<Rightarrow> stake" where
  "votes_total fc = sum_list (map (\<lambda>(v, s, st). st) (validator_latest_votes fc))"

text \<open>
  The invariant of the incremental weights, relative to a ledger of the stake that \<open>add_stake\<close> put
  on each slot directly: the weight of a slot is the latest-vote sum of its subtree plus its own
  entry in the ledger. Without direct stake the weights are the latest-vote sums.
\<close>

type_synonym ledger = "slot \<Rightarrow> stake"

definition lmd_with :: "ledger \<Rightarrow> ForkChoice \<Rightarrow> bool" where
  "lmd_with d fc \<longleftrightarrow> forks_wf (forks fc) \<and> hm_wf (validator_latest_votes fc) \<and>
     (\<forall>x \<in> fst ` set (forks fc). weight_of (forks fc) x = vote_weight fc x + d x)"

abbreviation lmd_inv :: "ForkChoice \<Rightarrow> bool" where
  "lmd_inv fc \<equiv> lmd_with (\<lambda>_. 0) fc"

lemma lmd_with_get:
  "lmd_with d fc \<longleftrightarrow> forks_wf (forks fc) \<and> hm_wf (validator_latest_votes fc) \<and>
     (\<forall>x. hm_get (forks fc) x \<noteq> None \<longrightarrow> weight_of (forks fc) x = vote_weight fc x + d x)"
  by (simp only: lmd_with_def hm_get_keys Ball_def)

lemma votes_total_insert:
  assumes "hm_wf (validator_latest_votes fc)"
  shows "votes_total (insert_vote fc v (s, st)) +
           (case hm_get (validator_latest_votes fc) v of None \<Rightarrow> 0 | Some (_, ost) \<Rightarrow> ost) =
         votes_total fc + st"
  using sum_list_hm_insert [OF assms, of "\<lambda>(v, s, st). st" v "(s, st)"]
  by (cases "hm_get (validator_latest_votes fc) v") (auto simp: votes_total_def insert_vote_def)

lemma vote_weight_insert:
  assumes "hm_wf (validator_latest_votes fc)"
  shows "vote_weight (insert_vote fc v (s, st)) x +
           (case hm_get (validator_latest_votes fc) v of
              None \<Rightarrow> 0 | Some (os, ost) \<Rightarrow> if x \<in> set (ancestry (forks fc) os) then ost else 0) =
         vote_weight fc x + (if x \<in> set (ancestry (forks fc) s) then st else 0)"
  using sum_list_hm_insert [OF assms, of "vote_counts (forks fc) x" v "(s, st)"]
  by (cases "hm_get (validator_latest_votes fc) v") (auto simp: vote_weight_def insert_vote_def)

lemma vote_weight_shape:
  "same_shape (forks fc) (forks fc') \<Longrightarrow> validator_latest_votes fc' = validator_latest_votes fc \<Longrightarrow>
     vote_weight fc' x = vote_weight fc x"
  by (simp add: vote_weight_def same_shape_ancestry)

lemma vote_weight_le_total: "vote_weight fc x \<le> votes_total fc"
  unfolding vote_weight_def votes_total_def
  by (rule sum_list_mono) (auto split: prod.splits)

lemma vote_weight_mono:
  assumes "x \<in> set (ancestry (forks fc) y)"
  shows "vote_weight fc y \<le> vote_weight fc x"
  unfolding vote_weight_def
  by (rule sum_list_mono) (auto split: prod.splits dest: ft.chain_trans [OF assms])

lemma old_vote_counted:
  assumes "lmd_with d fc" "hm_get (validator_latest_votes fc) v = Some (os, ost)"
    "x \<in> set (ancestry (forks fc) os)" "hm_get (forks fc) x \<noteq> None"
  shows "ost \<le> weight_of (forks fc) x"
proof -
  have "vote_counts (forks fc) x (v, os, ost) \<le> vote_weight fc x"
    unfolding vote_weight_def
    by (rule member_le_sum_list) (simp_all only: set_map imageI [OF hm_get_mem [OF assms(2)]])
  with assms show ?thesis by (simp add: lmd_with_get)
qed

text \<open>The stakes add up within 64 bits, so that no saturating sum loses anything.\<close>

definition stake_fits :: "ledger \<Rightarrow> ForkChoice \<Rightarrow> bool" where
  "stake_fits d fc \<longleftrightarrow> (\<forall>x. hm_get (forks fc) x \<noteq> None \<longrightarrow> votes_total fc + d x \<le> u64_max)"

text \<open>A vote record: what the walks and the insertion leave, in every branch.\<close>

definition revote :: "ForkChoice \<Rightarrow> Pubkey \<Rightarrow> slot \<Rightarrow> stake \<Rightarrow> slot \<Rightarrow> stake \<Rightarrow> stake" where
  "revote fc v s st x w =
     (let w1 = (case hm_get (validator_latest_votes fc) v of
                  None \<Rightarrow> w
                | Some (os, ost) \<Rightarrow> if x \<in> set (ancestry (forks fc) os) then w - ost else w)
      in if x \<in> set (ancestry (forks fc) s) then sat_add64 w1 st else w1)"

lemma walks_spec:
  assumes "forks_wf (forks fc)"
  shows "\<exists>fc1. add_stake_to_ancestry fc s st = Some fc1 \<and>
           fc1 = fc\<lparr>forks := forks fc1\<rparr> \<and>
           reweighted (\<lambda>x w. if x \<in> set (ancestry (forks fc) s) then sat_add64 w st else w) (forks fc) (forks fc1)"
    and "\<exists>fc1. subtract_stake_from_ancestry fc s st = Some fc1 \<and>
           fc1 = fc\<lparr>forks := forks fc1\<rparr> \<and>
           reweighted (\<lambda>x w. if x \<in> set (ancestry (forks fc) s) then w - st else w) (forks fc) (forks fc1)"
  using ancestry_loop_reweighted [OF assms, of "\<lambda>w. sat_add64 w st" s]
    ancestry_loop_reweighted [OF assms, of "\<lambda>w. w - st" s]
  by (auto simp: add_stake_to_ancestry_def subtract_stake_from_ancestry_def)

text \<open>The three branches that change state subtract the old vote, if any, and add the new one.\<close>

definition replace_vote :: "ForkChoice \<Rightarrow> Pubkey \<Rightarrow> slot \<Rightarrow> stake \<Rightarrow> ForkChoice option" where
  "replace_vote fc validator s st =
     do {
       fc1 \<leftarrow> (case hm_get (validator_latest_votes fc) validator of
                 Some (old_slot, old_stake) \<Rightarrow> subtract_stake_from_ancestry fc old_slot old_stake
               | None \<Rightarrow> Some fc);
       fc2 \<leftarrow> add_stake_to_ancestry fc1 s st;
       Some (update_confirmation (insert_vote fc2 validator (s, st)) s)
     }"

lemma record_validator_vote_replace:
  "record_validator_vote fc v s st =
     (if hm_get (validator_latest_votes fc) v = Some (s, st) then Some fc else replace_vote fc v s st)"
  by (auto simp: record_validator_vote_def replace_vote_def split: option.splits)

lemma replace_vote_spec:
  assumes "forks_wf (forks fc)"
  shows "\<exists>fc'. replace_vote fc v s st = Some fc' \<and> reweighted (revote fc v s st) (forks fc) (forks fc') \<and>
           validator_latest_votes fc' = hm_insert v (s, st) (validator_latest_votes fc) \<and>
           total_stake fc' = total_stake fc \<and> best_slot fc' = best_slot fc"
proof -
  define old where "old = (\<lambda>x w. case hm_get (validator_latest_votes fc) v of
      None \<Rightarrow> w | Some (os, ost) \<Rightarrow> if x \<in> set (ancestry (forks fc) os) then w - ost else w)"
  have "\<exists>fc1. (case hm_get (validator_latest_votes fc) v of
                 Some (old_slot, old_stake) \<Rightarrow> subtract_stake_from_ancestry fc old_slot old_stake
               | None \<Rightarrow> Some fc) = Some fc1 \<and> fc1 = fc\<lparr>forks := forks fc1\<rparr> \<and>
          reweighted old (forks fc) (forks fc1)"
    using walks_spec(2) [OF assms] by (auto simp: old_def reweighted_def split: option.splits)
  then obtain fc1 where fc1: "(case hm_get (validator_latest_votes fc) v of
                 Some (old_slot, old_stake) \<Rightarrow> subtract_stake_from_ancestry fc old_slot old_stake
               | None \<Rightarrow> Some fc) = Some fc1" "fc1 = fc\<lparr>forks := forks fc1\<rparr>"
    "reweighted old (forks fc) (forks fc1)" by blast
  note shape = reweighted_shape [OF fc1(3)]
  have "forks_wf (forks fc1)" using assms same_shape_wf [OF shape] by simp
  from walks_spec(1) [OF this, of s st] obtain fc2 where
    fc2: "add_stake_to_ancestry fc1 s st = Some fc2" "fc2 = fc1\<lparr>forks := forks fc2\<rparr>"
    "reweighted (\<lambda>x w. if x \<in> set (ancestry (forks fc) s) then sat_add64 w st else w) (forks fc1) (forks fc2)"
    by (auto simp: same_shape_ancestry [OF shape])
  define fc' where "fc' = update_confirmation (insert_vote fc2 v (s, st)) s"
  have "reweighted (\<lambda>_ w. w) (forks fc2) (forks fc')"
    using update_confirmation_reweighted [of "insert_vote fc2 v (s, st)" s] by (simp add: fc'_def insert_vote_def)
  from reweighted_trans [OF reweighted_trans [OF fc1(3) fc2(3)] this]
  have "reweighted (revote fc v s st) (forks fc) (forks fc')"
    by (simp add: revote_def [abs_def] old_def Let_def comp_def)
  moreover have "validator_latest_votes fc2 = validator_latest_votes fc" "total_stake fc2 = total_stake fc"
    "best_slot fc2 = best_slot fc" using fc1(2) fc2(2) by (metis ForkChoice.select_convs ForkChoice.update_convs ForkChoice.surjective)+
  ultimately show ?thesis
    using fc1(1) fc2(1) by (simp add: replace_vote_def fc'_def insert_vote_def)
qed

lemma revote_exact:
  assumes inv: "lmd_with d fc" and x: "hm_get (forks fc) x \<noteq> None"
    and bound: "votes_total (insert_vote fc v (s, st)) + d x \<le> u64_max"
  shows "revote fc v s st x (weight_of (forks fc) x) = vote_weight (insert_vote fc v (s, st)) x + d x"
proof -
  from inv have wf: "hm_wf (validator_latest_votes fc)" by (simp add: lmd_with_get)
  define w where "w = weight_of (forks fc) x"
  define c where "c = (case hm_get (validator_latest_votes fc) v of
              None \<Rightarrow> 0 | Some (os, ost) \<Rightarrow> if x \<in> set (ancestry (forks fc) os) then ost else 0)"
  define n where "n = (if x \<in> set (ancestry (forks fc) s) then st else 0)"
  have w: "w = vote_weight fc x + d x" using inv x by (simp add: lmd_with_get w_def)
  have c: "c \<le> w"
    using old_vote_counted [OF inv _ _ x] by (auto simp: c_def w_def split: option.splits)
  have sum: "vote_weight (insert_vote fc v (s, st)) x + d x + c = w + n"
    using vote_weight_insert [OF wf, of v s st x] by (simp add: c_def n_def w)
  have le: "vote_weight (insert_vote fc v (s, st)) x + d x \<le> u64_max"
    using vote_weight_le_total [of "insert_vote fc v (s, st)" x] bound by linarith
  have "revote fc v s st x w = (if x \<in> set (ancestry (forks fc) s) then sat_add64 (w - c) st else w - c)"
    by (auto simp: revote_def c_def Let_def split: option.splits)
  then show ?thesis using sum le c by (auto simp: n_def w_def [symmetric] sat_add64_def)
qed

lemma record_validator_vote_lmd:
  assumes inv: "lmd_with d fc" and bound: "stake_fits d (insert_vote fc v (s, st))"
  shows "\<exists>fc'. record_validator_vote fc v s st = Some fc' \<and> lmd_with d fc' \<and> same_shape (forks fc) (forks fc') \<and>
           validator_latest_votes fc' = hm_insert v (s, st) (validator_latest_votes fc) \<and>
           total_stake fc' = total_stake fc \<and> best_slot fc' = best_slot fc \<and>
           (\<forall>x. hm_get (forks fc) x \<noteq> None \<longrightarrow>
              weight_of (forks fc') x = vote_weight (insert_vote fc v (s, st)) x + d x)"
proof (cases "hm_get (validator_latest_votes fc) v = Some (s, st)")
  case True
  then have "hm_insert v (s, st) (validator_latest_votes fc) = validator_latest_votes fc"
    by (rule AList.update_triv)
  moreover from this have "insert_vote fc v (s, st) = fc" by (simp add: insert_vote_def)
  ultimately show ?thesis using True inv by (simp add: record_validator_vote_replace lmd_with_get)
next
  case False
  from inv have wf: "forks_wf (forks fc)" "hm_wf (validator_latest_votes fc)" by (simp_all add: lmd_with_get)
  from replace_vote_spec [OF wf(1)] obtain fc' where fc': "replace_vote fc v s st = Some fc'"
    "reweighted (revote fc v s st) (forks fc) (forks fc')"
    "validator_latest_votes fc' = hm_insert v (s, st) (validator_latest_votes fc)"
    "total_stake fc' = total_stake fc" "best_slot fc' = best_slot fc" by blast
  note shape = reweighted_shape [OF fc'(2)]
  have weight: "weight_of (forks fc') x = vote_weight (insert_vote fc v (s, st)) x + d x"
    if "hm_get (forks fc) x \<noteq> None" for x
    using reweighted_weight [OF fc'(2) that] revote_exact [OF inv that] bound that
    by (auto simp: stake_fits_def insert_vote_def)
  have "vote_weight fc' x = vote_weight (insert_vote fc v (s, st)) x" for x
    by (rule vote_weight_shape) (simp_all add: insert_vote_def shape fc'(3))
  then have "lmd_with d fc'"
    using weight wf by (simp add: lmd_with_get same_shape_wf [OF shape] same_shape_known [OF shape] fc'(3))
  with False fc' shape weight show ?thesis by (auto simp: record_validator_vote_replace)
qed

text \<open>Operations that only change flags.\<close>

lemma lmd_inv_reweighted_id:
  assumes "lmd_with d fc" "reweighted (\<lambda>_ w. w) (forks fc) (forks fc')"
    "validator_latest_votes fc' = validator_latest_votes fc"
  shows "lmd_with d fc'"
proof -
  note shape = reweighted_shape [OF assms(2)]
  show ?thesis
    using assms(1) reweighted_weight [OF assms(2)] vote_weight_shape [OF shape assms(3)]
    by (simp add: lmd_with_get same_shape_wf [OF shape] same_shape_known [OF shape] assms(3))
qed

lemma lmd_inv_best [simp]: "lmd_with d (fc\<lparr>best_slot := b\<rparr>) \<longleftrightarrow> lmd_with d fc"
  by (simp add: lmd_with_def vote_weight_def)

lemma lmd_inv_total [simp]: "lmd_with d (fc\<lparr>total_stake := b\<rparr>) \<longleftrightarrow> lmd_with d fc"
  by (simp add: lmd_with_def vote_weight_def)

lemma lmd_update_confirmation: "lmd_with d fc \<Longrightarrow> lmd_with d (update_confirmation fc s)"
  by (rule lmd_inv_reweighted_id [OF _ update_confirmation_reweighted]) simp_all

lemma lmd_update_total_stake: "lmd_with d fc \<Longrightarrow> lmd_with d (update_total_stake fc n)"
proof -
  have "lmd_with d fc \<Longrightarrow> lmd_with d (fold (\<lambda>s fc. update_confirmation fc s) ss fc)" for ss fc
    by (induction ss arbitrary: fc) (auto intro: lmd_update_confirmation)
  then show "lmd_with d fc \<Longrightarrow> lmd_with d (update_total_stake fc n)" by (simp add: update_total_stake_def)
qed

lemma lmd_flags:
  assumes "lmd_with d fc"
  shows "lmd_with d (mark_equivocating fc s)" and "lmd_with d (mark_duplicate_confirmed fc s)"
proof -
  have "lmd_with d (fc\<lparr>forks := hm_insert s f' (forks fc)\<rparr>)"
    if "hm_get (forks fc) s = Some f" "fi_slot f' = fi_slot f" "parent f' = parent f"
      "stake_weight f' = stake_weight f" for f f'
  proof -
    have shape: "same_shape (forks fc) (hm_insert s f' (forks fc))"
      using that same_shape_insert by blast
    have "vote_weight (fc\<lparr>forks := hm_insert s f' (forks fc)\<rparr>) x = vote_weight fc x" for x
      by (rule vote_weight_shape) (simp_all add: shape)
    with assms that show ?thesis
      by (auto simp: lmd_with_get same_shape_wf [OF shape] weight_of_insert hm_simps split: if_splits)
         (auto simp: weight_of_def)
  qed
  then show "lmd_with d (mark_equivocating fc s)" and "lmd_with d (mark_duplicate_confirmed fc s)"
    using assms by (auto simp: mark_equivocating_def mark_duplicate_confirmed_def Let_def split: option.splits)
qed

text \<open>
  \<open>add_stake\<close> changes the weight of the one slot and no other: the ledger grows by what was added.
\<close>

definition direct_stake :: "ForkChoice \<Rightarrow> slot \<Rightarrow> stake \<Rightarrow> ledger \<Rightarrow> ledger" where
  "direct_stake fc s st d = (if hm_get (forks fc) s = None then d else d(s := d s + st))"

lemma add_stake_reweighted:
  "reweighted (\<lambda>x w. if x = s then sat_add64 w st else w) (forks fc) (forks (add_stake fc s st)) \<and>
   validator_latest_votes (add_stake fc s st) = validator_latest_votes fc"
proof (cases "hm_get (forks fc) s")
  case None
  then show ?thesis by (auto simp: add_stake_def reweighted_def)
next
  case (Some f)
  let ?fs = "hm_insert s (f\<lparr>stake_weight := sat_add64 (stake_weight f) st\<rparr>) (forks fc)"
  have "reweighted (\<lambda>x w. if x = s then sat_add64 w st else w) (forks fc) ?fs"
    using Some same_shape_insert [OF Some] by (auto simp: reweighted_def hm_simps)
  from reweighted_trans [OF this, of "\<lambda>_ w. w"] update_confirmation_reweighted [of "fc\<lparr>forks := ?fs\<rparr>" s] Some
  show ?thesis by (simp add: add_stake_def comp_def)
qed

lemma lmd_add_stake:
  assumes inv: "lmd_with d fc" and bound: "stake_fits (direct_stake fc s st d) fc"
  shows "lmd_with (direct_stake fc s st d) (add_stake fc s st)"
proof -
  note rew = conjunct1 [OF add_stake_reweighted [of s st fc]] conjunct2 [OF add_stake_reweighted [of s st fc]]
  note shape = reweighted_shape [OF rew(1)]
  have "weight_of (forks (add_stake fc s st)) x = vote_weight fc x + direct_stake fc s st d x"
    if x: "hm_get (forks fc) x \<noteq> None" for x
  proof -
    have "vote_weight fc x + direct_stake fc s st d x \<le> u64_max"
      using bound x vote_weight_le_total [of fc x] unfolding stake_fits_def by (meson add_le_mono1 le_trans)
    then show ?thesis
      using reweighted_weight [OF rew(1) x] inv x
      by (auto simp: lmd_with_get direct_stake_def sat_add64_def)
  qed
  then show ?thesis
    using inv vote_weight_shape [OF shape rew(2)]
    by (simp add: lmd_with_get same_shape_wf [OF shape] same_shape_known [OF shape] rew(2))
qed

text \<open>Adding a slot nobody has voted for, directly or through a descendant.\<close>

lemma chain_cong:
  "(\<And>y. y \<in> set (chain par z) \<Longrightarrow> par' y = par y) \<Longrightarrow> chain par' z = chain par z"
proof (induction par z rule: chain.induct)
  case (1 par z)
  have z: "par' z = par z" using 1(2) by (simp add: chain.simps [of par z])
  show ?case
  proof (cases "par z")
    case None
    with z show ?thesis by (simp add: chain.simps [of par z] chain.simps [of par' z])
  next
    case (Some p)
    show ?thesis
    proof (cases "p < z")
      case True
      have "chain par' p = chain par p"
        by (rule 1(1) [OF Some True]) (use 1(2) Some True in \<open>simp add: chain.simps [of par z]\<close>)
      with z Some show ?thesis by (simp add: chain.simps [of par z] chain.simps [of par' z])
    next
      case False
      with z Some show ?thesis by (simp add: chain.simps [of par z] chain.simps [of par' z])
    qed
  qed
qed

lemma ancestry_insert_other:
  "s \<notin> set (ancestry fs z) \<Longrightarrow> ancestry (hm_insert s f fs) z = ancestry fs z"
  by (rule chain_cong) (auto simp: lower_parent_def parent_of_def hm_simps)

definition unvoted :: "ForkChoice \<Rightarrow> slot \<Rightarrow> bool" where
  "unvoted fc s \<longleftrightarrow> (\<forall>(v, z, st) \<in> set (validator_latest_votes fc). s \<notin> set (ancestry (forks fc) z))"

lemma vote_weight_add_fork:
  assumes "unvoted fc s"
  shows "vote_weight (add_fork fc s p) x = vote_weight fc x"
proof -
  have "ancestry (hm_insert s (fork_info_new s p) (forks fc)) z = ancestry (forks fc) z"
    if "(v, z, st) \<in> set (validator_latest_votes fc)" for v z st
    using that assms by (auto simp: unvoted_def intro: ancestry_insert_other)
  then show ?thesis
    unfolding vote_weight_def by (intro arg_cong [where f = sum_list]) (auto simp: add_fork_def)
qed

lemma lmd_add_fork:
  assumes inv: "lmd_with d fc" and new: "hm_get (forks fc) s = None"
    and par: "\<And>q. p = Some q \<Longrightarrow> q < s" and uv: "unvoted fc s"
  shows "lmd_with (d(s := 0)) (add_fork fc s p)"
proof -
  have "vote_weight fc s = 0"
    unfolding vote_weight_def using uv by (auto simp: sum_list_eq_0_iff unvoted_def)
  with inv par show ?thesis
    by (auto simp: lmd_with_get vote_weight_add_fork [OF uv])
       (auto simp: add_fork_def weight_of_insert fork_info_new_def forks_wf_get hm_simps split: if_splits)
qed

text \<open>Dropping slots, where the descendants of a kept slot are kept.\<close>

lemma ancestry_retain_mem:
  assumes "\<And>y. x \<in> set (ancestry fs y) \<Longrightarrow> hm_get fs y \<noteq> None \<Longrightarrow> K y"
  shows "x \<in> set (ancestry (hm_retain (\<lambda>s _. K s) fs) z) \<longleftrightarrow> x \<in> set (ancestry fs z)"
proof (induction z rule: ft.chain_induct [where fs = fs])
  case (step z)
  let ?fs = "hm_retain (\<lambda>s _. K s) fs"
  have kept: "lower_parent ?fs z = (if K z then lower_parent fs z else None)"
    by (simp add: lower_parent_def parent_of_def hm_simps)
  show ?case
  proof (cases "lower_parent fs z")
    case None
    with kept show ?thesis by (simp add: ft.chain_root)
  next
    case (Some p)
    then have known: "hm_get fs z \<noteq> None"
      by (auto simp: lower_parent_def parent_of_def bind_eq_Some_conv split: option.splits)
    show ?thesis
    proof (cases "K z")
      case True
      with kept Some have "lower_parent ?fs z = Some p" by simp
      with step [OF Some] show ?thesis by (simp add: ft.chain_parent Some)
    next
      case False
      with assms [of z] known have "x \<notin> set (ancestry fs z)" by blast
      moreover from this have "x \<noteq> z" using ft.self_in_chain by metis
      ultimately show ?thesis using kept False by (simp add: ft.chain_root)
    qed
  qed
qed

lemma forks_wf_retain: "forks_wf fs \<Longrightarrow> forks_wf (hm_retain P fs)"
  by (auto simp: forks_wf_def hm_retain_def distinct_map_filter)

lemma lmd_retain:
  assumes inv: "lmd_with d fc"
    and closed: "\<And>x y. K x \<Longrightarrow> x \<in> set (ancestry (forks fc) y) \<Longrightarrow> hm_get (forks fc) y \<noteq> None \<Longrightarrow> K y"
    and votes: "\<And>v z st. Q v (z, st) \<or> \<not> K z \<or> hm_get (forks fc) z = None"
  shows "lmd_with d (fc\<lparr>forks := hm_retain (\<lambda>s _. K s) (forks fc),
                     validator_latest_votes := hm_retain Q (validator_latest_votes fc)\<rparr>)" (is "lmd_with d ?fc")
proof -
  have "weight_of (forks ?fc) x = vote_weight ?fc x + d x" if x: "hm_get (forks ?fc) x \<noteq> None" for x
  proof -
    from x have known: "hm_get (forks fc) x \<noteq> None" and K: "K x"
      by (auto simp: hm_get_retain_key split: if_splits)
    have mem: "x \<in> set (ancestry (forks ?fc) z) \<longleftrightarrow> x \<in> set (ancestry (forks fc) z)" for z
      using ancestry_retain_mem [of x "forks fc" K z] closed [OF K] by simp
    have "x \<notin> set (ancestry (forks fc) z)" if "\<not> Q v (z, st)" for v z st
    proof (cases "hm_get (forks fc) z")
      case None
      with known show ?thesis by (auto simp: ancestry_unknown)
    next
      case Some
      with votes [of v z st] that closed [OF K, of z] show ?thesis by auto
    qed
    then have "sum_list (map (vote_counts (forks fc) x) (hm_retain Q (validator_latest_votes fc))) =
        sum_list (map (vote_counts (forks fc) x) (validator_latest_votes fc))"
      by (intro sum_list_retain) auto
    with mem have "vote_weight ?fc x = vote_weight fc x" by (simp add: vote_weight_def)
    moreover have "weight_of (forks ?fc) x = weight_of (forks fc) x"
      using K by (simp add: weight_of_def hm_get_retain_key)
    ultimately show ?thesis using inv known by (simp add: lmd_with_get)
  qed
  then show ?thesis using inv by (simp add: lmd_with_get forks_wf_retain)
qed

lemma lmd_set_root:
  assumes "lmd_with d fc"
  shows "lmd_with d (fc_set_root fc r)"
proof -
  have "hm_retain (\<lambda>_ _. True) (validator_latest_votes fc) = validator_latest_votes fc"
    by (simp add: hm_retain_def)
  then show ?thesis
    using lmd_retain [OF assms, of "\<lambda>s. r \<le> s" "\<lambda>_ _. True"] ft.chain_le
    by (fastforce simp: fc_set_root_def)
qed

lemma filter_opt_total: "(\<And>x. x \<in> set xs \<Longrightarrow> P x = Some (Q x)) \<Longrightarrow> filter_opt P xs = Some (filter Q xs)"
  by (induction xs) auto

lemma prune_spec:
  assumes "forks_wf (forks fc)"
  shows "prune_non_descendants fc r =
     Some (fc\<lparr>forks := hm_retain (\<lambda>s _. r \<in> set (ancestry (forks fc) s)) (forks fc),
              validator_latest_votes :=
                hm_retain (\<lambda>_ (z, _). hm_get (forks fc) z \<noteq> None \<and> r \<in> set (ancestry (forks fc) z))
                  (validator_latest_votes fc)\<rparr>)"
proof -
  let ?P = "\<lambda>s. r \<in> set (ancestry (forks fc) s)"
  have f: "filter_opt (\<lambda>s. if s = r then Some True else is_descendant fc s r) (map fst (forks fc)) =
        Some (filter ?P (map fst (forks fc)))"
    by (rule filter_opt_total) (auto simp: is_descendant_ancestry [OF assms] ft.self_in_chain)
  have r: "hm_retain (\<lambda>s _. s \<in> set (filter ?P (map fst (forks fc)))) (forks fc) = hm_retain (\<lambda>s _. ?P s) (forks fc)"
    unfolding hm_retain_def by (rule filter_cong) force+
  have g: "(\<lambda>(_::Pubkey) (z, _::nat). hm_get (hm_retain (\<lambda>s _. ?P s) (forks fc)) z \<noteq> None) =
        (\<lambda>_ (z, _). hm_get (forks fc) z \<noteq> None \<and> ?P z)"
    by (auto simp: hm_get_retain_key fun_eq_iff)
  show ?thesis unfolding prune_non_descendants_def f by (simp only: bind.simps Let_def r g)
qed

lemma lmd_prune:
  assumes "lmd_with d fc" "prune_non_descendants fc r = Some fc'"
  shows "lmd_with d fc'"
proof -
  have wf: "forks_wf (forks fc)" using assms by (simp add: lmd_with_def)
  have "lmd_with d (fc\<lparr>forks := hm_retain (\<lambda>s _. r \<in> set (ancestry (forks fc) s)) (forks fc),
              validator_latest_votes :=
                hm_retain (\<lambda>_ (z, _). hm_get (forks fc) z \<noteq> None \<and> r \<in> set (ancestry (forks fc) z))
                  (validator_latest_votes fc)\<rparr>)"
  proof (rule lmd_retain [OF assms(1)])
    show "r \<in> set (ancestry (forks fc) y)"
      if "r \<in> set (ancestry (forks fc) x)" "x \<in> set (ancestry (forks fc) y)" for x y
      using that by (rule ft.chain_trans)
  qed auto
  then show ?thesis using assms(2) prune_spec [OF wf, of r] by simp
qed

subsection \<open>The GHOST rule\<close>

text \<open>
  The rule as a relation on lookups alone: from a slot to its best valid child, the heaviest
  and among equals the lowest. Both loops of the code follow it to a slot without valid
  children, whatever the iteration order of the map.
\<close>

definition valid_child :: "forks_map \<Rightarrow> slot \<Rightarrow> slot \<Rightarrow> bool" where
  "valid_child fs p c \<longleftrightarrow> (case hm_get fs c of None \<Rightarrow> False | Some f \<Rightarrow> parent f = Some p \<and> valid f)"

inductive ghost_step :: "forks_map \<Rightarrow> slot \<Rightarrow> slot \<Rightarrow> bool" for fs where
  best_child: "valid_child fs p c \<Longrightarrow> (\<And>d. valid_child fs p d \<Longrightarrow> d = c \<or> cmp_greater fs c d) \<Longrightarrow> ghost_step fs p c"

inductive_cases ghost_stepE: "ghost_step fs p c"

definition ghost_tip :: "forks_map \<Rightarrow> slot \<Rightarrow> slot \<Rightarrow> bool" where
  "ghost_tip fs r t \<longleftrightarrow> (ghost_step fs)\<^sup>*\<^sup>* r t \<and> (\<forall>c. \<not> valid_child fs t c)"

lemma cmp_greater_asym: "cmp_greater fs a b \<Longrightarrow> \<not> cmp_greater fs b a"
  by (auto simp: cmp_greater_def)

lemma cmp_greater_total: "a \<noteq> b \<Longrightarrow> cmp_greater fs a b \<or> cmp_greater fs b a"
  by (auto simp: cmp_greater_def)

lemma cmp_greater_trans: "cmp_greater fs a b \<Longrightarrow> cmp_greater fs b c \<Longrightarrow> cmp_greater fs a c"
  by (auto simp: cmp_greater_def)

lemma valid_children_iff: "hm_wf fs \<Longrightarrow> c \<in> set (valid_children fs p) \<longleftrightarrow> valid_child fs p c"
proof -
  assume wf: "hm_wf fs"
  have "c \<in> set (valid_children fs p) \<longleftrightarrow> (\<exists>f. (c, f) \<in> set fs \<and> parent f = Some p \<and> valid f)"
    unfolding valid_children_def by force
  also have "\<dots> \<longleftrightarrow> (\<exists>f. hm_get fs c = Some f \<and> parent f = Some p \<and> valid f)"
    by (simp only: hm_mem_get [OF wf])
  also have "\<dots> \<longleftrightarrow> valid_child fs p c"
    by (cases "hm_get fs c") (simp_all add: valid_child_def)
  finally show ?thesis .
qed

lemma foldl_best:
  fixes fs :: forks_map and pick :: "slot \<Rightarrow> slot \<Rightarrow> slot"
  defines "pick \<equiv> \<lambda>best c. if cmp_greater fs best c then best else c"
  shows "foldl pick c cs \<in> set (c # cs) \<and>
         (\<forall>d \<in> set (c # cs). d = foldl pick c cs \<or> cmp_greater fs (foldl pick c cs) d)"
proof (induction cs arbitrary: c)
  case (Cons x cs)
  have "pick c x \<in> {c, x}" "c = pick c x \<or> cmp_greater fs (pick c x) c"
    "x = pick c x \<or> cmp_greater fs (pick c x) x"
    using cmp_greater_total [of c x fs] by (auto simp: pick_def)
  with Cons [of "pick c x"] show ?case by (auto intro: cmp_greater_trans)
qed simp

lemma scan_children_foldl:
  "fst (scan_children fs cs (c, weight_of fs c)) =
     foldl (\<lambda>best c. if cmp_greater fs best c then best else c) c cs"
proof (induction cs arbitrary: c)
  case (Cons x cs)
  have "(weight_of fs x > weight_of fs c \<or> weight_of fs x = weight_of fs c \<and> x < c) \<longleftrightarrow>
        \<not> cmp_greater fs c x \<and> x \<noteq> c"
    by (auto simp: cmp_greater_def)
  then show ?case using Cons [of x] Cons [of c] by (cases "x = c") (auto simp: Let_def)
qed simp

lemma max_by_child_step:
  assumes "hm_wf fs"
  shows "max_by_child fs (valid_children fs p) = None \<longleftrightarrow> (\<forall>c. \<not> valid_child fs p c)"
    and "max_by_child fs (valid_children fs p) = Some c \<longleftrightarrow> ghost_step fs p c"
proof -
  let ?cs = "valid_children fs p"
  show "max_by_child fs ?cs = None \<longleftrightarrow> (\<forall>c. \<not> valid_child fs p c)"
    using valid_children_iff [OF assms, of _ p] by (cases ?cs) auto
  show "max_by_child fs ?cs = Some c \<longleftrightarrow> ghost_step fs p c"
  proof (cases ?cs)
    case Nil
    then show ?thesis using valid_children_iff [OF assms, of _ p] by (auto elim: ghost_stepE)
  next
    case (Cons x xs)
    define m where "m = foldl (\<lambda>best c. if cmp_greater fs best c then best else c) x xs"
    have m: "valid_child fs p m" "\<And>d. valid_child fs p d \<Longrightarrow> d = m \<or> cmp_greater fs m d"
      using foldl_best [where fs = fs and c = x and cs = xs]
      by (simp_all only: m_def [symmetric] Cons [symmetric] valid_children_iff [OF assms] Ball_def)
    then have "ghost_step fs p m" by (rule best_child)
    moreover have "ghost_step fs p c \<Longrightarrow> c = m"
      using m by (auto elim!: ghost_stepE dest: cmp_greater_asym)
    ultimately show ?thesis using Cons by (auto simp: m_def)
  qed
qed

lemma ghost_step_less: "forks_wf fs \<Longrightarrow> ghost_step fs p c \<Longrightarrow> p < c \<and> c \<in> fst ` set fs"
  by (auto simp: valid_child_def forks_wf_get hm_get_keys elim!: ghost_stepE split: option.splits)

lemma ghost_step_det: "ghost_step fs p c \<Longrightarrow> ghost_step fs p d \<Longrightarrow> c = d"
  by (auto elim!: ghost_stepE dest: cmp_greater_asym)

lemma heaviest_fork_loop_max_by:
  "heaviest_fork_loop fs r =
     (case max_by_child fs (valid_children fs r) of None \<Rightarrow> Some r | Some c \<Rightarrow> heaviest_fork_loop fs c)"
  by (subst heaviest_fork_loop.simps) (auto simp: scan_children_foldl split: list.splits)

lemma ghost_loops:
  assumes "forks_wf fs"
  shows "\<exists>t. best_fork_loop fs r = Some t \<and> heaviest_fork_loop fs r = Some t \<and> ghost_tip fs r t"
proof (induction "card {k \<in> fst ` set fs. r < k}" arbitrary: r rule: less_induct)
  case less
  have wf: "hm_wf fs" using assms by (simp add: forks_wf_def)
  show ?case
  proof (cases "max_by_child fs (valid_children fs r)")
    case None
    then have "ghost_tip fs r r" using max_by_child_step(1) [OF wf] by (auto simp: ghost_tip_def)
    with None show ?thesis by (auto simp: best_fork_loop.simps heaviest_fork_loop_max_by)
  next
    case (Some c)
    then have step: "ghost_step fs r c" using max_by_child_step(2) [OF wf] by simp
    from ghost_step_less [OF assms this]
    have "{k \<in> fst ` set fs. c < k} \<subset> {k \<in> fst ` set fs. r < k}" by auto
    then have "card {k \<in> fst ` set fs. c < k} < card {k \<in> fst ` set fs. r < k}"
      by (intro psubset_card_mono) auto
    from less [OF this] obtain t where
      "best_fork_loop fs c = Some t" "heaviest_fork_loop fs c = Some t" "ghost_tip fs c t" by blast
    with Some step show ?thesis
      by (subst best_fork_loop.simps, subst heaviest_fork_loop_max_by)
         (auto simp: ghost_tip_def intro: converse_rtranclp_into_rtranclp)
  qed
qed

lemma ghost_tip_unique:
  assumes "ghost_tip fs r t" "ghost_tip fs r u"
  shows "t = u"
proof -
  from assms(1) have "(ghost_step fs)\<^sup>*\<^sup>* r t" by (simp add: ghost_tip_def)
  then show ?thesis using assms
  proof (induction rule: converse_rtranclp_induct)
    case base
    then have "(ghost_step fs)\<^sup>*\<^sup>* t u" "\<And>c. \<not> ghost_step fs t c"
      by (auto simp: ghost_tip_def elim: ghost_stepE)
    then show ?case by (metis converse_rtranclpE)
  next
    case (step y z)
    have "y \<noteq> u" using step by (auto simp: ghost_tip_def elim: ghost_stepE)
    with step.prems(2) obtain z' where z': "ghost_step fs y z'" "(ghost_step fs)\<^sup>*\<^sup>* z' u"
      by (auto simp: ghost_tip_def elim: converse_rtranclpE)
    with step.hyps(1) have "z' = z" using ghost_step_det by blast
    with step z' show ?case by (auto simp: ghost_tip_def)
  qed
qed

lemma ghost_tip_cong:
  assumes "\<And>s. hm_get fs s = hm_get fs' s"
  shows "ghost_tip fs = ghost_tip fs'"
proof -
  have "valid_child fs = valid_child fs'" "cmp_greater fs = cmp_greater fs'"
    using assms by (auto simp: valid_child_def cmp_greater_def weight_of_def fun_eq_iff)
  moreover from this have "ghost_step fs = ghost_step fs'"
    by (auto simp: fun_eq_iff ghost_step.simps)
  ultimately show ?thesis by (simp add: ghost_tip_def [abs_def])
qed

text \<open>
  A slot with more than half of the recorded stake lies on the selected fork: along the path to
  it the weights of the siblings are below one half.
\<close>

lemma sibling_weights:
  assumes wf: "forks_wf (forks fc)" and "valid_child (forks fc) p c" "valid_child (forks fc) p d" "c \<noteq> d"
  shows "vote_weight fc c + vote_weight fc d \<le> votes_total fc"
proof -
  have lp: "lower_parent (forks fc) c = Some p" "lower_parent (forks fc) d = Some p"
    using assms by (auto simp: valid_child_def parent_of_lower [symmetric] parent_of_get split: option.splits)
  show ?thesis
    unfolding vote_weight_def votes_total_def sum_list_addf [symmetric]
    by (rule sum_list_mono) (use ft.siblings_disjoint [OF lp] \<open>c \<noteq> d\<close> in \<open>auto split: prod.splits\<close>)
qed

lemma ghost_follows_majority:
  assumes inv: "lmd_inv fc" and maj: "votes_total fc < 2 * vote_weight fc x"
    and path: "\<And>y. y \<in> set (ancestry (forks fc) x) \<Longrightarrow> r < y \<Longrightarrow> \<exists>f. hm_get (forks fc) y = Some f \<and> valid f"
    and r: "r \<in> set (ancestry (forks fc) x)"
  shows "(ghost_step (forks fc))\<^sup>*\<^sup>* r x"
  using r path
proof (induction "x - r" arbitrary: r rule: less_induct)
  case less
  let ?fs = "forks fc"
  have wf: "forks_wf ?fs" using inv by (simp add: lmd_with_def)
  show ?case
  proof (cases "r = x")
    case False
    from ft.child_towards [OF less.prems(1) False]
    obtain c where c: "c \<in> set (ancestry ?fs x)" "lower_parent ?fs c = Some r" by blast
    have rc: "r < c" "c \<le> x" using ft.par_less [OF c(2)] ft.chain_le [OF c(1)] by auto
    from less.prems(2) [OF c(1) rc(1)] obtain f where f: "hm_get ?fs c = Some f" "valid f" by blast
    then have vc: "valid_child ?fs r c"
      using c(2) by (simp add: valid_child_def parent_of_lower [OF wf, symmetric] parent_of_get)
    have heavy: "votes_total fc < 2 * vote_weight fc c" using vote_weight_mono [OF c(1)] maj by linarith
    have "d = c \<or> cmp_greater ?fs c d" if d: "valid_child ?fs r d" for d
    proof (cases "d = c")
      case False
      have "weight_of ?fs c = vote_weight fc c" "weight_of ?fs d = vote_weight fc d"
        using inv f d by (auto simp: lmd_with_get valid_child_def split: option.splits)
      with sibling_weights [OF wf vc d] False heavy show ?thesis by (simp add: cmp_greater_def)
    qed simp
    with vc have "ghost_step ?fs r c" by (rule best_child)
    moreover have "(ghost_step ?fs)\<^sup>*\<^sup>* c x"
      using less.hyps [of c] rc c(1) less.prems(2) by auto
    ultimately show ?thesis by (rule converse_rtranclp_into_rtranclp)
  qed simp
qed

lemma ghost_steps_ancestry:
  assumes "forks_wf fs" "(ghost_step fs)\<^sup>*\<^sup>* r t"
  shows "r \<in> set (ancestry fs t)"
  using assms(2)
proof (induction rule: rtranclp_induct)
  case (step y z)
  then have "lower_parent fs z = Some y"
    using assms(1) by (auto simp: valid_child_def parent_of_lower [symmetric] parent_of_get elim!: ghost_stepE split: option.splits)
  with step.IH show ?case by (simp add: ft.chain_parent)
qed (simp add: ft.self_in_chain)

lemma ghost_tip_through:
  assumes "ghost_tip fs r t" "(ghost_step fs)\<^sup>*\<^sup>* r x"
  shows "(ghost_step fs)\<^sup>*\<^sup>* x t"
  using assms(2,1)
proof (induction rule: rtranclp_induct)
  case (step y z)
  then have yt: "(ghost_step fs)\<^sup>*\<^sup>* y t" by simp
  moreover have "y \<noteq> t" using step by (auto simp: ghost_tip_def elim: ghost_stepE)
  ultimately obtain z' where "ghost_step fs y z'" "(ghost_step fs)\<^sup>*\<^sup>* z' t"
    by (auto elim: converse_rtranclpE)
  with step ghost_step_det show ?case by blast
qed (simp add: ghost_tip_def)

subsection \<open>Supermajority\<close>

abbreviation supermajority :: "stake \<Rightarrow> stake \<Rightarrow> bool" where
  "supermajority ts w \<equiv> 0 < ts \<and> f64_ge (f64_ratio w ts) SUPERMAJORITY_THRESHOLD"

text \<open>The rounding of the floating-point test costs less than the margin between 2/3 and 5/8.\<close>

lemma supermajority_weight:
  assumes "supermajority ts w"
  shows "5 * ts \<le> 8 * w" and "ts < 2 * w"
proof -
  define e where "e = 2 * ts div 2 ^ 51"
  from assms have ge: "2 * ts \<le> 3 * w + e"
    using f64_ratio_ge_sound [of ts 3 w 2] by (simp add: SUPERMAJORITY_THRESHOLD_def e_def)
  have "2 ^ 51 * e \<le> 2 * ts" unfolding e_def by (rule times_div_less_eq_dividend)
  then have e: "8 * e \<le> ts" by simp
  show "5 * ts \<le> 8 * w" using ge e by linarith
  show "ts < 2 * w" using ge e assms by linarith
qed

interpretation smq: weighted_quorums ts "max 1 (ts div 4)" "supermajority ts" "supermajority ts" for ts
proof
  fix a b assume "supermajority ts a" "supermajority ts b"
  from supermajority_weight [OF this(1)] supermajority_weight [OF this(2)]
  show "ts + max 1 (ts div 4) \<le> a + b" by (simp add: max_def) linarith
qed

lemma vote_weight_filter:
  "vote_weight fc x = sum_list (map (\<lambda>(v, s, st). st)
     (filter (\<lambda>(v, s, st). x \<in> set (ancestry (forks fc) s)) (validator_latest_votes fc)))"
  unfolding vote_weight_def sum_list_filter_if
  by (rule arg_cong [where f = sum_list]) auto

lemma supermajority_compatible:
  assumes inv: "lmd_inv fc" and le: "votes_total fc \<le> total_stake fc"
    and x: "hm_get (forks fc) x \<noteq> None" "supermajority (total_stake fc) (weight_of (forks fc) x)"
    and y: "hm_get (forks fc) y \<noteq> None" "supermajority (total_stake fc) (weight_of (forks fc) y)"
    and "x \<le> y"
  shows "x \<in> set (ancestry (forks fc) y)"
proof -
  have "weight_of (forks fc) x = vote_weight fc x" "weight_of (forks fc) y = vote_weight fc y"
    using inv x y by (simp_all add: lmd_with_get)
  with x y have "supermajority (total_stake fc) (vote_weight fc x)" "supermajority (total_stake fc) (vote_weight fc y)"
    by simp_all
  moreover have "0 < max 1 (total_stake fc div 4)" by simp
  ultimately obtain u where "case u of (v, s, st) \<Rightarrow> x \<in> set (ancestry (forks fc) s)"
    "case u of (v, s, st) \<Rightarrow> y \<in> set (ancestry (forks fc) s)"
    using smq.shared_voter [OF le [unfolded votes_total_def]] unfolding vote_weight_filter by blast
  then obtain s where "x \<in> set (ancestry (forks fc) s)" "y \<in> set (ancestry (forks fc) s)"
    by (auto split: prod.splits)
  then show ?thesis using \<open>x \<le> y\<close> by (rule ft.chain_linear)
qed

lemma compute_supermajority_root_spec:
  fixes fc cr
  defines "S \<equiv> {s. \<exists>f. (s, f) \<in> set (forks fc) \<and> (\<forall>r. cr = Some r \<longrightarrow> r < s) \<and>
                       supermajority (total_stake fc) (stake_weight f)}"
  shows "compute_supermajority_root fc cr = (if S = {} then cr else Some (Max S))"
proof (cases "total_stake fc = 0")
  case False
  define step where "step = (\<lambda>(s, f :: ForkInfo) candidate.
             if (case cr of Some r \<Rightarrow> s \<le> r | None \<Rightarrow> False) then candidate
             else if f64_ge (f64_ratio (stake_weight f) (total_stake fc)) SUPERMAJORITY_THRESHOLD
             then Some (case candidate of Some c \<Rightarrow> max c s | None \<Rightarrow> s)
             else candidate)"
  define sel where "sel = (\<lambda>fs :: forks_map. {s. \<exists>f. (s, f) \<in> set fs \<and> (\<forall>r. cr = Some r \<longrightarrow> r < s) \<and>
                       supermajority (total_stake fc) (stake_weight f)})"
  have fin: "finite (sel fs)" for fs
    by (rule finite_subset [of _ "fst ` set fs"]) (force simp: sel_def)+
  have sel_Cons: "sel ((s, f) # fs) = (if (case cr of Some r \<Rightarrow> s \<le> r | None \<Rightarrow> False) \<or>
      \<not> f64_ge (f64_ratio (stake_weight f) (total_stake fc)) SUPERMAJORITY_THRESHOLD
      then sel fs else insert s (sel fs))" for s f fs
    using False by (auto simp: sel_def split: option.splits)
  have gt: "s \<in> sel fs \<Longrightarrow> cr = Some r \<Longrightarrow> r < s" for s r fs by (auto simp: sel_def)
  have "fold step fs acc = (if sel fs = {} then acc else
          Some (case acc of None \<Rightarrow> Max (sel fs) | Some c \<Rightarrow> max c (Max (sel fs))))" for fs acc
  proof (induction fs arbitrary: acc)
    case (Cons p fs)
    obtain s f where p: "p = (s, f)" by (cases p)
    from Cons [of "step (s, f) acc"] fin [of fs] show ?case
      by (auto simp: p sel_Cons step_def max.assoc max.left_commute split: option.splits)
  qed (simp add: sel_def)
  moreover have sel_S: "sel (forks fc) = S" by (simp add: sel_def S_def)
  ultimately have *: "fold step (forks fc) cr = (if S = {} then cr else
          Some (case cr of None \<Rightarrow> Max S | Some c \<Rightarrow> max c (Max S)))"
    by metis
  have "S \<noteq> {} \<Longrightarrow> cr = Some r \<Longrightarrow> max r (Max S) = Max S" for r
    using gt [of "Max S" "forks fc" r] Max_in [of S] fin [of "forks fc"] by (simp add: sel_S max_def)
  moreover have "compute_supermajority_root fc cr = fold step (forks fc) cr"
    using False by (simp add: compute_supermajority_root_def step_def)
  ultimately show ?thesis using * by (cases cr) auto
qed (simp add: compute_supermajority_root_def S_def)

subsection \<open>Runs of the fork choice\<close>

text \<open>
  The operations of the interface in any order, with the ledger of the stake added directly. A
  slot's parent is a lower slot. With \<open>strict\<close>, a slot is registered once and before any vote
  for it or for a slot below it in the tree is recorded, and the stakes fit in 64 bits; without it,
  slots may also be registered again, under another parent or after votes for them, and the
  weights may saturate.
\<close>

inductive fc_step :: "bool \<Rightarrow> ForkChoice \<times> ledger \<Rightarrow> ForkChoice \<times> ledger \<Rightarrow> bool" for strict where
  step_add: "(case p of None \<Rightarrow> True | Some q \<Rightarrow> q < s) \<Longrightarrow>
     (strict \<Longrightarrow> hm_get (forks fc) s = None \<and> unvoted fc s) \<Longrightarrow>
     fc_step strict (fc, d) (add_fork fc s p, d(s := 0))"
| step_stake: "(strict \<Longrightarrow> stake_fits (direct_stake fc s st d) fc) \<Longrightarrow>
     fc_step strict (fc, d) (add_stake fc s st, direct_stake fc s st d)"
| step_vote: "(strict \<Longrightarrow> stake_fits d (insert_vote fc v (s, st))) \<Longrightarrow>
     record_validator_vote fc v s st = Some fc' \<Longrightarrow> fc_step strict (fc, d) (fc', d)"
| step_total: "fc_step strict (fc, d) (update_total_stake fc n, d)"
| step_eqvoc: "fc_step strict (fc, d) (mark_equivocating fc s, d)"
| step_dup: "fc_step strict (fc, d) (mark_duplicate_confirmed fc s, d)"
| step_best: "compute_best_fork fc r = Some (fc', b) \<Longrightarrow> fc_step strict (fc, d) (fc', d)"
| step_heaviest: "select_heaviest_fork fc r = Some (fc', b) \<Longrightarrow> fc_step strict (fc, d) (fc', d)"
| step_root: "fc_step strict (fc, d) (fc_set_root fc r, d)"
| step_prune: "prune_non_descendants fc r = Some fc' \<Longrightarrow> fc_step strict (fc, d) (fc', d)"

definition flags_ok :: "ForkInfo \<Rightarrow> bool" where
  "flags_ok f \<longleftrightarrow> valid f = (\<not> eqvoc f \<or> duplicate_confirmed f)"

definition flags_inv :: "forks_map \<Rightarrow> bool" where
  "flags_inv fs \<longleftrightarrow> (\<forall>(s, f) \<in> set fs. flags_ok f)"

definition tree_inv :: "ForkChoice \<Rightarrow> bool" where
  "tree_inv fc \<longleftrightarrow> forks_wf (forks fc) \<and> flags_inv (forks fc)"

fun fc_inv :: "bool \<Rightarrow> ForkChoice \<times> ledger \<Rightarrow> bool" where
  "fc_inv strict (fc, d) \<longleftrightarrow> tree_inv fc \<and> (strict \<longrightarrow> lmd_with d fc)"

lemma flags_inv_get: "hm_wf fs \<Longrightarrow> flags_inv fs \<longleftrightarrow> (\<forall>s f. hm_get fs s = Some f \<longrightarrow> flags_ok f)"
  by (auto simp: flags_inv_def)

lemma flags_inv_insert: "flags_inv fs \<Longrightarrow> flags_ok f \<Longrightarrow> flags_inv (hm_insert s f fs)"
  by (induction fs) (auto simp: flags_inv_def)

lemma flags_inv_reweighted:
  assumes "flags_inv fs" "reweighted w fs fs'" "hm_wf fs"
  shows "flags_inv fs'"
proof -
  have keys: "map fst fs' = map fst fs" using same_shape_keys [OF reweighted_shape [OF assms(2)]] by simp
  have "flags_ok f'" if f': "hm_get fs' s = Some f'" for s f'
  proof -
    obtain f where f: "hm_get fs s = Some f"
      using f' same_shape_known [OF reweighted_shape [OF assms(2)], of s] by fastforce
    with assms(1,3) have "flags_ok f" by (auto simp: flags_inv_def)
    moreover have "eqvoc f' = eqvoc f \<and> duplicate_confirmed f' = duplicate_confirmed f \<and> valid f' = valid f"
      using assms(2) f f' unfolding reweighted_def by (metis option.inject)
    ultimately show ?thesis by (simp add: flags_ok_def)
  qed
  then show ?thesis using assms(3) keys by (simp add: flags_inv_get)
qed

lemma flags_inv_retain: "flags_inv fs \<Longrightarrow> flags_inv (hm_retain P fs)"
  by (auto simp: flags_inv_def hm_retain_def)

lemma tree_inv_wf: "tree_inv fc \<Longrightarrow> hm_wf (forks fc) \<and> forks_wf (forks fc)"
  by (simp add: tree_inv_def forks_wf_def)

lemma tree_inv_reweighted:
  assumes "tree_inv fc" "reweighted w (forks fc) (forks fc')"
  shows "tree_inv fc'"
  using assms flags_inv_reweighted [OF _ assms(2)] same_shape_wf [OF reweighted_shape [OF assms(2)]]
    tree_inv_wf [OF assms(1)] by (simp add: tree_inv_def)

lemma record_vote_reweighted:
  assumes "forks_wf (forks fc)"
  shows "\<exists>fc' w. record_validator_vote fc v s st = Some fc' \<and> reweighted w (forks fc) (forks fc')"
proof (cases "hm_get (validator_latest_votes fc) v = Some (s, st)")
  case True
  have "reweighted (\<lambda>_ w. w) (forks fc) (forks fc)" by (simp add: reweighted_def)
  with True show ?thesis by (auto simp: record_validator_vote_replace)
next
  case False
  with replace_vote_spec [OF assms, of v s st] show ?thesis
    by (auto simp: record_validator_vote_replace)
qed

lemma tree_inv_total_stake: "tree_inv fc \<Longrightarrow> tree_inv (update_total_stake fc n)"
proof -
  have "tree_inv fc \<Longrightarrow> tree_inv (fold (\<lambda>s fc. update_confirmation fc s) ss fc)" for ss fc
    by (induction ss arbitrary: fc) (auto intro: tree_inv_reweighted [OF _ update_confirmation_reweighted])
  then show "tree_inv fc \<Longrightarrow> tree_inv (update_total_stake fc n)"
    by (simp add: update_total_stake_def tree_inv_def)
qed

lemma tree_inv_insert:
  assumes "tree_inv fc" "flags_ok f" "\<And>q. parent f = Some q \<Longrightarrow> q < s" "fi_slot f = s"
  shows "tree_inv (fc\<lparr>forks := hm_insert s f (forks fc)\<rparr>)"
  using assms by (auto simp: tree_inv_def forks_wf_get hm_simps flags_inv_insert split: if_splits)

lemma tree_inv_marks:
  assumes "tree_inv fc"
  shows "tree_inv (mark_equivocating fc s)" and "tree_inv (mark_duplicate_confirmed fc s)"
proof -
  have ok: "flags_ok f" "\<And>q. parent f = Some q \<Longrightarrow> q < s" "fi_slot f = s" if "hm_get (forks fc) s = Some f" for f
    using that assms tree_inv_wf [OF assms] hm_get_mem by (fastforce simp: tree_inv_def flags_inv_def forks_wf_get)+
  show "tree_inv (mark_equivocating fc s)" and "tree_inv (mark_duplicate_confirmed fc s)"
    using assms ok unfolding mark_equivocating_def mark_duplicate_confirmed_def Let_def
    by (auto simp: flags_ok_def intro!: tree_inv_insert split: option.splits)
qed

lemma tree_inv_retain:
  "tree_inv fc \<Longrightarrow> tree_inv (fc\<lparr>forks := hm_retain P (forks fc)\<rparr>)"
  by (simp add: tree_inv_def forks_wf_retain flags_inv_retain)

lemma selection_inv:
  assumes "compute_best_fork fc r = Some (fc', b) \<or> select_heaviest_fork fc r = Some (fc', b)"
  shows "tree_inv fc' \<longleftrightarrow> tree_inv fc" and "lmd_with d fc' \<longleftrightarrow> lmd_with d fc"
proof -
  have "fc' = fc \<or> (\<exists>x. fc' = fc\<lparr>best_slot := x\<rparr>)"
    using assms by (auto simp: compute_best_fork_def select_heaviest_fork_def bind_eq_Some_conv split: if_splits)
  then show "tree_inv fc' \<longleftrightarrow> tree_inv fc" and "lmd_with d fc' \<longleftrightarrow> lmd_with d fc"
    by (auto simp: tree_inv_def)
qed

lemma tree_inv_step:
  assumes "tree_inv fc" "fc_step strict (fc, d) (fc', d')"
  shows "tree_inv fc'"
  using assms(2,1)
proof cases
  case (step_add p s)
  show ?thesis
    unfolding step_add(1) add_fork_def
    by (rule tree_inv_insert [OF assms(1)])
       (use step_add(3) in \<open>auto simp: fork_info_new_def flags_ok_def split: option.splits\<close>)
next
  case (step_stake s st)
  then show ?thesis using tree_inv_reweighted [OF assms(1)] add_stake_reweighted [of s st fc] by blast
next
  case (step_vote v s st)
  then show ?thesis
    using tree_inv_reweighted [OF assms(1)] record_vote_reweighted [of fc v s st] tree_inv_wf [OF assms(1)] by auto
next
  case (step_root r)
  then show ?thesis using tree_inv_retain [OF assms(1)] by (simp add: fc_set_root_def)
next
  case (step_prune r)
  have "forks fc' = hm_retain (\<lambda>s _. r \<in> set (ancestry (forks fc) s)) (forks fc)"
    using step_prune prune_spec [of fc r] tree_inv_wf [OF assms(1)] by auto
  with assms(1) show ?thesis by (simp add: tree_inv_def forks_wf_retain flags_inv_retain)
next
  case (step_best r b)
  then show ?thesis using selection_inv(1) assms(1) by blast
next
  case (step_heaviest r b)
  then show ?thesis using selection_inv(1) assms(1) by blast
qed (simp_all add: tree_inv_total_stake tree_inv_marks assms(1))

lemma lmd_step:
  assumes "lmd_with d fc" "fc_step True (fc, d) (fc', d')"
  shows "lmd_with d' fc'"
  using assms(2,1)
proof cases
  case (step_add p s)
  then show ?thesis using lmd_add_fork [OF assms(1), of s p] by (cases p) auto
next
  case (step_stake s st)
  then show ?thesis using lmd_add_stake [OF assms(1)] by simp
next
  case (step_vote v s st)
  then show ?thesis using record_validator_vote_lmd [OF assms(1), of v s st] by auto
next
  case (step_best r b)
  then show ?thesis using selection_inv(2) assms(1) by blast
next
  case (step_heaviest r b)
  then show ?thesis using selection_inv(2) assms(1) by blast
next
  case (step_prune r)
  then show ?thesis using lmd_prune [OF assms(1)] by simp
qed (simp_all add: lmd_update_total_stake lmd_flags lmd_set_root assms(1))

interpretation fc_run: invariant_steps "fc_step strict" "fc_inv strict" for strict
proof
  fix x y assume "fc_inv strict x" and step: "fc_step strict x y"
  obtain fc d fc' d' where xy: "x = (fc, d)" "y = (fc', d')" by (cases x, cases y)
  have "lmd_with d' fc'" if strict
    using that \<open>fc_inv strict x\<close> step lmd_step [of d fc fc' d'] by (simp add: xy)
  then show "fc_inv strict y"
    using \<open>fc_inv strict x\<close> step tree_inv_step [of fc strict d fc' d'] by (simp add: xy)
qed

lemma fc_inv_new: "fc_inv strict (fork_choice_new ts, \<lambda>_. 0)"
  by (simp add: tree_inv_def lmd_with_def forks_wf_def flags_inv_def fork_choice_new_def)

lemma operations_return:
  assumes "forks_wf (forks fc)"
  shows "record_validator_vote fc v s st \<noteq> None" "compute_best_fork fc r \<noteq> None"
    "select_heaviest_fork fc r \<noteq> None" "prune_non_descendants fc r \<noteq> None"
  using record_vote_reweighted [OF assms, of v s st] ghost_loops [OF assms, of r] prune_spec [OF assms, of r]
  by (auto simp: compute_best_fork_def select_heaviest_fork_def)

subsection \<open>Properties\<close>

text \<open>
  C3. Latest message driven: take any run of the fork choice's operations from a new instance, with
  parents below their slots, and the ledger of the stake added directly by \<open>add_stake\<close>. Every
  further operation returns, and a known slot is excluded from fork choice exactly when it
  equivocates without being duplicate confirmed. If every slot was registered once and before the
  votes for it or its descendants, and the stakes fit in 64 bits, the weight kept incrementally
  for a known slot is exactly the sum of the stakes of the validators whose latest vote is for that
  slot or one of its descendants, plus the stake added directly to that very slot since it was
  registered. The latter is never moved by later votes and never reaches the ancestors.
\<close>

theorem fork_choice_lmd_weights:
  assumes "(fc_step strict)\<^sup>*\<^sup>* (fork_choice_new ts, \<lambda>_. 0) (fc, direct)" and "hm_get (forks fc) x = Some f"
  shows "(strict \<longrightarrow> stake_weight f = vote_weight fc x + direct x) \<and>
     valid f = (\<not> eqvoc f \<or> duplicate_confirmed f) \<and>
     record_validator_vote fc v s st \<noteq> None \<and> compute_best_fork fc r \<noteq> None \<and>
     select_heaviest_fork fc r \<noteq> None \<and> prune_non_descendants fc r \<noteq> None"
proof -
  from fc_run.run_inv [OF assms(1) fc_inv_new]
  have tree: "tree_inv fc" and lmd: "strict \<Longrightarrow> lmd_with direct fc" by simp_all
  have "stake_weight f = vote_weight fc x + direct x" if strict
    using lmd [OF that] assms(2) by (auto simp: lmd_with_get weight_of_def)
  moreover have "flags_ok f" using tree assms(2) hm_get_mem by (fastforce simp: tree_inv_def flags_inv_def)
  moreover have "forks_wf (forks fc)" using tree by (simp add: tree_inv_def)
  ultimately show ?thesis by (simp add: flags_ok_def operations_return)
qed

theorem fork_choice_lmd_weights_witness:
  "\<exists>fc f. (fc_step True)\<^sup>*\<^sup>* (fork_choice_new 300, \<lambda>_. 0) (fc, (\<lambda>_. 0)(1 := 5)) \<and> hm_get (forks fc) 1 = Some f \<and>
     vote_weight fc 1 = 100 \<and> stake_weight f = 105 \<and> valid f = (\<not> eqvoc f \<or> duplicate_confirmed f)"
proof -
  define fc1 where "fc1 = add_fork (fork_choice_new 300) 1 None"
  define fc2 where "fc2 = add_fork fc1 2 (Some 1)"
  define fc3 where "fc3 = add_stake fc2 1 5"
  let ?d = "(\<lambda>_. 0)(1 := 5) :: ledger"
  have s1: "fc_step True (fork_choice_new 300, \<lambda>_. 0) (fc1, \<lambda>_. 0)"
    using step_add [where p = None and s = 1 and strict = True and fc = "fork_choice_new 300" and d = "\<lambda>_. 0"]
    by (simp add: fc1_def fork_choice_new_def unvoted_def fun_upd_idem)
  have s2: "fc_step True (fc1, \<lambda>_. 0) (fc2, \<lambda>_. 0)"
    using step_add [where p = "Some 1" and s = 2 and strict = True and fc = fc1 and d = "\<lambda>_. 0"]
    by (simp add: fc2_def fc1_def add_fork_def fork_choice_new_def unvoted_def fun_upd_idem)
  have known: "hm_get (forks fc2) 1 \<noteq> None" and votes: "validator_latest_votes fc2 = []"
    by (simp_all add: fc2_def fc1_def add_fork_def fork_choice_new_def hm_simps)
  have d: "direct_stake fc2 1 5 (\<lambda>_. 0) = ?d" using known by (auto simp: direct_stake_def)
  have s3: "fc_step True (fc2, \<lambda>_. 0) (fc3, ?d)"
    unfolding fc3_def d [symmetric]
    by (rule step_stake) (simp only: d, simp add: stake_fits_def votes_total_def votes u64_max_def)
  note rew = add_stake_reweighted [of 1 5 fc2, folded fc3_def]
  note shape3 = reweighted_shape [OF conjunct1 [OF rew]]
  have total: "stake_fits ?d (insert_vote fc3 [7] (2, 100))"
    by (simp add: stake_fits_def votes_total_def insert_vote_def rew votes u64_max_def)
  have run3: "(fc_step True)\<^sup>*\<^sup>* (fork_choice_new 300, \<lambda>_. 0) (fc3, ?d)"
    using s1 s2 s3 by (meson r_into_rtranclp rtranclp.rtrancl_into_rtrancl)
  from fc_run.run_inv [OF this fc_inv_new] have "lmd_with ?d fc3" by simp
  from record_validator_vote_lmd [OF this total] obtain fc4 where
    fc4: "record_validator_vote fc3 [7] 2 100 = Some fc4" "same_shape (forks fc3) (forks fc4)"
      "validator_latest_votes fc4 = [([7], (2, 100))]"
    using votes rew by auto
  note shape = same_shape_trans [OF shape3 fc4(2)]
  have "ancestry (forks fc2) 2 = [2, 1]"
    by (simp add: fc2_def fc1_def add_fork_def fork_choice_new_def
        fork_info_new_def lower_parent_def parent_of_def chain.simps)
  then have w: "vote_weight fc4 1 = 100"
    by (simp add: vote_weight_def fc4(3) same_shape_ancestry [OF shape])
  obtain f where f: "hm_get (forks fc4) 1 = Some f" using known same_shape_known [OF shape, of 1]
    by (cases "hm_get (forks fc4) 1") auto
  have "(fc_step True)\<^sup>*\<^sup>* (fork_choice_new 300, \<lambda>_. 0) (fc4, ?d)"
    using run3 step_vote [OF total fc4(1)] by (rule rtranclp.rtrancl_into_rtrancl)
  from this fork_choice_lmd_weights [OF this f] f w show ?thesis by auto
qed

text \<open>
  A sample tree for the applications below: slot 10 with the children 20 and 30, validator 1
  (stake 160) voting for 30 and validator 2 (stake 40) for 20.
\<close>

definition sample_fc :: ForkChoice where
  "sample_fc =
     \<lparr>forks = [(10, (fork_info_new 10 None)\<lparr>stake_weight := 200\<rparr>),
               (20, (fork_info_new 20 (Some 10))\<lparr>stake_weight := 40\<rparr>),
               (30, (fork_info_new 30 (Some 10))\<lparr>stake_weight := 160\<rparr>)],
      total_stake = 200, best_slot = None,
      validator_latest_votes = [([1], (30, 160)), ([2], (20, 40))]\<rparr>"

lemma sample_ancestry:
  "ancestry (forks sample_fc) 10 = [10]" "ancestry (forks sample_fc) 20 = [20, 10]"
  "ancestry (forks sample_fc) 30 = [30, 10]"
proof -
  have lp: "lower_parent (forks sample_fc) 10 = None" "lower_parent (forks sample_fc) 20 = Some 10"
    "lower_parent (forks sample_fc) 30 = Some 10"
    by (simp_all add: sample_fc_def fork_info_new_def lower_parent_def parent_of_def)
  show "ancestry (forks sample_fc) 10 = [10]" by (rule ft.chain_root) (rule lp)
  then show "ancestry (forks sample_fc) 20 = [20, 10]" "ancestry (forks sample_fc) 30 = [30, 10]"
    by (simp_all add: ft.chain_parent [OF lp(2)] ft.chain_parent [OF lp(3)])
qed

lemma sample_votes:
  "vote_weight sample_fc 10 = 200" "vote_weight sample_fc 20 = 40" "vote_weight sample_fc 30 = 160"
  "votes_total sample_fc = 200" "validator_latest_votes sample_fc = [([1], (30, 160)), ([2], (20, 40))]"
  "total_stake sample_fc = 200"
proof -
  have v: "validator_latest_votes sample_fc = [([1], (30, 160)), ([2], (20, 40))]" by (simp add: sample_fc_def)
  show "vote_weight sample_fc 10 = 200" "vote_weight sample_fc 20 = 40" "vote_weight sample_fc 30 = 160"
    "votes_total sample_fc = 200" "validator_latest_votes sample_fc = [([1], (30, 160)), ([2], (20, 40))]"
    "total_stake sample_fc = 200"
    by (simp_all add: vote_weight_def votes_total_def v sample_ancestry) (simp add: sample_fc_def)
qed

lemma sample_get:
  "hm_get (forks sample_fc) x =
     (if x = 10 then Some ((fork_info_new 10 None)\<lparr>stake_weight := 200\<rparr>)
      else if x = 20 then Some ((fork_info_new 20 (Some 10))\<lparr>stake_weight := 40\<rparr>)
      else if x = 30 then Some ((fork_info_new 30 (Some 10))\<lparr>stake_weight := 160\<rparr>) else None)"
  by (simp add: sample_fc_def)

lemma sample_inv: "lmd_inv sample_fc" "forks_wf (forks sample_fc)"
proof -
  show wf: "forks_wf (forks sample_fc)" by (simp add: forks_wf_def sample_fc_def fork_info_new_def)
  have "fst ` set (forks sample_fc) = {10, 20, 30}" by (simp add: sample_fc_def)
  with wf show "lmd_inv sample_fc"
    by (simp add: lmd_with_def sample_votes weight_of_def sample_get fork_info_new_def)
qed

text \<open>
  One vote: recording a vote always returns, keeps the invariant, replaces the
  validator's latest vote, and moves exactly the stake: the weight of every known slot becomes
  the sum over the updated latest votes. A repeated vote with the same stake changes nothing.
\<close>

lemma record_vote_moves_stake:
  assumes "lmd_inv fc" and "votes_total (insert_vote fc v (s, st)) \<le> u64_max"
  shows "\<exists>fc'. record_validator_vote fc v s st = Some fc' \<and> lmd_inv fc' \<and>
           map fst (forks fc') = map fst (forks fc) \<and>
           validator_vote_slot fc' v = Some s \<and>
           (\<forall>x f. hm_get (forks fc') x = Some f \<longrightarrow>
              stake_weight f +
                (case hm_get (validator_latest_votes fc) v of
                   None \<Rightarrow> 0 | Some (os, ost) \<Rightarrow> if x \<in> set (ancestry (forks fc) os) then ost else 0) =
              weight_of (forks fc) x + (if x \<in> set (ancestry (forks fc) s) then st else 0)) \<and>
           (hm_get (validator_latest_votes fc) v = Some (s, st) \<longrightarrow> fc' = fc)"
proof -
  have "stake_fits (\<lambda>_. 0) (insert_vote fc v (s, st))" using assms(2) by (simp add: stake_fits_def)
  from record_validator_vote_lmd [OF assms(1) this] obtain fc' where
    fc': "record_validator_vote fc v s st = Some fc'" "lmd_inv fc'" "same_shape (forks fc) (forks fc')"
    "validator_latest_votes fc' = hm_insert v (s, st) (validator_latest_votes fc)"
    "\<And>x. hm_get (forks fc) x \<noteq> None \<Longrightarrow> weight_of (forks fc') x = vote_weight (insert_vote fc v (s, st)) x"
    by auto
  have "stake_weight f +
                (case hm_get (validator_latest_votes fc) v of
                   None \<Rightarrow> 0 | Some (os, ost) \<Rightarrow> if x \<in> set (ancestry (forks fc) os) then ost else 0) =
              weight_of (forks fc) x + (if x \<in> set (ancestry (forks fc) s) then st else 0)"
    if f: "hm_get (forks fc') x = Some f" for x f
  proof -
    have known: "hm_get (forks fc) x \<noteq> None" using f same_shape_known [OF fc'(3), of x] by simp
    have "stake_weight f = vote_weight (insert_vote fc v (s, st)) x"
      using fc'(5) [OF known] f by (simp add: weight_of_def)
    with vote_weight_insert [of fc v s st x] assms(1) known show ?thesis by (simp add: lmd_with_get)
  qed
  moreover have "hm_get (validator_latest_votes fc) v = Some (s, st) \<Longrightarrow> fc' = fc"
    using fc'(1) by (simp add: record_validator_vote_replace)
  ultimately show ?thesis
    using fc' same_shape_keys [OF fc'(3)] by (auto simp: validator_vote_slot_def hm_simps)
qed

text \<open>
  C14. Both selection routines, the one with \<open>max_by\<close> and the one with an explicit scan,
  terminate on every well-formed tree and return the slot that the GHOST rule determines: the
  end of the chain of best valid children (heaviest first, lowest slot among equals). It is
  unique and does not depend on the iteration order of the hash map.
\<close>

theorem ghost_selection:
  assumes "forks_wf (forks fc)" and "forks_wf (forks fc2)" and "hm_get (forks fc2) r \<noteq> None"
    and "\<forall>s. hm_get (forks fc2) s = hm_get (forks fc) s"
  shows "\<exists>t. ghost_tip (forks fc) r t \<and> (\<forall>u. ghost_tip (forks fc) r u \<longrightarrow> u = t) \<and>
             compute_best_fork fc r = Some (fc\<lparr>best_slot := Some t\<rparr>, Some t) \<and>
             select_heaviest_fork fc2 r = Some (fc2\<lparr>best_slot := Some t\<rparr>, Some t)"
proof -
  from ghost_loops [OF assms(1), of r] obtain t where
    t: "best_fork_loop (forks fc) r = Some t" "ghost_tip (forks fc) r t" by blast
  from ghost_loops [OF assms(2), of r] obtain t2 where
    t2: "heaviest_fork_loop (forks fc2) r = Some t2" "ghost_tip (forks fc2) r t2" by blast
  have "ghost_tip (forks fc2) = ghost_tip (forks fc)" by (rule ghost_tip_cong) (simp add: assms(4))
  with t2 t have "t2 = t" using ghost_tip_unique by metis
  with t t2 assms(3) ghost_tip_unique [of "forks fc" r] show ?thesis
    unfolding compute_best_fork_def select_heaviest_fork_def by auto
qed

theorem ghost_selection_witness:
  "\<exists>t. ghost_tip (forks sample_fc) 10 t \<and> compute_best_fork sample_fc 10 = Some (sample_fc\<lparr>best_slot := Some t\<rparr>, Some t) \<and>
       select_heaviest_fork sample_fc 10 = Some (sample_fc\<lparr>best_slot := Some t\<rparr>, Some t)"
proof -
  have "hm_get (forks sample_fc) 10 \<noteq> None" by (simp add: sample_get)
  from ghost_selection [OF sample_inv(2) sample_inv(2) this] show ?thesis by blast
qed

text \<open>
  C13. In a state whose weights are the sums of the latest votes (no stake added directly with
  \<open>add_stake\<close>, no vote recorded before its slot was registered), a slot backed by more than half
  of the recorded stake is on the selected fork, provided the slots between the starting root and
  it are known and valid: no coalition of the other votes can divert the selection.
\<close>

theorem majority_fork_selected:
  assumes "lmd_inv fc" and "votes_total fc < 2 * vote_weight fc x" and "r \<in> set (ancestry (forks fc) x)"
    and "\<forall>y \<in> set (ancestry (forks fc) x). r < y \<longrightarrow> (\<exists>f. hm_get (forks fc) y = Some f \<and> valid f)"
  shows "\<exists>t. compute_best_fork fc r = Some (fc\<lparr>best_slot := Some t\<rparr>, Some t) \<and> x \<in> set (ancestry (forks fc) t)"
proof -
  have wf: "forks_wf (forks fc)" using assms(1) by (simp add: lmd_with_def)
  from ghost_loops [OF wf, of r] obtain t where
    t: "best_fork_loop (forks fc) r = Some t" "ghost_tip (forks fc) r t" by blast
  have "(ghost_step (forks fc))\<^sup>*\<^sup>* r x"
    by (rule ghost_follows_majority [OF assms(1,2) _ assms(3)]) (use assms(4) in blast)
  from ghost_steps_ancestry [OF wf ghost_tip_through [OF t(2) this]]
  have "x \<in> set (ancestry (forks fc) t)" .
  with t show ?thesis by (auto simp: compute_best_fork_def)
qed

theorem majority_fork_selected_witness:
  "\<exists>t. compute_best_fork sample_fc 10 = Some (sample_fc\<lparr>best_slot := Some t\<rparr>, Some t) \<and>
       30 \<in> set (ancestry (forks sample_fc) t)"
  by (rule majority_fork_selected [OF sample_inv(1)])
     (simp_all add: sample_votes sample_ancestry sample_get fork_info_new_def)

text \<open>
  C12. Supermajority root: in a state whose weights are the sums of the latest votes (no stake
  added directly with \<open>add_stake\<close>, no vote recorded before its slot was registered) and whose
  recorded stake does not exceed the total stake, a new root proposed by \<open>compute_supermajority_root\<close> is a known slot above the current root that meets
  the threshold, and every other known slot above the root that meets it is one of its
  ancestors. Two conflicting slots never both have a supermajority, in spite of the rounding
  of the floating-point ratio.
\<close>

theorem supermajority_root_safe:
  assumes "lmd_inv fc" and "votes_total fc \<le> total_stake fc"
    and "compute_supermajority_root fc cr = Some r" and "cr \<noteq> Some r"
  shows "(\<forall>c. cr = Some c \<longrightarrow> c < r) \<and> hm_get (forks fc) r \<noteq> None \<and>
         supermajority (total_stake fc) (weight_of (forks fc) r) \<and>
         (\<forall>s. hm_get (forks fc) s \<noteq> None \<and> (\<forall>c. cr = Some c \<longrightarrow> c < s) \<and>
              supermajority (total_stake fc) (weight_of (forks fc) s) \<longrightarrow> is_descendant fc r s = Some True)"
proof -
  define S where "S = {s. \<exists>f. (s, f) \<in> set (forks fc) \<and> (\<forall>c. cr = Some c \<longrightarrow> c < s) \<and>
                       supermajority (total_stake fc) (stake_weight f)}"
  have wf: "forks_wf (forks fc)" "hm_wf (forks fc)" using assms(1) by (simp_all add: lmd_with_def forks_wf_def)
  have S: "s \<in> S \<longleftrightarrow> hm_get (forks fc) s \<noteq> None \<and> (\<forall>c. cr = Some c \<longrightarrow> c < s) \<and>
      supermajority (total_stake fc) (weight_of (forks fc) s)" for s
    unfolding S_def mem_Collect_eq hm_mem_get [OF wf(2)]
    by (cases "hm_get (forks fc) s") (auto simp: weight_of_def)
  have fin: "finite S" by (rule finite_subset [of _ "fst ` set (forks fc)"]) (force simp: S_def)+
  have eq: "compute_supermajority_root fc cr = (if S = {} then cr else Some (Max S))"
    unfolding S_def by (rule compute_supermajority_root_spec)
  with assms(3,4) have ne: "S \<noteq> {}" and r: "r = Max S" by (auto split: if_splits)
  have "r \<in> S" using Max_in [OF fin ne] r by simp
  moreover have "is_descendant fc r s = Some True" if "s \<in> S" for s
    using supermajority_compatible [OF assms(1,2), of s r] that \<open>r \<in> S\<close> Max_ge [OF fin that]
    by (simp add: is_descendant_ancestry [OF wf(1)] S r)
  ultimately show ?thesis by (simp add: S)
qed

lemma sample_supermajority: "compute_supermajority_root sample_fc (Some 10) = Some 30"
proof -
  have "f64_ge (f64_ratio 160 200) (f64_ratio 2 3)" by (rule f64_ratio_ge_complete) simp_all
  moreover have "\<not> f64_ge (f64_ratio 40 200) (f64_ratio 2 3)"
    using f64_ratio_ge_sound [of 200 3 40 2] by auto
  ultimately show ?thesis
    by (simp add: compute_supermajority_root_def sample_fc_def fork_info_new_def SUPERMAJORITY_THRESHOLD_def)
qed

theorem supermajority_root_safe_witness:
  "compute_supermajority_root sample_fc (Some 10) = Some 30 \<and> hm_get (forks sample_fc) 30 \<noteq> None \<and>
   supermajority (total_stake sample_fc) (weight_of (forks sample_fc) 30)"
  using supermajority_root_safe [OF sample_inv(1) _ sample_supermajority] sample_supermajority
  by (simp add: sample_votes)

text \<open>
  Stake added directly is outside this guarantee. Validator 1 of the sample tree, having voted for
  slot 30, votes for slot 20 and its stake is added there directly: now the conflicting slots 20 and
  30 both meet the threshold.
\<close>

lemma direct_stake_conflict:
  defines "fc \<equiv> add_stake sample_fc 20 160"
  shows "supermajority 200 (weight_of (forks fc) 20) \<and> supermajority 200 (weight_of (forks fc) 30) \<and>
     is_descendant fc 30 20 = Some False"
proof -
  note rew = conjunct1 [OF add_stake_reweighted [of 20 160 sample_fc, folded fc_def]]
  note shape = reweighted_shape [OF rew]
  have "weight_of (forks fc) 20 = 200" "weight_of (forks fc) 30 = 160"
    using reweighted_weight [OF rew, of 20] reweighted_weight [OF rew, of 30]
    by (simp_all add: sample_get weight_of_def sat_add64_def u64_max_def)
  moreover have "f64_ge (f64_ratio 200 200) (f64_ratio 2 3)" "f64_ge (f64_ratio 160 200) (f64_ratio 2 3)"
    by (rule f64_ratio_ge_complete, simp_all)+
  moreover have "is_descendant fc 30 20 = Some False"
    using sample_inv(2) same_shape_wf [OF shape]
    by (simp add: is_descendant_ancestry same_shape_ancestry [OF shape] sample_ancestry)
  ultimately show ?thesis by (simp add: SUPERMAJORITY_THRESHOLD_def)
qed

text \<open>
  C23. In a state whose weights are the sums of the latest votes, pruning to a new root returns,
  keeps that property, keeps exactly the records of the
  slots that descend from the root, unchanged, and keeps exactly the latest votes for kept
  slots.
\<close>

theorem prune_exact:
  assumes "lmd_inv fc"
  shows "\<exists>fc'. prune_non_descendants fc r = Some fc' \<and> lmd_inv fc' \<and>
           (\<forall>s. hm_get (forks fc') s = (if is_descendant fc s r = Some True then hm_get (forks fc) s else None)) \<and>
           (\<forall>v. hm_get (validator_latest_votes fc') v =
              (case hm_get (validator_latest_votes fc) v of None \<Rightarrow> None
               | Some (s, st) \<Rightarrow> if hm_get (forks fc') s \<noteq> None then Some (s, st) else None))"
proof -
  have wf: "forks_wf (forks fc)" "hm_wf (validator_latest_votes fc)" using assms by (simp_all add: lmd_with_def)
  show ?thesis
    using prune_spec [OF wf(1), of r] lmd_prune [OF assms, of r]
    by (auto simp: is_descendant_ancestry [OF wf(1)] hm_get_retain [OF wf(2)] hm_get_retain_key split: option.splits)
qed

theorem prune_exact_witness:
  "\<exists>fc'. prune_non_descendants sample_fc 30 = Some fc' \<and> hm_get (forks fc') 20 = None \<and>
     hm_get (forks fc') 30 \<noteq> None \<and> hm_get (validator_latest_votes fc') [2] = None"
proof -
  from prune_exact [OF sample_inv(1), of 30] obtain fc' where fc':
    "prune_non_descendants sample_fc 30 = Some fc'"
    "\<And>s. hm_get (forks fc') s = (if is_descendant sample_fc s 30 = Some True then hm_get (forks sample_fc) s else None)"
    "\<And>v. hm_get (validator_latest_votes fc') v =
              (case hm_get (validator_latest_votes sample_fc) v of None \<Rightarrow> None
               | Some (s, st) \<Rightarrow> if hm_get (forks fc') s \<noteq> None then Some (s, st) else None)" by blast
  then show ?thesis
    by (auto simp: is_descendant_ancestry [OF sample_inv(2)] sample_ancestry sample_get sample_votes)
qed

text \<open>
  Ancestry queries: on a well-formed tree \<open>get_fork_path\<close> and \<open>is_descendant\<close> return,
  the path ends in the slot and rises strictly from a slot without recorded parent along
  parent links, and \<open>is_descendant\<close> holds exactly for the slots on that path.
\<close>

lemma fork_path_correct:
  assumes "forks_wf (forks fc)"
  shows "\<exists>path. get_fork_path fc s = Some path \<and> path \<noteq> [] \<and> last path = s \<and> sorted_wrt (<) path \<and>
           parent_of (forks fc) (hd path) = None \<and>
           (\<forall>i. Suc i < length path \<longrightarrow> parent_of (forks fc) (path ! Suc i) = Some (path ! i)) \<and>
           (\<forall>a. is_descendant fc s a = Some (a \<in> set path))"
proof -
  let ?anc = "ancestry (forks fc) s"
  have "last (rev ?anc) = s" by (simp add: ft.chain_unfold [of _ s])
  moreover have "sorted_wrt (<) (rev ?anc) \<and> parent_of (forks fc) (hd (rev ?anc)) = None \<and>
     (\<forall>i. Suc i < length (rev ?anc) \<longrightarrow> parent_of (forks fc) (rev ?anc ! Suc i) = Some (rev ?anc ! i)) \<and> rev ?anc \<noteq> []"
    unfolding parent_of_lower [OF assms]
  proof (induction s rule: ft.chain_induct [where fs = "forks fc"])
    case (step s)
    show ?case
    proof (cases "lower_parent (forks fc) s")
      case None
      then show ?thesis by (simp add: ft.chain_root)
    next
      case (Some p)
      let ?c = "rev (ancestry (forks fc) p)"
      note IH = step [OF Some]
      have "x < s" if "x \<in> set ?c" for x using ft.chain_le [of x "forks fc" p] ft.par_less [OF Some] that by simp
      moreover have "last ?c = p" by (simp add: ft.chain_unfold [of _ p])
      ultimately show ?thesis
        using IH Some by (auto simp: ft.chain_parent [OF Some] sorted_wrt_append nth_append last_conv_nth less_Suc_eq)
           (metis One_nat_def diff_Suc_1)
    qed
  qed
  ultimately show ?thesis
    by (auto simp: get_fork_path_ancestry [OF assms] is_descendant_ancestry [OF assms])
qed

lemma record_vote_weights:
  assumes "forks_wf (forks fc)" "hm_get (validator_latest_votes fc) v \<noteq> Some (s, st)" "hm_get (forks fc) x \<noteq> None"
  obtains fc' where "record_validator_vote fc v s st = Some fc'" "same_shape (forks fc) (forks fc')"
    "validator_latest_votes fc' = hm_insert v (s, st) (validator_latest_votes fc)"
    "weight_of (forks fc') x = revote fc v s st x (weight_of (forks fc) x)"
proof -
  from replace_vote_spec [OF assms(1)] obtain fc' where "replace_vote fc v s st = Some fc'"
    "reweighted (revote fc v s st) (forks fc) (forks fc')"
    "validator_latest_votes fc' = hm_insert v (s, st) (validator_latest_votes fc)" by blast
  with assms(2,3) reweighted_weight [of "revote fc v s st"] reweighted_shape show ?thesis
    by (intro that) (auto simp: record_validator_vote_replace)
qed

text \<open>The tree after a vote record and a registration has the ancestry of the registration alone.\<close>

lemma add_fork_ancestry:
  assumes "same_shape (forks fc) (forks fc1)"
  shows "ancestry (forks (add_fork fc1 s p)) z = ancestry (forks (add_fork fc s p)) z"
proof -
  have "parent_of (forks fc1) y = parent_of (forks fc) y" for y
    using same_shape_parent_of [OF assms] by (simp add: fun_eq_iff)
  then have "lower_parent (forks (add_fork fc1 s p)) = lower_parent (forks (add_fork fc s p))"
    by (auto simp: fun_eq_iff lower_parent_def parent_of_def add_fork_def hm_simps)
  then show ?thesis by simp
qed



end
