(* ===== verification/Epoch_Schedule.thy ===== *)
theory Epoch_Schedule
  imports Karst_Prelude "HOL-Library.Monad_Syntax"
begin

section \<open>Epoch schedule\<close>

text \<open>
  \<open>karstflow-consensus/src/epoch_schedule.rs\<close>: the mapping between slots and epochs, with an optional
  warm-up in which epoch \<open>e\<close> has \<open>2 ^ e\<close> slots. A division by zero is \<open>None\<close>; so is a
  search for the epoch that does not end, which a schedule with empty epochs allows.
\<close>

subsection \<open>Definitions\<close>

record EpochScheduleConfig =
  slots_per_epoch :: u64
  leader_schedule_slot_offset :: u64
  warmup :: bool
  first_normal_epoch :: u64
  first_normal_slot :: u64

definition LEDGER_SLOTS_PER_EPOCH :: u64 where
  "LEDGER_SLOTS_PER_EPOCH = 432000"

definition config_default :: EpochScheduleConfig where
  "config_default = \<lparr>slots_per_epoch = LEDGER_SLOTS_PER_EPOCH, leader_schedule_slot_offset = LEDGER_SLOTS_PER_EPOCH,
     warmup = False, first_normal_epoch = 0, first_normal_slot = 0\<rparr>"

record EpochSchedule =
  config :: EpochScheduleConfig

definition schedule_new :: "EpochScheduleConfig \<Rightarrow> EpochSchedule" where
  "schedule_new c = \<lparr>config = c\<rparr>"

text \<open>\<open>/\<close> and \<open>%\<close> panic on zero; \<open>saturating_mul\<close> stops at the largest value.\<close>

definition checked_div :: "u64 \<Rightarrow> u64 \<Rightarrow> u64 option" where
  "checked_div a b = (if b = 0 then None else Some (a div b))"

definition checked_rem :: "u64 \<Rightarrow> u64 \<Rightarrow> u64 option" where
  "checked_rem a b = (if b = 0 then None else Some (a mod b))"

definition sat_mul64 :: "u64 \<Rightarrow> u64 \<Rightarrow> u64" where
  "sat_mul64 a b = min (a * b) u64_max"

definition get_slots_in_epoch :: "EpochSchedule \<Rightarrow> u64 \<Rightarrow> u64" where
  "get_slots_in_epoch es epoch =
     (if \<not> warmup (config es) \<or> epoch \<ge> first_normal_epoch (config es) then slots_per_epoch (config es)
      else min (2 ^ min epoch 63) u64_max)"

partial_function (option) epoch_loop :: "EpochSchedule \<Rightarrow> slot \<Rightarrow> u64 \<Rightarrow> slot \<Rightarrow> u64 option" where
  "epoch_loop es s epoch slot_index =
     (if sat_add64 slot_index (get_slots_in_epoch es epoch) \<le> s
      then epoch_loop es s (sat_add64 epoch 1) (sat_add64 slot_index (get_slots_in_epoch es epoch))
      else Some epoch)"

declare epoch_loop.simps [code]

definition get_epoch_slow :: "EpochSchedule \<Rightarrow> slot \<Rightarrow> u64 option" where
  "get_epoch_slow es s = epoch_loop es s 0 0"

definition get_first_slot_in_epoch_slow :: "EpochSchedule \<Rightarrow> u64 \<Rightarrow> slot" where
  "get_first_slot_in_epoch_slow es epoch = fold (\<lambda>e s. sat_add64 s (get_slots_in_epoch es e)) [0..<epoch] 0"

definition get_epoch :: "EpochSchedule \<Rightarrow> slot \<Rightarrow> u64 option" where
  "get_epoch es s =
     (if \<not> warmup (config es) \<or> s \<ge> first_normal_slot (config es)
      then do {
        q \<leftarrow> checked_div (s - first_normal_slot (config es)) (slots_per_epoch (config es));
        Some (sat_add64 (first_normal_epoch (config es)) q)
      }
      else get_epoch_slow es s)"

definition get_first_slot_in_epoch :: "EpochSchedule \<Rightarrow> u64 \<Rightarrow> slot" where
  "get_first_slot_in_epoch es epoch =
     (if \<not> warmup (config es) \<or> epoch \<ge> first_normal_epoch (config es)
      then sat_add64 (first_normal_slot (config es))
             (sat_mul64 (epoch - first_normal_epoch (config es)) (slots_per_epoch (config es)))
      else get_first_slot_in_epoch_slow es epoch)"

definition get_epoch_and_slot_index :: "EpochSchedule \<Rightarrow> slot \<Rightarrow> (u64 \<times> u64) option" where
  "get_epoch_and_slot_index es s =
     (if \<not> warmup (config es) \<or> s \<ge> first_normal_slot (config es)
      then do {
        q \<leftarrow> checked_div (s - first_normal_slot (config es)) (slots_per_epoch (config es));
        r \<leftarrow> checked_rem (s - first_normal_slot (config es)) (slots_per_epoch (config es));
        Some (sat_add64 (first_normal_epoch (config es)) q, r)
      }
      else do {
        epoch \<leftarrow> get_epoch_slow es s;
        Some (epoch, s - get_first_slot_in_epoch es epoch)
      })"

definition get_last_slot_in_epoch :: "EpochSchedule \<Rightarrow> u64 \<Rightarrow> slot" where
  "get_last_slot_in_epoch es epoch = get_first_slot_in_epoch es (sat_add64 epoch 1) - 1"

definition get_leader_schedule_epoch :: "EpochSchedule \<Rightarrow> slot \<Rightarrow> u64 option" where
  "get_leader_schedule_epoch es s =
     (if s < leader_schedule_slot_offset (config es) then Some 0
      else get_epoch es (s - leader_schedule_slot_offset (config es)))"

subsection \<open>Well-formed schedules\<close>

text \<open>
  Epochs have slots; without warm-up every epoch is normal; with warm-up the normal epochs begin
  after \<open>1 + 2 + \<dots> + 2 ^ (first_normal_epoch - 1)\<close> slots.
\<close>

definition schedule_wf :: "EpochSchedule \<Rightarrow> bool" where
  "schedule_wf es \<longleftrightarrow>
     0 < slots_per_epoch (config es) \<and>
     (if warmup (config es)
      then first_normal_epoch (config es) \<le> 63 \<and> first_normal_slot (config es) = 2 ^ first_normal_epoch (config es) - 1
      else first_normal_epoch (config es) = 0 \<and> first_normal_slot (config es) = 0)"

lemma warm_wf: "schedule_wf es \<Longrightarrow> warmup (config es) \<Longrightarrow> first_normal_epoch (config es) \<le> 63"
  by (simp add: schedule_wf_def)

lemma warm_slots:
  assumes "first_normal_epoch (config es) \<le> 63" "warmup (config es)" "e < first_normal_epoch (config es)"
  shows "get_slots_in_epoch es e = 2 ^ e"
proof -
  have "e < 63" using assms by simp
  then have "(2::nat) ^ e \<le> 2 ^ 63" by (intro power_increasing) simp_all
  then have "(2::nat) ^ e \<le> u64_max" by (simp add: u64_max_def)
  then show ?thesis using assms \<open>e < 63\<close> by (simp add: get_slots_in_epoch_def min_def)
qed

lemma warm_bound: "e \<le> 63 \<Longrightarrow> (2::nat) ^ e - 1 < u64_max"
  using power_increasing [of e 63 "2::nat"] by (simp add: u64_max_def)

lemma warm_first:
  assumes "first_normal_epoch (config es) \<le> 63" "warmup (config es)" "e \<le> first_normal_epoch (config es)"
  shows "get_first_slot_in_epoch_slow es e = 2 ^ e - 1"
  using assms(3)
proof (induction e)
  case (Suc e)
  have "Suc e \<le> 63" using assms Suc.prems by simp
  then have "(2::nat) ^ e - 1 + 2 ^ e \<le> u64_max" using warm_bound [of "Suc e"] by simp
  moreover have "(2::nat) ^ e - 1 + 2 ^ e = 2 ^ Suc e - 1" using one_le_power [of "2::nat" e] by simp
  ultimately show ?case using Suc warm_slots [OF assms(1,2), of e]
    by (simp add: get_first_slot_in_epoch_slow_def sat_add64_exact)
qed (simp add: get_first_slot_in_epoch_slow_def)

text \<open>The search ends at the epoch whose power of two brackets the slot.\<close>

lemma epoch_loop_warm:
  assumes "schedule_wf es" "warmup (config es)" "s < first_normal_slot (config es)" "2 ^ e - 1 \<le> s" "e \<le> first_normal_epoch (config es)"
  shows "\<exists>n. epoch_loop es s e (2 ^ e - 1) = Some n \<and> n < first_normal_epoch (config es) \<and> 2 ^ n - 1 \<le> s \<and> s < 2 ^ Suc n - 1"
  using assms(4,5)
proof (induction "first_normal_epoch (config es) - e" arbitrary: e)
  case 0
  then have "e = first_normal_epoch (config es)" by simp
  then show ?case using assms(1-3) 0 by (simp add: schedule_wf_def)
next
  case (Suc k)
  have e: "e < first_normal_epoch (config es)" "Suc e \<le> 63" using Suc.hyps(2) assms by (auto simp: schedule_wf_def)
  have pow: "(2::nat) ^ e - 1 + 2 ^ e = 2 ^ Suc e - 1" using one_le_power [of "2::nat" e] by simp
  have step: "sat_add64 (2 ^ e - 1) (get_slots_in_epoch es e) = 2 ^ Suc e - 1"
    using warm_slots [OF warm_wf [OF assms(1,2)] assms(2) e(1)] warm_bound [OF e(2)] pow by (simp add: sat_add64_exact)
  have nxt: "sat_add64 e 1 = Suc e" using e(2) by (simp add: sat_add64_exact u64_max_def)
  show ?case
  proof (cases "2 ^ Suc e - 1 \<le> s")
    case True
    have "k = first_normal_epoch (config es) - Suc e" using Suc.hyps(2) by simp
    from Suc.hyps(1) [OF this True] e(1) True show ?thesis
      by (subst epoch_loop.simps) (simp add: step nxt del: power_Suc One_nat_def)
  next
    case False
    then show ?thesis using Suc.prems e(1) by (subst epoch_loop.simps) (simp add: step del: power_Suc One_nat_def)
  qed
qed

lemma get_epoch_slow_warm:
  assumes "schedule_wf es" "warmup (config es)" "s < first_normal_slot (config es)"
  shows "\<exists>n. get_epoch_slow es s = Some n \<and> n < first_normal_epoch (config es) \<and> 2 ^ n - 1 \<le> s \<and> s < 2 ^ Suc n - 1"
  using epoch_loop_warm [OF assms, of 0] by (simp add: get_epoch_slow_def)

text \<open>The exact first slot of an epoch, and that consecutive epochs are adjacent.\<close>

definition epoch_start :: "EpochSchedule \<Rightarrow> u64 \<Rightarrow> nat" where
  "epoch_start es e =
     (if e < first_normal_epoch (config es) then 2 ^ e - 1
      else first_normal_slot (config es) + (e - first_normal_epoch (config es)) * slots_per_epoch (config es))"

lemma first_slot_exact:
  assumes "schedule_wf es"
  shows "get_first_slot_in_epoch es e = min (epoch_start es e) u64_max"
proof (cases "e < first_normal_epoch (config es)")
  case True
  then have w: "warmup (config es)" "e \<le> 63" using assms by (auto simp: schedule_wf_def split: if_splits)
  then show ?thesis using True warm_first [OF warm_wf [OF assms w(1)] w(1), of e] warm_bound [OF w(2)]
    by (simp add: get_first_slot_in_epoch_def epoch_start_def)
next
  case False
  then show ?thesis by (auto simp: get_first_slot_in_epoch_def epoch_start_def sat_add64_def sat_mul64_def)
qed

lemma epoch_start_Suc:
  assumes "schedule_wf es"
  shows "epoch_start es (Suc e) = epoch_start es e + get_slots_in_epoch es e"
proof (cases "e < first_normal_epoch (config es)")
  case True
  then have w: "warmup (config es)" using assms by (auto simp: schedule_wf_def split: if_splits)
  have pow: "(2::nat) ^ e - 1 + 2 ^ e = 2 ^ Suc e - 1" using one_le_power [of "2::nat" e] by simp
  have "epoch_start es (Suc e) = 2 ^ Suc e - 1"
    using True assms w by (cases "Suc e = first_normal_epoch (config es)") (auto simp: epoch_start_def schedule_wf_def)
  then show ?thesis using True warm_slots [OF warm_wf [OF assms w] w True] pow by (simp add: epoch_start_def)
next
  case False
  then show ?thesis by (simp add: epoch_start_def get_slots_in_epoch_def Suc_diff_le)
qed

lemma pow_gt: "n \<le> 2 ^ n - Suc 0"
  using less_exp [of n] by linarith

lemma slots_pos: "schedule_wf es \<Longrightarrow> 0 < get_slots_in_epoch es e"
  by (auto simp: get_slots_in_epoch_def schedule_wf_def u64_max_def)

lemma epoch_start_ge: "schedule_wf es \<Longrightarrow> e \<le> epoch_start es e"
proof (induction e)
  case (Suc e)
  then show ?case using slots_pos [of es e] by (simp add: epoch_start_Suc)
qed simp

lemma epoch_start_mono: "schedule_wf es \<Longrightarrow> e \<le> e' \<Longrightarrow> epoch_start es e \<le> epoch_start es e'"
  by (rule lift_Suc_mono_le [of "epoch_start es"]) (simp_all add: epoch_start_Suc)

lemma epoch_unique:
  assumes "schedule_wf es" "epoch_start es e \<le> s" "s < epoch_start es (Suc e)"
    and "epoch_start es e' \<le> s" "s < epoch_start es (Suc e')"
  shows "e = e'"
proof (rule ccontr)
  assume "e \<noteq> e'"
  then have "Suc e \<le> e' \<or> Suc e' \<le> e" by auto
  then show False using assms epoch_start_mono [OF assms(1), of "Suc e" e'] epoch_start_mono [OF assms(1), of "Suc e'" e] by auto
qed

text \<open>Both lookups answer, agree, and give the epoch that brackets the slot.\<close>

lemma epoch_lookup:
  assumes "schedule_wf es" "s \<le> u64_max"
  shows "\<exists>e. get_epoch es s = Some e \<and> get_epoch_and_slot_index es s = Some (e, s - epoch_start es e) \<and>
    epoch_start es e \<le> s \<and> s < epoch_start es (Suc e)"
proof (cases "warmup (config es) \<and> s < first_normal_slot (config es)")
  case True
  then obtain n where n: "get_epoch_slow es s = Some n" "n < first_normal_epoch (config es)" "2 ^ n - 1 \<le> s" "s < 2 ^ Suc n - 1"
    using get_epoch_slow_warm [OF assms(1)] by blast
  have st: "epoch_start es n = 2 ^ n - 1" using n(2) by (simp add: epoch_start_def)
  have "epoch_start es (Suc n) = 2 ^ Suc n - 1"
    using n(2) assms(1) True
    by (cases "Suc n = first_normal_epoch (config es)") (auto simp: epoch_start_def schedule_wf_def)
  moreover have "min (2 ^ n - 1) u64_max = 2 ^ n - (1::nat)" using n(3) assms(2) by simp
  ultimately show ?thesis using True n st first_slot_exact [OF assms(1), of n]
    by (simp add: get_epoch_def get_epoch_and_slot_index_def del: power_Suc One_nat_def)
next
  case False
  define q where "q = (s - first_normal_slot (config es)) div slots_per_epoch (config es)"
  define e where "e = first_normal_epoch (config es) + q"
  have pos: "0 < slots_per_epoch (config es)" using assms(1) by (simp add: schedule_wf_def)
  have ge: "first_normal_slot (config es) \<le> s" using False assms(1) by (auto simp: schedule_wf_def split: if_splits)
  have "first_normal_epoch (config es) \<le> first_normal_slot (config es)"
    using assms(1) pow_gt [of "first_normal_epoch (config es)"] by (auto simp: schedule_wf_def split: if_splits)
  moreover have "q \<le> s - first_normal_slot (config es)" by (simp add: q_def)
  ultimately have fit: "sat_add64 (first_normal_epoch (config es)) q = e"
    using ge assms(2) by (simp add: e_def sat_add64_exact)
  have st: "epoch_start es e = first_normal_slot (config es) + q * slots_per_epoch (config es)"
    by (simp add: epoch_start_def e_def)
  have dm: "q * slots_per_epoch (config es) + (s - first_normal_slot (config es)) mod slots_per_epoch (config es)
      = s - first_normal_slot (config es)" by (simp add: q_def)
  have lt: "(s - first_normal_slot (config es)) mod slots_per_epoch (config es) < slots_per_epoch (config es)"
    using pos by simp
  have slots: "get_slots_in_epoch es e = slots_per_epoch (config es)" by (simp add: get_slots_in_epoch_def e_def)
  have "get_epoch es s = Some e" "get_epoch_and_slot_index es s = Some (e, s - epoch_start es e)"
    using False ge pos fit st dm
    by (auto simp: get_epoch_def get_epoch_and_slot_index_def checked_div_def checked_rem_def q_def [symmetric])
  then show ?thesis using st dm lt ge slots epoch_start_Suc [OF assms(1), of e] by auto
qed

lemma first_slot_bracket:
  assumes "schedule_wf es" "s \<le> u64_max" "epoch_start es e \<le> s"
  shows "get_first_slot_in_epoch es e = epoch_start es e"
  using assms first_slot_exact [OF assms(1), of e] by simp

lemma last_slot_bracket:
  assumes "schedule_wf es" "s < u64_max" "epoch_start es e \<le> s" "s < epoch_start es (Suc e)"
  shows "s \<le> get_last_slot_in_epoch es e"
proof -
  have "sat_add64 e 1 = Suc e" using assms(2,3) epoch_start_ge [OF assms(1), of e] by (simp add: sat_add64_exact)
  then show ?thesis using assms first_slot_exact [OF assms(1), of "Suc e"] by (simp add: get_last_slot_in_epoch_def)
qed

lemma first_slot_unique:
  assumes "schedule_wf es" "s < u64_max" "epoch_start es e \<le> s" "s < epoch_start es (Suc e)"
    and "get_first_slot_in_epoch es e' \<le> s" "s < get_first_slot_in_epoch es e' + get_slots_in_epoch es e'"
  shows "e' = e"
proof -
  have "epoch_start es e' \<le> s" "get_first_slot_in_epoch es e' = epoch_start es e'"
    using assms(2,5) first_slot_exact [OF assms(1), of e'] by (auto simp: min_def split: if_splits)
  then show ?thesis using epoch_unique [OF assms(1), of e' s e] assms by (simp add: epoch_start_Suc)
qed

text \<open>
  What the functions should give for a slot: both lookups return the same epoch, its first slot plus the
  index is the slot, the index is below its number of slots, its last slot is not before the slot, and no
  other epoch contains the slot. The last two are only asked of slots below the largest one, where the
  saturating sums are exact.
\<close>

definition slot_in_one_epoch :: "EpochSchedule \<Rightarrow> slot \<Rightarrow> bool" where
  "slot_in_one_epoch es s \<longleftrightarrow>
     (\<exists>e i. get_epoch es s = Some e \<and> get_epoch_and_slot_index es s = Some (e, i) \<and>
        get_first_slot_in_epoch es e + i = s \<and> i < get_slots_in_epoch es e \<and>
        (s < u64_max \<longrightarrow> s \<le> get_last_slot_in_epoch es e) \<and>
        (\<forall>e'. get_first_slot_in_epoch es e' \<le> s \<longrightarrow> s < get_first_slot_in_epoch es e' + get_slots_in_epoch es e' \<longrightarrow>
           s < u64_max \<longrightarrow> e' = e))"

lemma wf_slot_in_one_epoch:
  assumes "schedule_wf es" "s \<le> u64_max"
  shows "slot_in_one_epoch es s"
proof -
  obtain e where e: "get_epoch es s = Some e" "get_epoch_and_slot_index es s = Some (e, s - epoch_start es e)"
    "epoch_start es e \<le> s" "s < epoch_start es (Suc e)" using epoch_lookup [OF assms] by blast
  have first: "get_first_slot_in_epoch es e = epoch_start es e" by (rule first_slot_bracket [OF assms e(3)])
  have "s < u64_max \<longrightarrow> s \<le> get_last_slot_in_epoch es e" using last_slot_bracket [OF assms(1) _ e(3,4)] by blast
  moreover have "\<forall>e'. get_first_slot_in_epoch es e' \<le> s \<longrightarrow> s < get_first_slot_in_epoch es e' + get_slots_in_epoch es e' \<longrightarrow>
       s < u64_max \<longrightarrow> e' = e" using first_slot_unique [OF assms(1) _ e(3,4)] by blast
  moreover have "s - epoch_start es e < get_slots_in_epoch es e" using e(3,4) epoch_start_Suc [OF assms(1), of e] by simp
  ultimately show ?thesis using e first
    unfolding slot_in_one_epoch_def by (intro exI [of _ e] exI [of _ "s - epoch_start es e"]) simp
qed

text \<open>A slot that lies in two epochs, or whose epoch does not start before it, shows that the schedule is off.\<close>

lemma slot_in_two_epochs:
  assumes "s < u64_max" "e1 \<noteq> e2"
    and "get_first_slot_in_epoch es e1 \<le> s" "s < get_first_slot_in_epoch es e1 + get_slots_in_epoch es e1"
    and "get_first_slot_in_epoch es e2 \<le> s" "s < get_first_slot_in_epoch es e2 + get_slots_in_epoch es e2"
  shows "\<not> slot_in_one_epoch es s"
  using assms unfolding slot_in_one_epoch_def by metis

lemma slot_in_no_epoch:
  assumes "\<And>e. get_first_slot_in_epoch es e \<le> s \<Longrightarrow> get_first_slot_in_epoch es e + get_slots_in_epoch es e \<le> s"
  shows "\<not> slot_in_one_epoch es s"
  using assms unfolding slot_in_one_epoch_def by (metis le_add1 nat_add_left_cancel_less not_le)

lemma normal_first:
  assumes "first_normal_slot (config es) \<le> u64_max" "\<not> warmup (config es) \<or> first_normal_epoch (config es) \<le> e"
  shows "first_normal_slot (config es) \<le> get_first_slot_in_epoch es e"
    and "e \<le> first_normal_epoch (config es) \<Longrightarrow> get_first_slot_in_epoch es e = first_normal_slot (config es)"
  using assms by (auto simp: get_first_slot_in_epoch_def sat_add64_def sat_mul64_def)

lemma cold_not_one:
  assumes "\<not> warmup (config es)" "0 < slots_per_epoch (config es)" "first_normal_slot (config es) \<le> u64_max"
    and "first_normal_epoch (config es) \<noteq> 0 \<or> first_normal_slot (config es) \<noteq> 0"
  shows "\<not> slot_in_one_epoch es 0"
proof (cases "first_normal_slot (config es) = 0")
  case True
  then have "get_first_slot_in_epoch es 0 = 0" "get_first_slot_in_epoch es 1 = 0" "get_slots_in_epoch es e = slots_per_epoch (config es)" for e
    using normal_first(2) [OF assms(3)] assms(1,4) by (simp_all add: get_slots_in_epoch_def)
  then show ?thesis using assms(2) by (intro slot_in_two_epochs [of 0 0 1]) (simp_all add: u64_max_def)
next
  case False
  have "0 < get_first_slot_in_epoch es e" for e
    using normal_first(1) [OF assms(3), of e] assms(1) False by simp
  then show ?thesis by (intro slot_in_no_epoch) (metis not_le)
qed

lemma warm_not_one:
  fixes es :: EpochSchedule
  defines "m \<equiv> first_normal_epoch (config es)"
  assumes "warmup (config es)" "m \<le> 63" "0 < slots_per_epoch (config es)" "first_normal_slot (config es) \<le> u64_max"
    and "first_normal_slot (config es) \<noteq> 2 ^ m - 1"
  shows "\<not> slot_in_one_epoch es (min (2 ^ m - 1) (first_normal_slot (config es)))"
proof (cases "2 ^ m - 1 < first_normal_slot (config es)")
  case True
  have "get_first_slot_in_epoch es e + get_slots_in_epoch es e \<le> 2 ^ m - 1"
    if le: "get_first_slot_in_epoch es e \<le> 2 ^ m - 1" for e
  proof -
    have e: "e < m" using normal_first(1) [OF assms(5), of e] le True by (auto simp: m_def not_le [symmetric])
    then have "get_first_slot_in_epoch es e = 2 ^ e - 1" "get_slots_in_epoch es e = 2 ^ e"
      using warm_first [of es e] warm_slots [of es e] assms(2,3) by (auto simp: m_def get_first_slot_in_epoch_def)
    moreover have "(2::nat) ^ Suc e \<le> 2 ^ m" using e by (intro power_increasing) auto
    moreover have "1 \<le> (2::nat) ^ e" by simp
    ultimately show ?thesis unfolding power_Suc by linarith
  qed
  then show ?thesis using True by (intro slot_in_no_epoch) simp
next
  case False
  let ?s = "first_normal_slot (config es)"
  have lt: "?s < 2 ^ m - 1" using False assms(6) by simp
  obtain n where n: "2 ^ n \<le> ?s + 1" "?s + 1 < 2 ^ (n + 1)" using ex_power_ivl1 [of 2 "?s + 1"] by auto
  have "(2::nat) ^ n < 2 ^ m" using n(1) lt by linarith
  then have nm: "n < m" by (rule power_less_imp_less_exp [rotated]) simp
  then have "get_first_slot_in_epoch es n = 2 ^ n - 1" "get_slots_in_epoch es n = 2 ^ n"
    using warm_first [of es n] warm_slots [of es n] assms(2,3) by (auto simp: m_def get_first_slot_in_epoch_def)
  moreover have "get_first_slot_in_epoch es m = ?s" "get_slots_in_epoch es m = slots_per_epoch (config es)"
    using normal_first(2) [OF assms(5), of m] by (simp_all add: m_def get_slots_in_epoch_def)
  moreover have "?s < u64_max" using lt warm_bound [OF assms(3)] by linarith
  ultimately have "\<not> slot_in_one_epoch es ?s"
    using n nm assms(4) by (intro slot_in_two_epochs [of _ n m]) auto
  then show ?thesis using lt by simp
qed

text \<open>
  C15. For a schedule with non-empty epochs and at most 63 warm-up epochs, the epochs partition the slots
  exactly when the first normal slot fits the warm-up: with warm-up it must be \<open>2 ^ e - 1\<close> for the first
  normal epoch \<open>e\<close>, since warm-up epochs have 1, 2, 4, \<open>\<dots>\<close> slots, and without warm-up slot and epoch must
  be 0. Then for every slot the lookup of its epoch returns, both lookups agree, the first slot of that
  epoch plus the slot's index in it is the slot again, the index is below the epoch's number of slots, and,
  for slots below the largest one, the slot is not after the epoch's last slot and no other epoch contains
  it. In every other such schedule this fails for some slot.
\<close>
theorem epoch_slot_roundtrip:
  assumes "0 < slots_per_epoch (config es)" "first_normal_slot (config es) \<le> u64_max"
    and "warmup (config es) \<longrightarrow> first_normal_epoch (config es) \<le> 63"
  shows "(\<forall>s \<le> u64_max. slot_in_one_epoch es s) \<longleftrightarrow>
    (if warmup (config es) then first_normal_slot (config es) = 2 ^ first_normal_epoch (config es) - 1
     else first_normal_epoch (config es) = 0 \<and> first_normal_slot (config es) = 0)"
    (is "?parts \<longleftrightarrow> ?fits")
proof
  assume ?fits
  then have "schedule_wf es" using assms by (auto simp: schedule_wf_def)
  then show ?parts using wf_slot_in_one_epoch by blast
next
  assume parts: ?parts
  show ?fits
  proof (cases "warmup (config es)")
    case True
    have "min (2 ^ first_normal_epoch (config es) - 1) (first_normal_slot (config es)) \<le> u64_max" using assms(2) by simp
    then show ?thesis using warm_not_one [of es] True assms parts by auto
  next
    case False
    have "slot_in_one_epoch es 0" using parts by simp
    then show ?thesis using False cold_not_one [OF False assms(1,2)] by metis
  qed
qed

text \<open>
  With five warm-up epochs of together 31 slots, slot 40 is in one epoch. The schedule of the sysvar tests,
  whose fourteen warm-up epochs are taken to have 524256 slots, is not a partition.
\<close>

theorem epoch_slot_roundtrip_witness:
  "slot_in_one_epoch (schedule_new \<lparr>slots_per_epoch = 100, leader_schedule_slot_offset = 100, warmup = True,
      first_normal_epoch = 5, first_normal_slot = 31\<rparr>) 40 \<and>
   \<not> (\<forall>s \<le> u64_max. slot_in_one_epoch (schedule_new \<lparr>slots_per_epoch = 8192, leader_schedule_slot_offset = 8192,
      warmup = True, first_normal_epoch = 14, first_normal_slot = 524256\<rparr>) s)"
proof -
  define es where "es = schedule_new \<lparr>slots_per_epoch = 100, leader_schedule_slot_offset = 100, warmup = True,
      first_normal_epoch = 5, first_normal_slot = 31\<rparr>"
  define es2 where "es2 = schedule_new \<lparr>slots_per_epoch = 8192, leader_schedule_slot_offset = 8192,
      warmup = True, first_normal_epoch = 14, first_normal_slot = 524256\<rparr>"
  have "\<forall>s \<le> u64_max. slot_in_one_epoch es s"
    using epoch_slot_roundtrip [of es] by (simp add: es_def schedule_new_def u64_max_def)
  moreover have "\<not> (\<forall>s \<le> u64_max. slot_in_one_epoch es2 s)"
    using epoch_slot_roundtrip [of es2] by (simp add: es2_def schedule_new_def u64_max_def)
  ultimately show ?thesis unfolding es_def [symmetric] es2_def [symmetric] by (simp add: u64_max_def)
qed

text \<open>
  In a schedule like the latter the slot right after the warm-up epochs is put into the first normal epoch with
  index 0, although that epoch starts after it.
\<close>

lemma late_first_normal_slot:
  fixes es :: EpochSchedule
  defines "m \<equiv> first_normal_epoch (config es)"
  assumes "warmup (config es)" "m \<le> 63" "0 < slots_per_epoch (config es)" "first_normal_slot (config es) \<le> u64_max"
    and "2 ^ m - 1 < first_normal_slot (config es)"
  shows "get_epoch_and_slot_index es (2 ^ m - 1) = Some (m, 0)"
    and "2 ^ m - 1 < get_first_slot_in_epoch es m"
proof -
  have loop: "e \<le> m \<Longrightarrow> epoch_loop es (2 ^ m - 1) e (2 ^ e - 1) = Some m" for e
  proof (induction "m - e" arbitrary: e)
    case 0
    then have "e = m" by simp
    moreover have "\<not> sat_add64 a n \<le> a" if "0 < n" "a < u64_max" for a n
      using that by (simp add: sat_add64_def min_def)
    then have "\<not> sat_add64 (2 ^ m - 1) (get_slots_in_epoch es m) \<le> 2 ^ m - 1"
      using assms(4) warm_bound [OF assms(3)] by (simp add: get_slots_in_epoch_def m_def)
    ultimately show ?case by (subst epoch_loop.simps) simp
  next
    case (Suc k)
    have e: "e < m" "Suc e \<le> 63" using Suc.hyps(2) assms(3) by auto
    have pow: "(2::nat) ^ e - 1 + 2 ^ e = 2 ^ Suc e - 1" using one_le_power [of "2::nat" e] by simp
    have step: "sat_add64 (2 ^ e - 1) (get_slots_in_epoch es e) = 2 ^ Suc e - 1"
      using warm_slots [of es e] assms(2,3) e(1) warm_bound [OF e(2)] pow by (simp add: m_def sat_add64_exact)
    have nxt: "sat_add64 e 1 = Suc e" using e(2) by (simp add: sat_add64_exact u64_max_def)
    have "(2::nat) ^ Suc e \<le> 2 ^ m" using e(1) by (intro power_increasing) auto
    then have "(2::nat) ^ Suc e - 1 \<le> 2 ^ m - 1" by simp
    with Suc.hyps(1) [of "Suc e"] Suc.hyps(2) e(1) show ?case
      by (subst epoch_loop.simps) (simp add: step nxt del: power_Suc One_nat_def)
  qed
  show late: "2 ^ m - 1 < get_first_slot_in_epoch es m"
    using normal_first(2) [OF assms(5), of m] assms(6) by (simp add: m_def)
  have "get_epoch_slow es (2 ^ m - 1) = Some m" using loop [of 0] by (simp add: get_epoch_slow_def)
  then show "get_epoch_and_slot_index es (2 ^ m - 1) = Some (m, 0)"
    using assms(2,6) late by (simp add: get_epoch_and_slot_index_def)
qed

text \<open>
  The top of the range: the epoch that holds the largest slot has its first slot, but its computed last
  slot is one below, since the first slot of the epoch after it saturates.
\<close>

lemma last_slot_saturates:
  "schedule_wf es \<Longrightarrow> u64_max < epoch_start es (Suc e) \<Longrightarrow> e < u64_max \<Longrightarrow> get_last_slot_in_epoch es e = u64_max - 1"
  using first_slot_exact [of es "Suc e"] by (simp add: get_last_slot_in_epoch_def sat_add64_exact)

text \<open>A schedule with empty epochs panics on every slot from the first normal one on.\<close>

lemma empty_epochs_panic:
  assumes "slots_per_epoch (config es) = 0" "\<not> warmup (config es) \<or> first_normal_slot (config es) \<le> s"
  shows "get_epoch es s = None" and "get_epoch_and_slot_index es s = None"
  using assms by (simp_all add: get_epoch_def get_epoch_and_slot_index_def checked_div_def)

text \<open>The leader schedule of a slot is that of an epoch that is not after the slot's own.\<close>

lemma leader_schedule_not_later:
  assumes "schedule_wf es" "s \<le> u64_max"
  shows "\<exists>e l. get_epoch es s = Some e \<and> get_leader_schedule_epoch es s = Some l \<and> l \<le> e"
proof -
  define t where "t = s - leader_schedule_slot_offset (config es)"
  have t: "t \<le> s" "t \<le> u64_max" using assms(2) by (auto simp: t_def)
  obtain e where e: "get_epoch es s = Some e" "s < epoch_start es (Suc e)" using epoch_lookup [OF assms] by blast
  obtain l where l: "get_epoch es t = Some l" "epoch_start es l \<le> t" using epoch_lookup [OF assms(1) t(2)] by blast
  have "l \<le> e" using epoch_start_mono [OF assms(1), of "Suc e" l] e(2) l(2) t(1) by (cases "Suc e \<le> l") auto
  then show ?thesis using e(1) l(1) by (auto simp: get_leader_schedule_epoch_def t_def)
qed

end
