(* ===== verification/Blockhash_Queue.thy ===== *)
theory Blockhash_Queue
  imports Karst_Prelude "HOL-Library.Monad_Syntax"
begin

section \<open>Blockhash queue\<close>

text \<open>
  \<open>karstflow-consensus/src/blockhash_queue.rs\<close>: the recent blockhashes, oldest first, with an index from
  a hash to its position. The hash type is a parameter. The queue is shown to refine the list of the
  most recent \<open>MAX_RECENT_BLOCKHASHES\<close> hashes, newest first.
\<close>

subsection \<open>Definitions\<close>

definition MAX_RECENT_BLOCKHASHES :: nat where
  "MAX_RECENT_BLOCKHASHES = 300"

record 'h BlockhashInfo =
  bh_hash :: 'h
  lamports_per_signature :: u64
  bh_slot :: slot

definition info_new :: "'h \<Rightarrow> u64 \<Rightarrow> slot \<Rightarrow> 'h BlockhashInfo" where
  "info_new h l s = \<lparr>bh_hash = h, lamports_per_signature = l, bh_slot = s\<rparr>"

record 'h BlockhashQueue =
  queue :: "'h BlockhashInfo list"
  index :: "('h, nat) hmap"
  max_age :: nat

definition queue_new :: "nat \<Rightarrow> 'h BlockhashQueue" where
  "queue_new ma = \<lparr>queue = [], index = [], max_age = ma\<rparr>"

definition queue_default :: "'h BlockhashQueue" where
  "queue_default = queue_new MAX_RECENT_BLOCKHASHES"

definition rebuild_index :: "'h BlockhashQueue \<Rightarrow> 'h BlockhashQueue" where
  "rebuild_index b = b\<lparr>index := fold (\<lambda>(pos, info). hm_insert (bh_hash info) pos) (enumerate 0 (queue b)) []\<rparr>"

definition register_hash :: "'h BlockhashQueue \<Rightarrow> 'h BlockhashInfo \<Rightarrow> 'h BlockhashQueue" where
  "register_hash b info =
     (if hm_get (index b) (bh_hash info) \<noteq> None then b
      else let b = (if length (queue b) \<ge> MAX_RECENT_BLOCKHASHES
                    then (case queue b of [] \<Rightarrow> b
                          | old_info # rest \<Rightarrow> b\<lparr>queue := rest, index := hm_remove (bh_hash old_info) (index b)\<rparr>)
                    else b);
               position = length (queue b);
               b = b\<lparr>queue := queue b @ [info], index := hm_insert (bh_hash info) position (index b)\<rparr>
           in rebuild_index b)"

definition get_hash_age :: "'h BlockhashQueue \<Rightarrow> 'h \<Rightarrow> nat option" where
  "get_hash_age b h = map_option (\<lambda>position. length (queue b) - 1 - position) (hm_get (index b) h)"

definition check_hash_age :: "'h BlockhashQueue \<Rightarrow> 'h \<Rightarrow> nat \<Rightarrow> bool" where
  "check_hash_age b h ma =
     (case hm_get (index b) h of
        Some position \<Rightarrow> (let age = length (queue b) - 1 - position in age \<le> ma)
      | None \<Rightarrow> False)"

definition is_hash_valid :: "'h BlockhashQueue \<Rightarrow> 'h \<Rightarrow> bool" where
  "is_hash_valid b h = check_hash_age b h (max_age b)"

definition get_lamports_per_signature :: "'h BlockhashQueue \<Rightarrow> 'h \<Rightarrow> u64 option" where
  "get_lamports_per_signature b h =
     map_option lamports_per_signature (hm_get (index b) h \<bind> (\<lambda>pos. vec_get (queue b) pos))"

definition last_blockhash_info :: "'h BlockhashQueue \<Rightarrow> 'h BlockhashInfo option" where
  "last_blockhash_info b = (if queue b = [] then None else Some (last (queue b)))"

definition last_blockhash :: "'h BlockhashQueue \<Rightarrow> 'h option" where
  "last_blockhash b = map_option bh_hash (if queue b = [] then None else Some (last (queue b)))"

definition queue_len :: "'h BlockhashQueue \<Rightarrow> nat" where
  "queue_len b = length (queue b)"

definition queue_is_empty :: "'h BlockhashQueue \<Rightarrow> bool" where
  "queue_is_empty b \<longleftrightarrow> queue b = []"

definition queue_clear :: "'h BlockhashQueue \<Rightarrow> 'h BlockhashQueue" where
  "queue_clear b = b\<lparr>queue := [], index := []\<rparr>"

subsection \<open>The index\<close>

lemma rebuild_fields [simp]: "queue (rebuild_index b) = queue b" "max_age (rebuild_index b) = max_age b"
  by (simp_all add: rebuild_index_def)

lemma index_positions:
  assumes "distinct (map bh_hash q)"
  shows "hm_get (fold (\<lambda>(pos, info). hm_insert (bh_hash info) pos) (enumerate 0 q) []) h = Some p \<longleftrightarrow>
    p < length q \<and> bh_hash (q ! p) = h"
  using assms
proof (induction q arbitrary: p rule: rev_induct)
  case (snoc x q)
  show ?case
  proof (cases "h = bh_hash x")
    case True
    have "bh_hash (q ! j) \<noteq> bh_hash x" if "j < length q" for j using snoc.prems nth_mem [OF that] by (auto simp: image_iff)
    then show ?thesis using True by (auto simp: enumerate_append_eq hm_simps nth_append less_Suc_eq)
  next
    case False
    then show ?thesis using snoc by (auto simp: enumerate_append_eq hm_simps nth_append less_Suc_eq)
  qed
qed simp

text \<open>Rebuilding discards what the index held before.\<close>

definition index_ok :: "'h BlockhashQueue \<Rightarrow> bool" where
  "index_ok b \<longleftrightarrow> (\<forall>h p. hm_get (index b) h = Some p \<longleftrightarrow> p < length (queue b) \<and> bh_hash (queue b ! p) = h)"

lemma rebuild_index_ok: "distinct (map bh_hash (queue b)) \<Longrightarrow> index_ok (rebuild_index b)"
  by (simp add: index_ok_def rebuild_index_def index_positions)

subsection \<open>Refinement\<close>

text \<open>The specification: the recent entries, newest first; the age of a hash is how many came after it.\<close>

fun recent_age :: "'h \<Rightarrow> 'h BlockhashInfo list \<Rightarrow> nat option" where
  "recent_age h [] = None"
| "recent_age h (i # is) = (if bh_hash i = h then Some 0 else map_option Suc (recent_age h is))"

definition recent_register :: "'h BlockhashInfo \<Rightarrow> 'h BlockhashInfo list \<Rightarrow> 'h BlockhashInfo list" where
  "recent_register i is = (if bh_hash i \<in> bh_hash ` set is then is else take MAX_RECENT_BLOCKHASHES (i # is))"

definition queue_rel :: "nat \<Rightarrow> 'h BlockhashQueue \<Rightarrow> 'h BlockhashInfo list \<Rightarrow> bool" where
  "queue_rel ma b is \<longleftrightarrow> queue b = rev is \<and> max_age b = ma \<and> distinct (map bh_hash is) \<and>
     length is \<le> MAX_RECENT_BLOCKHASHES \<and> index_ok b"

lemma recent_age_iff:
  assumes "distinct (map bh_hash is)"
  shows "recent_age h is = Some k \<longleftrightarrow> k < length is \<and> bh_hash (is ! k) = h"
  using assms
proof (induction "is" arbitrary: k)
  case (Cons i "is")
  show ?case
  proof (cases k)
    case 0
    then show ?thesis by auto
  next
    case (Suc j)
    have "bh_hash i \<noteq> h" if "j < length is" "bh_hash (is ! j) = h" using Cons.prems nth_mem [OF that(1)] that(2) by (auto simp: image_iff)
    then show ?thesis using Suc Cons by auto
  qed
qed simp

lemma index_recent:
  assumes "queue_rel ma b is"
  shows "hm_get (index b) h = map_option (\<lambda>k. length is - 1 - k) (recent_age h is)"
proof (cases "recent_age h is")
  case None
  have "hm_get (index b) h \<noteq> Some p" for p
  proof
    assume "hm_get (index b) h = Some p"
    then have "p < length is" "bh_hash (rev is ! p) = h" using assms by (auto simp: queue_rel_def index_ok_def)
    then have "recent_age h is = Some (length is - Suc p)" using assms by (subst recent_age_iff) (auto simp: queue_rel_def rev_nth)
    then show False using None by simp
  qed
  then show ?thesis using None by (cases "hm_get (index b) h") auto
next
  case (Some k)
  then have "k < length is" "bh_hash (is ! k) = h" using assms recent_age_iff [of "is" h k] by (auto simp: queue_rel_def)
  then have "hm_get (index b) h = Some (length is - 1 - k)" using assms by (auto simp: queue_rel_def index_ok_def rev_nth)
  then show ?thesis using Some by simp
qed

lemma recent_age_less: "recent_age h is = Some k \<Longrightarrow> k < length is"
  by (induction "is" arbitrary: k) (auto split: if_splits)

lemma get_hash_age_recent: "queue_rel ma b is \<Longrightarrow> get_hash_age b h = recent_age h is"
  using index_recent [of ma b "is" h] recent_age_less [of h "is"]
  by (cases "recent_age h is") (auto simp: get_hash_age_def queue_rel_def)

lemma check_hash_age_recent:
  "queue_rel ma b is \<Longrightarrow> check_hash_age b h n \<longleftrightarrow> (case recent_age h is of None \<Rightarrow> False | Some k \<Rightarrow> k \<le> n)"
  using get_hash_age_recent [of ma b "is" h, symmetric]
  by (cases "hm_get (index b) h") (auto simp: get_hash_age_def check_hash_age_def Let_def)

lemma lamports_recent:
  assumes "queue_rel ma b is"
  shows "get_lamports_per_signature b h = map_option (\<lambda>k. lamports_per_signature (is ! k)) (recent_age h is)"
proof (cases "recent_age h is")
  case None
  then show ?thesis using index_recent [OF assms, of h] by (simp add: get_lamports_per_signature_def)
next
  case (Some k)
  have k: "k < length is" using recent_age_less [OF Some] .
  then have "rev is ! (length is - Suc k) = is ! k" by (simp add: rev_nth)
  then show ?thesis using index_recent [OF assms, of h] Some k assms
    by (simp add: get_lamports_per_signature_def vec_get_def queue_rel_def)
qed

lemma known_recent: "queue_rel ma b is \<Longrightarrow> hm_get (index b) h \<noteq> None \<longleftrightarrow> h \<in> bh_hash ` set is"
proof -
  assume r: "queue_rel ma b is"
  have "recent_age h is = None \<longleftrightarrow> h \<notin> bh_hash ` set is" by (induction "is") auto
  then show ?thesis using index_recent [OF r, of h] by simp
qed

lemma register_hash_rel:
  assumes "queue_rel ma b is"
  shows "queue_rel ma (register_hash b i) (recent_register i is)"
proof (cases "bh_hash i \<in> bh_hash ` set is")
  case True
  then show ?thesis using assms known_recent [OF assms, of "bh_hash i"] by (simp add: register_hash_def recent_register_def)
next
  case False
  define b' where "b' = register_hash b i"
  have q: "queue b = rev is" "distinct (map bh_hash is)" "length is \<le> MAX_RECENT_BLOCKHASHES" "max_age b = ma"
    using assms by (simp_all add: queue_rel_def)
  have new: "hm_get (index b) (bh_hash i) = None" using False known_recent [OF assms, of "bh_hash i"] by simp
  have b': "queue b' = rev (take MAX_RECENT_BLOCKHASHES (i # is))" "max_age b' = ma"
    using q new by (auto simp: b'_def register_hash_def Let_def MAX_RECENT_BLOCKHASHES_def split: list.splits)
  have "distinct (map bh_hash (take MAX_RECENT_BLOCKHASHES (i # is)))"
    using q(2) False by (simp only: take_map [symmetric]) (auto intro: distinct_take)
  then have d: "distinct (map bh_hash (queue b'))" using b'(1) by (simp add: rev_map [symmetric])
  obtain b0 where "b' = rebuild_index b0" using new by (auto simp: b'_def register_hash_def Let_def)
  then have "index_ok b'" using d rebuild_index_ok [of b0] by simp
  then show ?thesis using False b' d by (simp add: queue_rel_def recent_register_def b'_def rev_map [symmetric])
qed

text \<open>The operations of a queue with their answers.\<close>

datatype 'h queue_op = Register "'h BlockhashInfo" | Age 'h | Check_Age 'h nat | Is_Valid 'h | Fee 'h | Last | Len | Clear

datatype 'h queue_answer = Done | Yes_No bool | Nat_Opt "nat option" | Hash_Opt "'h option" | Count nat

fun queue_step :: "'h BlockhashQueue \<Rightarrow> 'h queue_op \<Rightarrow> ('h BlockhashQueue \<times> 'h queue_answer) option" where
  "queue_step b (Register i) = Some (register_hash b i, Done)"
| "queue_step b (Age h) = Some (b, Nat_Opt (get_hash_age b h))"
| "queue_step b (Check_Age h n) = Some (b, Yes_No (check_hash_age b h n))"
| "queue_step b (Is_Valid h) = Some (b, Yes_No (is_hash_valid b h))"
| "queue_step b (Fee h) = Some (b, Nat_Opt (get_lamports_per_signature b h))"
| "queue_step b Last = Some (b, Hash_Opt (last_blockhash b))"
| "queue_step b Len = Some (b, Count (queue_len b))"
| "queue_step b Clear = Some (queue_clear b, Done)"

fun recent_step :: "nat \<Rightarrow> 'h BlockhashInfo list \<Rightarrow> 'h queue_op \<Rightarrow> 'h BlockhashInfo list \<times> 'h queue_answer" where
  "recent_step ma is (Register i) = (recent_register i is, Done)"
| "recent_step ma is (Age h) = (is, Nat_Opt (recent_age h is))"
| "recent_step ma is (Check_Age h n) = (is, Yes_No (case recent_age h is of None \<Rightarrow> False | Some k \<Rightarrow> k \<le> n))"
| "recent_step ma is (Is_Valid h) = (is, Yes_No (case recent_age h is of None \<Rightarrow> False | Some k \<Rightarrow> k \<le> ma))"
| "recent_step ma is (Fee h) = (is, Nat_Opt (map_option (\<lambda>k. lamports_per_signature (is ! k)) (recent_age h is)))"
| "recent_step ma is Last = (is, Hash_Opt (case is of [] \<Rightarrow> None | i # _ \<Rightarrow> Some (bh_hash i)))"
| "recent_step ma is Len = (is, Count (length is))"
| "recent_step ma is Clear = ([], Done)"

lemma queue_rel_empty: "queue_rel ma (queue_new ma) []"
  by (simp add: queue_rel_def queue_new_def index_ok_def)

lemma queue_clear_rel: "queue_rel ma b is \<Longrightarrow> queue_rel ma (queue_clear b) []"
  by (simp add: queue_rel_def queue_clear_def index_ok_def)

lemma is_hash_valid_recent:
  "queue_rel ma b is \<Longrightarrow> is_hash_valid b h \<longleftrightarrow> (case recent_age h is of None \<Rightarrow> False | Some k \<Rightarrow> k \<le> ma)"
  using check_hash_age_recent [of ma b "is" h ma] by (simp add: is_hash_valid_def queue_rel_def)

lemma last_recent: "queue_rel ma b is \<Longrightarrow> last_blockhash b = (case is of [] \<Rightarrow> None | i # _ \<Rightarrow> Some (bh_hash i))"
  by (cases "is") (simp_all add: last_blockhash_def queue_rel_def)

interpretation queue_sim: simulation queue_step "recent_step ma" "queue_rel ma" "\<lambda>_. True" for ma
proof
  fix b :: "'a BlockhashQueue" and "is" op
  assume r: "queue_rel ma b is"
  show "\<exists>b'. queue_step b op = Some (b', snd (recent_step ma is op)) \<and> queue_rel ma b' (fst (recent_step ma is op))"
    using r register_hash_rel [OF r] queue_clear_rel [OF r] get_hash_age_recent [OF r] check_hash_age_recent [OF r]
      is_hash_valid_recent [OF r] lamports_recent [OF r] last_recent [OF r]
    by (cases op) (simp_all add: queue_len_def queue_rel_def)
qed

text \<open>
  C16. The blockhash queue refines the list of the most recent 300 distinct blockhashes, newest first: after
  any sequence of registrations, queries and clears on a new queue, every query has answered what that list
  says (the age of a hash is the number of hashes registered after it, its fee rate is the one it was
  registered with), although registration evicts from the front and moves every position of the index.
\<close>
theorem blockhash_queue_refines_recent:
  "\<exists>b. run_steps queue_step (queue_new ma) ops = Some (b, snd (run_spec (recent_step ma) [] ops)) \<and>
     queue b = rev (fst (run_spec (recent_step ma) [] ops)) \<and> queue_len b \<le> MAX_RECENT_BLOCKHASHES"
proof -
  have "list_all (\<lambda>_. True) ops" by (simp add: list_all_iff)
  from queue_sim.run_sim [OF queue_rel_empty [of ma] this] show ?thesis by (auto simp: queue_rel_def queue_len_def)
qed

text \<open>With the default age limit every hash that is still in the queue is valid.\<close>

lemma default_validity:
  assumes "queue_rel MAX_RECENT_BLOCKHASHES b is"
  shows "is_hash_valid b h \<longleftrightarrow> h \<in> bh_hash ` set is"
proof -
  have "recent_age h is = None \<longleftrightarrow> h \<notin> bh_hash ` set is" by (induction "is") auto
  then show ?thesis using is_hash_valid_recent [OF assms, of h] recent_age_less [of h "is"] assms
    by (cases "recent_age h is") (force simp: queue_rel_def)+
qed

end
