(* ===== verification/Top_Votes.thy ===== *)
theory Top_Votes
  imports Karst_Prelude "HOL-Library.Product_Lexorder"
begin

section \<open>Top validators by stake\<close>

text \<open>
  \<open>karstflow-consensus/src/top_votes.rs\<close>: the bounded set of the vote accounts with the largest stakes.
  Vote account keys are a linear order (the order of their bytes). The standard library's binary heap is
  the list of its entries in the order in which it pops them; capacity hints have no effect.
\<close>

subsection \<open>Definitions\<close>

definition DEFAULT_MAX_VALIDATORS :: nat where
  "DEFAULT_MAX_VALIDATORS = 2000"

record 'k TopVoteEntry =
  te_pubkey :: 'k
  te_node_account :: 'k
  te_stake :: u64

record 'k HeapEntry =
  he_stake :: u64
  he_pubkey :: 'k

text \<open>The reversed comparison puts the smallest stake first, and the smaller key among equal stakes.\<close>

definition heap_key :: "'k HeapEntry \<Rightarrow> u64 \<times> 'k" where
  "heap_key e = (he_stake e, he_pubkey e)"

definition heap_push :: "('k :: linorder) HeapEntry \<Rightarrow> 'k HeapEntry list \<Rightarrow> 'k HeapEntry list" where
  "heap_push e h = insort_key heap_key e h"

record 'k TopVotes =
  max_validators :: nat
  tv_heap :: "'k HeapEntry list"
  tv_map :: "('k, 'k TopVoteEntry) hmap"
  min_stake_watermark :: u64

definition top_votes_new :: "nat \<Rightarrow> 'k TopVotes" where
  "top_votes_new n = \<lparr>max_validators = n, tv_heap = [], tv_map = [], min_stake_watermark = 0\<rparr>"

definition with_default_capacity :: "'k TopVotes" where
  "with_default_capacity = top_votes_new DEFAULT_MAX_VALIDATORS"

definition top_votes_reset :: "'k TopVotes \<Rightarrow> 'k TopVotes" where
  "top_votes_reset t = t\<lparr>tv_heap := [], tv_map := [], min_stake_watermark := 0\<rparr>"

fun drain_heap :: "u64 \<Rightarrow> 'k HeapEntry list \<Rightarrow> ('k, 'k TopVoteEntry) hmap \<Rightarrow> 'k HeapEntry list \<Rightarrow>
    ('k, 'k TopVoteEntry) hmap \<times> 'k HeapEntry list" where
  "drain_heap st [] m keep = (m, keep)"
| "drain_heap st (e # h) m keep =
     (if he_stake e = st then drain_heap st h (hm_remove (he_pubkey e) m) keep
      else drain_heap st h m (keep @ [e]))"

definition evict_all_at_stake :: "('k :: linorder) TopVotes \<Rightarrow> u64 \<Rightarrow> 'k TopVotes" where
  "evict_all_at_stake t st =
     (let (m, keep) = drain_heap st (tv_heap t) (tv_map t) []
      in t\<lparr>tv_map := m, tv_heap := fold heap_push keep []\<rparr>)"

definition insert_entry :: "('k :: linorder) TopVotes \<Rightarrow> 'k \<Rightarrow> 'k \<Rightarrow> u64 \<Rightarrow> 'k TopVotes" where
  "insert_entry t pubkey node_account st =
     t\<lparr>tv_heap := heap_push \<lparr>he_stake = st, he_pubkey = pubkey\<rparr> (tv_heap t),
       tv_map := hm_insert pubkey \<lparr>te_pubkey = pubkey, te_node_account = node_account, te_stake = st\<rparr> (tv_map t)\<rparr>"

definition top_votes_update :: "('k :: linorder) TopVotes \<Rightarrow> 'k \<Rightarrow> 'k \<Rightarrow> u64 \<Rightarrow> 'k TopVotes" where
  "top_votes_update t pubkey node_account st =
     (if st \<le> min_stake_watermark t then t
      else if length (tv_map t) \<ge> max_validators t
      then (case tv_heap t of
              [] \<Rightarrow> t
            | entry # _ \<Rightarrow>
                (let min_stake = he_stake entry in
                 if st < min_stake then t
                 else if st = min_stake
                 then evict_all_at_stake (t\<lparr>min_stake_watermark := st\<rparr>) st
                 else insert_entry (evict_all_at_stake t min_stake) pubkey node_account st))
      else insert_entry t pubkey node_account st)"

definition top_votes_query :: "'k TopVotes \<Rightarrow> 'k \<Rightarrow> ('k \<times> u64) option" where
  "top_votes_query t pubkey = map_option (\<lambda>e. (te_node_account e, te_stake e)) (hm_get (tv_map t) pubkey)"

definition top_votes_contains :: "'k TopVotes \<Rightarrow> 'k \<Rightarrow> bool" where
  "top_votes_contains t pubkey \<longleftrightarrow> hm_get (tv_map t) pubkey \<noteq> None"

definition top_votes_len :: "'k TopVotes \<Rightarrow> nat" where
  "top_votes_len t = length (tv_map t)"

definition top_votes_is_empty :: "'k TopVotes \<Rightarrow> bool" where
  "top_votes_is_empty t \<longleftrightarrow> tv_map t = []"

subsection \<open>The heap and the map\<close>

lemma set_heap_push [simp]: "set (heap_push e h) = insert e (set h)"
  by (simp add: heap_push_def set_insort_key)

lemma sorted_heap_push: "sorted (map heap_key h) \<Longrightarrow> sorted (map heap_key (heap_push e h))"
  by (simp add: heap_push_def sorted_insort_key)

lemma heap_refill:
  "set (fold heap_push es h) = set es \<union> set h"
  "sorted (map heap_key h) \<Longrightarrow> sorted (map heap_key (fold heap_push es h))"
  by (induction es arbitrary: h) (simp_all add: sorted_heap_push)

lemma drain_heap_keep: "set (snd (drain_heap st h m keep)) = set keep \<union> {e \<in> set h. he_stake e \<noteq> st}"
  by (induction h arbitrary: m keep) auto

lemma drain_heap_map: "fst (drain_heap st h m keep) = fold (\<lambda>e. hm_remove (he_pubkey e)) (filter (\<lambda>e. he_stake e = st) h) m"
  by (induction h arbitrary: m keep) auto

lemma fold_remove:
  "hm_wf m \<Longrightarrow> hm_wf (fold (\<lambda>e. hm_remove (he_pubkey e)) es m)"
  "hm_get (fold (\<lambda>e. hm_remove (he_pubkey e)) es m) k = (if k \<in> he_pubkey ` set es then None else hm_get m k)"
  by (induction es arbitrary: m) (auto simp: hm_simps)

text \<open>
  The accounts in the set with their stakes, and that the heap holds the same: it does while every account
  is offered once.
\<close>

definition members :: "'k TopVotes \<Rightarrow> ('k \<times> u64) set" where
  "members t = {(k, te_stake e) | k e. hm_get (tv_map t) k = Some e}"

definition top_votes_inv :: "('k :: linorder) TopVotes \<Rightarrow> bool" where
  "top_votes_inv t \<longleftrightarrow> hm_wf (tv_map t) \<and> sorted (map heap_key (tv_heap t)) \<and>
     (\<lambda>e. (he_pubkey e, he_stake e)) ` set (tv_heap t) = members t"

lemma members_iff: "(k, s) \<in> members t \<longleftrightarrow> (\<exists>e. hm_get (tv_map t) k = Some e \<and> te_stake e = s)"
  by (auto simp: members_def)

lemma members_fun: "(k, s) \<in> members t \<Longrightarrow> (k, s') \<in> members t \<Longrightarrow> s = s'"
  by (auto simp: members_def)

lemma finite_members: "finite (members t)"
proof -
  have "members t \<subseteq> (\<lambda>(k, e). (k, te_stake e)) ` set (tv_map t)" by (force simp: members_def dest: map_of_SomeD)
  then show ?thesis by (rule finite_subset) simp
qed

lemma card_members:
  assumes "hm_wf (tv_map t)"
  shows "card (members t) = length (tv_map t)"
proof -
  have "members t = (\<lambda>(k, e). (k, te_stake e)) ` set (tv_map t)"
    unfolding members_def hm_mem_get [OF assms, symmetric] by auto
  moreover have "inj_on (\<lambda>(k, e). (k, te_stake e)) (set (tv_map t))"
    by (rule inj_onI) (auto dest: eq_key_imp_eq_value [OF assms])
  ultimately have "card (members t) = card (set (tv_map t))" by (simp add: card_image)
  then show ?thesis using assms by (simp add: distinct_card distinct_map)
qed

lemma insert_entry_inv:
  assumes "top_votes_inv t" "k \<notin> fst ` members t"
  shows "top_votes_inv (insert_entry t k n s)" "members (insert_entry t k n s) = insert (k, s) (members t)"
proof -
  show m: "members (insert_entry t k n s) = insert (k, s) (members t)"
    using assms(2) by (force simp: members_def insert_entry_def hm_simps split: if_splits)
  show "top_votes_inv (insert_entry t k n s)"
    using assms(1) m unfolding top_votes_inv_def by (simp add: insert_entry_def sorted_heap_push)
qed

lemma evict_inv:
  assumes "top_votes_inv t"
  shows "top_votes_inv (evict_all_at_stake t s)" "members (evict_all_at_stake t s) = {x \<in> members t. snd x \<noteq> s}"
proof -
  let ?es = "filter (\<lambda>e. he_stake e = s) (tv_heap t)"
  have heap: "(\<lambda>e. (he_pubkey e, he_stake e)) ` set (tv_heap t) = members t" and wf: "hm_wf (tv_map t)"
    using assms by (simp_all add: top_votes_inv_def)
  have mp: "tv_map (evict_all_at_stake t s) = fold (\<lambda>e. hm_remove (he_pubkey e)) ?es (tv_map t)"
    by (simp add: evict_all_at_stake_def drain_heap_map split_beta)
  have gone: "k \<in> he_pubkey ` set ?es \<longleftrightarrow> (k, s) \<in> members t" for k unfolding heap [symmetric] by auto
  have "(k, v) \<in> members (evict_all_at_stake t s) \<longleftrightarrow> (k, v) \<in> members t \<and> v \<noteq> s" for k v
  proof -
    have get: "hm_get (tv_map (evict_all_at_stake t s)) k = (if (k, s) \<in> members t then None else hm_get (tv_map t) k)"
      unfolding mp fold_remove(2) gone ..
    show ?thesis
    proof (cases "(k, s) \<in> members t")
      case True
      then show ?thesis using get members_fun [OF True, of v] members_iff [of k v "evict_all_at_stake t s"] by auto
    next
      case False
      then show ?thesis using get members_iff [of k v "evict_all_at_stake t s"] members_iff [of k v t] by auto
    qed
  qed
  then show m: "members (evict_all_at_stake t s) = {x \<in> members t. snd x \<noteq> s}" by auto
  have "set (tv_heap (evict_all_at_stake t s)) = {e \<in> set (tv_heap t). he_stake e \<noteq> s}"
    by (simp add: evict_all_at_stake_def split_beta heap_refill(1) drain_heap_keep)
  then have "(\<lambda>e. (he_pubkey e, he_stake e)) ` set (tv_heap (evict_all_at_stake t s)) = {x \<in> members t. snd x \<noteq> s}"
    unfolding heap [symmetric] by auto
  then show "top_votes_inv (evict_all_at_stake t s)"
    using m mp wf fold_remove(1) by (simp add: top_votes_inv_def evict_all_at_stake_def split_beta heap_refill(2))
qed

subsection \<open>Selection\<close>

text \<open>\<open>S\<close> is a selection of the \<open>K\<close> largest stakes among the offers \<open>X\<close>.\<close>

definition top_selection :: "nat \<Rightarrow> ('k \<times> u64) set \<Rightarrow> ('k \<times> u64) set \<Rightarrow> bool" where
  "top_selection K X S \<longleftrightarrow> S \<subseteq> X \<and> card S = min K (card X) \<and> (\<forall>a \<in> S. \<forall>b \<in> X - S. snd b < snd a)"

lemma top_selection_room:
  assumes "finite X" "top_selection K X S" "card S < K" "x \<notin> X"
  shows "top_selection K (insert x X) (insert x S)"
proof -
  have "card S = card X" "S \<subseteq> X" using assms(2,3) by (auto simp: top_selection_def)
  then have "S = X" using card_subset_eq [OF assms(1)] by blast
  then show ?thesis using assms by (simp add: top_selection_def)
qed

lemma top_selection_low:
  assumes "finite X" "top_selection K X S" "K \<le> card S" "x \<notin> X" "\<forall>a \<in> S. snd x < snd a"
  shows "top_selection K (insert x X) S"
  using assms by (auto simp: top_selection_def)

lemma top_selection_replace:
  assumes "finite X" "top_selection K X S" "K \<le> card S" "x \<notin> X" "m \<in> S" "snd m < snd x" "\<forall>a \<in> S - {m}. snd m < snd a"
  shows "top_selection K (insert x X) (insert x (S - {m}))"
proof -
  have S: "S \<subseteq> X" "card S = K" "K \<le> card X" using assms(2,3) by (auto simp: top_selection_def)
  then have fin: "finite S" using assms(1) finite_subset by blast
  have "x \<notin> S - {m}" "0 < card S" using S(1) assms(4,5) fin by (auto simp: card_gt_0_iff)
  then have "card (insert x (S - {m})) = card S" using fin assms(5) by (simp add: card_Diff_singleton)
  moreover have "snd b < snd a" if "a \<in> insert x (S - {m})" "b \<in> insert x X - insert x (S - {m})" for a b
  proof (cases "b = m")
    case True
    then show ?thesis using that(1) assms(6,7) by auto
  next
    case False
    then have "b \<in> X - S" using that(2) by auto
    then have "snd b < snd m" "a \<in> S \<Longrightarrow> snd b < snd a" using assms(2,5) by (auto simp: top_selection_def)
    then show ?thesis using that(1) assms(6) by auto
  qed
  ultimately show ?thesis using S assms(1,4) by (auto simp: top_selection_def)
qed

text \<open>The entry at the top of the heap has the least stake of the set.\<close>

lemma heap_top_min:
  assumes "top_votes_inv t" "tv_heap t = e # h"
  shows "(he_pubkey e, he_stake e) \<in> members t" "x \<in> members t \<Longrightarrow> he_stake e \<le> snd x"
proof -
  have heap: "(\<lambda>e. (he_pubkey e, he_stake e)) ` set (tv_heap t) = members t" using assms(1) by (simp add: top_votes_inv_def)
  show "(he_pubkey e, he_stake e) \<in> members t" unfolding heap [symmetric] using assms(2) by simp
  assume "x \<in> members t"
  then obtain e' where e': "e' \<in> set (tv_heap t)" "x = (he_pubkey e', he_stake e')" unfolding heap [symmetric] by auto
  have "heap_key e \<le> heap_key e'" using assms e'(1) by (auto simp: top_votes_inv_def)
  then show "he_stake e \<le> snd x" using e'(2) by (auto simp: heap_key_def less_eq_prod_def)
qed

text \<open>One offer, of a new account with a positive stake no other offer has.\<close>

lemma update_selection:
  assumes "top_votes_inv t" "min_stake_watermark t = 0" "finite X" "top_selection (max_validators t) X (members t)"
    and "k \<notin> fst ` X" "s \<notin> snd ` X" "inj_on snd X" "0 < s"
  shows "top_votes_inv (top_votes_update t k n s) \<and> min_stake_watermark (top_votes_update t k n s) = 0 \<and>
    max_validators (top_votes_update t k n s) = max_validators t \<and>
    top_selection (max_validators t) (insert (k, s) X) (members (top_votes_update t k n s))"
proof -
  have sub: "members t \<subseteq> X" using assms(4) by (simp add: top_selection_def)
  have new: "(k, s) \<notin> X" "k \<notin> fst ` members t" using assms(5) sub by force+
  have len: "card (members t) = length (tv_map t)" using card_members assms(1) by (auto simp: top_votes_inv_def)
  have keep: "max_validators (insert_entry u k n s) = max_validators u" "min_stake_watermark (insert_entry u k n s) = min_stake_watermark u"
    "max_validators (evict_all_at_stake u r) = max_validators u" "min_stake_watermark (evict_all_at_stake u r) = min_stake_watermark u" for u r
    by (simp_all add: insert_entry_def evict_all_at_stake_def split_beta)
  consider "length (tv_map t) < max_validators t" | "max_validators t \<le> length (tv_map t)" "tv_heap t = []"
    | e h where "max_validators t \<le> length (tv_map t)" "tv_heap t = e # h" by (cases "tv_heap t") fastforce+
  then show ?thesis
  proof cases
    case 1
    then have "top_votes_update t k n s = insert_entry t k n s" using assms(2,8) by (simp add: top_votes_update_def)
    then show ?thesis using insert_entry_inv [OF assms(1) new(2)] keep assms(2) top_selection_room [OF assms(3,4) _ new(1)] 1 len by simp
  next
    case 2
    then have "members t = {}" "top_votes_update t k n s = t" using assms(1) by (simp_all add: top_votes_inv_def top_votes_update_def)
    then show ?thesis using assms(1,2) top_selection_low [OF assms(3,4) _ new(1)] 2 len by simp
  next
    case 3
    note top = heap_top_min [OF assms(1) 3(2)]
    have ne: "s \<noteq> he_stake e" using top(1) sub assms(6) by force
    show ?thesis
    proof (cases "s < he_stake e")
      case True
      then have "top_votes_update t k n s = t" using 3 assms(2,8) by (simp add: top_votes_update_def Let_def)
      moreover have "\<forall>a \<in> members t. s < snd a" using top(2) True by fastforce
      ultimately show ?thesis using assms(1,2) top_selection_low [OF assms(3,4) _ new(1)] 3(1) len by simp
    next
      case False
      let ?m = "(he_pubkey e, he_stake e)" and ?u = "evict_all_at_stake t (he_stake e)"
      have upd: "top_votes_update t k n s = insert_entry ?u k n s"
        using 3 False ne assms(2,8) by (simp add: top_votes_update_def Let_def)
      have only: "x = ?m" if "x \<in> members t" "snd x = he_stake e" for x
        using inj_onD [OF assms(7), of x ?m] that top(1) sub by auto
      have mem: "members ?u = members t - {?m}" unfolding evict_inv(2) [OF assms(1)]
      proof (intro equalityI subsetI)
        fix x assume "x \<in> members t - {?m}"
        then show "x \<in> {x \<in> members t. snd x \<noteq> he_stake e}" using only by blast
      qed auto
      then have "k \<notin> fst ` members ?u" using new(2) by auto
      then have ins: "top_votes_inv (insert_entry ?u k n s)" "members (insert_entry ?u k n s) = insert (k, s) (members t - {?m})"
        using insert_entry_inv [OF evict_inv(1) [OF assms(1)]] mem by auto
      have "\<forall>a \<in> members t - {?m}. snd ?m < snd a" using top(2) only by (metis DiffE insertCI le_neq_implies_less snd_conv)
      then have "top_selection (max_validators t) (insert (k, s) X) (insert (k, s) (members t - {?m}))"
        using top_selection_replace [OF assms(3,4) _ new(1) top(1)] 3(1) len False ne by simp
      then show ?thesis using ins upd keep assms(2) by simp
    qed
  qed
qed

text \<open>A sequence of offers to a new set.\<close>

definition offer_all :: "('k :: linorder) TopVotes \<Rightarrow> ('k \<times> 'k \<times> u64) list \<Rightarrow> 'k TopVotes" where
  "offer_all t offers = fold (\<lambda>(k, n, s) t. top_votes_update t k n s) offers t"

definition positive_offers :: "('k \<times> 'k \<times> u64) list \<Rightarrow> ('k \<times> u64) list" where
  "positive_offers offers = map (\<lambda>(k, n, s). (k, s)) (filter (\<lambda>(k, n, s). 0 < s) offers)"

lemma offer_all_selection:
  assumes "top_votes_inv t" "min_stake_watermark t = 0" "finite X" "top_selection (max_validators t) X (members t)" "inj_on snd X"
    and "distinct (map fst (positive_offers offers))" "distinct (map snd (positive_offers offers))"
    and "fst ` X \<inter> fst ` set (positive_offers offers) = {}" "snd ` X \<inter> snd ` set (positive_offers offers) = {}"
  shows "top_selection (max_validators t) (X \<union> set (positive_offers offers)) (members (offer_all t offers))"
  using assms
proof (induction offers arbitrary: t X)
  case Nil
  then show ?case by (simp add: offer_all_def positive_offers_def)
next
  case (Cons x offers)
  obtain k n s where x: "x = (k, n, s)" by (cases x)
  show ?case
  proof (cases "0 < s")
    case False
    then have "top_votes_update t k n s = t" by (simp add: top_votes_update_def)
    then show ?thesis using Cons.IH [OF Cons.prems(1-5)] Cons.prems(6-) False by (simp add: x offer_all_def positive_offers_def)
  next
    case True
    let ?u = "top_votes_update t k n s"
    have pos: "positive_offers (x # offers) = (k, s) # positive_offers offers" using True by (simp add: x positive_offers_def)
    have fresh: "k \<notin> fst ` X" "s \<notin> snd ` X" using Cons.prems(8,9) unfolding pos by auto
    note u = update_selection [OF Cons.prems(1-4) fresh Cons.prems(5) True, of n]
    have "inj_on snd (insert (k, s) X)" using Cons.prems(5) fresh(2) by (auto simp: inj_on_insert)
    moreover have "fst ` insert (k, s) X \<inter> fst ` set (positive_offers offers) = {}"
      "snd ` insert (k, s) X \<inter> snd ` set (positive_offers offers) = {}"
      "distinct (map fst (positive_offers offers))" "distinct (map snd (positive_offers offers))"
      using Cons.prems(6-9) unfolding pos by auto
    ultimately have "top_selection (max_validators ?u) (insert (k, s) X \<union> set (positive_offers offers)) (members (offer_all ?u offers))"
      using u Cons.prems(3) by (intro Cons.IH) auto
    then show ?thesis using u unfolding pos by (simp add: x offer_all_def)
  qed
qed

lemma members_new [simp]: "members (top_votes_new n) = {}"
  by (simp add: members_def top_votes_new_def)

text \<open>
  C17. When accounts are offered once each and their positive stakes differ, a new set of capacity \<open>K\<close>
  ends up with the \<open>K\<close> accounts of the largest stakes (all of them, if there are fewer), in whatever order they come.
\<close>
theorem top_votes_selects_largest:
  assumes "distinct (map fst (positive_offers offers))" "distinct (map snd (positive_offers offers))"
  shows "top_selection K (set (positive_offers offers)) (members (offer_all (top_votes_new K) offers))"
proof -
  have "top_votes_inv (top_votes_new K)" by (simp add: top_votes_inv_def members_def top_votes_new_def)
  moreover have "top_selection (max_validators (top_votes_new K)) {} (members (top_votes_new K))" by (simp add: top_selection_def)
  ultimately show ?thesis using offer_all_selection [of "top_votes_new K" "{}" offers] assms by (simp add: top_votes_new_def)
qed

theorem top_votes_selects_largest_witness:
  "top_selection 2 {(1 :: nat, 5), (2, 9), (3, 7)} (members (offer_all (top_votes_new 2) [(1, 10, 5), (2, 20, 9), (3, 30, 7), (4, 40, 0)]))"
proof -
  let ?os = "[(1 :: nat, 10, 5), (2, 20, 9), (3, 30, 7), (4, 40, 0)]"
  have pos: "positive_offers ?os = [(1, 5), (2, 9), (3, 7)]" by (simp add: positive_offers_def)
  have "top_selection 2 (set (positive_offers ?os)) (members (offer_all (top_votes_new 2) ?os))"
    by (rule top_votes_selects_largest; unfold pos) simp_all
  then show ?thesis unfolding pos by simp
qed

subsection \<open>Ties\<close>

text \<open>
  C18. With equal stakes the set depends on the order of the offers, and can admit a smaller stake than
  one it has turned away. Two accounts fill a set of capacity two with the same stake; a larger stake evicts
  both without raising the watermark, so that a smaller stake is taken into the free place. In the order in
  which the larger stake comes first, the tie raises the watermark and the smaller stake is turned away.
\<close>
theorem tie_admits_smaller_stake:
  assumes "distinct [a, b, c, d]" "0 < lo" "lo < mid" "mid < hi"
  shows "members (offer_all (top_votes_new 2) [(a, a, mid), (b, b, mid), (c, c, hi), (d, d, lo)]) = {(c, hi), (d, lo)} \<and>
    members (offer_all (top_votes_new 2) [(c, c, hi), (a, a, mid), (b, b, mid), (d, d, lo)]) = {(c, hi)}"
  using assms
  by (auto simp: offer_all_def top_votes_new_def top_votes_update_def insert_entry_def evict_all_at_stake_def
      heap_push_def heap_key_def members_def less_eq_prod_def less_prod_def Let_def split: if_splits)

theorem tie_admits_smaller_stake_witness:
  "members (offer_all (top_votes_new 2) [(1 :: nat, 1, 5), (2, 2, 5), (3, 3, 6), (4, 4, 3)]) = {(3, 6), (4, 3)} \<and>
   members (offer_all (top_votes_new 2) [(3 :: nat, 3, 6), (1, 1, 5), (2, 2, 5), (4, 4, 3)]) = {(3, 6)}"
  by (rule tie_admits_smaller_stake) simp_all

text \<open>
  An account that is offered again leaves its old heap entry behind. When that entry becomes the least one,
  evicting it removes the account from the map, whatever its stake is by now.
\<close>

lemma stale_entry_evicts_account:
  assumes "distinct [a, b, c]" "0 < lo" "lo < m1" "lo < m2" "lo < hi"
  shows "members (offer_all (top_votes_new 2) [(a, a, lo), (a, a, hi), (b, b, m1), (c, c, m2)]) = {(b, m1), (c, m2)}"
  using assms
  by (auto simp: offer_all_def top_votes_new_def top_votes_update_def insert_entry_def evict_all_at_stake_def
      heap_push_def heap_key_def members_def less_eq_prod_def less_prod_def Let_def split: if_splits)

end
