(* ===== verification/Alp_Base.thy ===== *)
theory Alp_Base
  imports Karst_Prelude
begin

section \<open>Alpenglow: base types, quorums, leader windows, validator set\<close>

text \<open>
  \<open>karstflow-alpenglow/src/base.rs\<close> and \<open>epoch_info.rs\<close>: block identifiers, protocol
  constants, the exact 128-bit quorum comparison, the leader windows of four slots, and the
  validator set of an epoch. The quorum thresholds interpret the locale of weighted quorums, so
  that every statement about overlapping certificates is an instance of it.
\<close>

subsection \<open>Definitions: \<open>base.rs\<close>\<close>

type_synonym BlockHash = "u8 list"

definition GENESIS_BLOCK_HASH :: BlockHash where
  "GENESIS_BLOCK_HASH = replicate 32 0"

definition SLOTS_PER_WINDOW :: u64 where "SLOTS_PER_WINDOW = 4"
definition BLOCK_HASH_EQVOC_MAX :: u64 where "BLOCK_HASH_EQVOC_MAX = 7"
definition NOTAR_FALLBACK_VOTE_MAX :: u64 where "NOTAR_FALLBACK_VOTE_MAX = 3"
definition NOTAR_FALLBACK_CERT_MAX :: u64 where "NOTAR_FALLBACK_CERT_MAX = 4"
definition SLOTS_PER_EPOCH :: u64 where "SLOTS_PER_EPOCH = 18000"

definition DELTA_NS :: int where "DELTA_NS = 250000000"
definition DELTA_BLOCK_NS :: int where "DELTA_BLOCK_NS = 200000000"
definition DELTA_FIRST_SLICE_NS :: int where "DELTA_FIRST_SLICE_NS = 10000000"
definition DELTA_TIMEOUT_NS :: int where "DELTA_TIMEOUT_NS = 3 * DELTA_NS"
definition DELTA_STANDSTILL_NS :: int where "DELTA_STANDSTILL_NS = 10000000000"

definition WEAKEST_QUORUM_NUMER :: u64 where "WEAKEST_QUORUM_NUMER = 1"
definition WEAK_QUORUM_NUMER :: u64 where "WEAK_QUORUM_NUMER = 2"
definition QUORUM_NUMER :: u64 where "QUORUM_NUMER = 3"
definition STRONG_QUORUM_NUMER :: u64 where "STRONG_QUORUM_NUMER = 4"
definition QUORUM_DENOM :: u64 where "QUORUM_DENOM = 5"

record BlockId =
  bslot :: slot
  bhash :: BlockHash

definition block_id :: "slot \<Rightarrow> BlockHash \<Rightarrow> BlockId" where
  "block_id s h = \<lparr>bslot = s, bhash = h\<rparr>"

definition block_id_genesis :: "slot \<Rightarrow> BlockId" where
  "block_id_genesis s = \<lparr>bslot = s, bhash = GENESIS_BLOCK_HASH\<rparr>"

text \<open>The products are taken in 128 bits and cannot overflow, so they are exact.\<close>

definition fraction_is_met :: "stake \<Rightarrow> stake \<Rightarrow> u64 \<Rightarrow> u64 \<Rightarrow> bool" where
  "fraction_is_met st tot numer denom \<longleftrightarrow> st * denom \<ge> tot * numer"

definition is_weakest_quorum :: "stake \<Rightarrow> stake \<Rightarrow> bool" where
  "is_weakest_quorum st tot = fraction_is_met st tot WEAKEST_QUORUM_NUMER QUORUM_DENOM"

definition is_weak_quorum :: "stake \<Rightarrow> stake \<Rightarrow> bool" where
  "is_weak_quorum st tot = fraction_is_met st tot WEAK_QUORUM_NUMER QUORUM_DENOM"

definition is_quorum :: "stake \<Rightarrow> stake \<Rightarrow> bool" where
  "is_quorum st tot = fraction_is_met st tot QUORUM_NUMER QUORUM_DENOM"

definition is_strong_quorum :: "stake \<Rightarrow> stake \<Rightarrow> bool" where
  "is_strong_quorum st tot = fraction_is_met st tot STRONG_QUORUM_NUMER QUORUM_DENOM"

definition first_slot_in_window :: "slot \<Rightarrow> slot" where
  "first_slot_in_window s = (s div SLOTS_PER_WINDOW) * SLOTS_PER_WINDOW"

definition last_slot_in_window :: "slot \<Rightarrow> slot" where
  "last_slot_in_window s = sub64 (add64 (first_slot_in_window s) SLOTS_PER_WINDOW) 1"

definition is_start_of_window :: "slot \<Rightarrow> bool" where
  "is_start_of_window s \<longleftrightarrow> s mod SLOTS_PER_WINDOW = 0"

definition is_genesis_window :: "slot \<Rightarrow> bool" where
  "is_genesis_window s \<longleftrightarrow> s < SLOTS_PER_WINDOW"

subsection \<open>Definitions: \<open>epoch_info.rs\<close>\<close>

record ValidatorInfo =
  vid :: u64
  vstake :: stake
  vpubkey :: "u8 list"
  voting_pubkey :: "u8 list"

record EpochInfo =
  validators :: "ValidatorInfo list"
  ei_total_stake :: stake

fun epoch_total :: "nat \<Rightarrow> stake \<Rightarrow> ValidatorInfo list \<Rightarrow> stake option" where
  "epoch_total i tot [] = Some tot"
| "epoch_total i tot (v # vs) =
     (if vid v = i then epoch_total (i + 1) (sat_add64 tot (vstake v)) vs else None)"

definition epoch_info_new :: "ValidatorInfo list \<Rightarrow> EpochInfo option" where
  "epoch_info_new vs =
     (if vs = [] then None
      else map_option (\<lambda>t. \<lparr>validators = vs, ei_total_stake = t\<rparr>) (epoch_total 0 0 vs))"

definition validator_cnt :: "EpochInfo \<Rightarrow> u64" where
  "validator_cnt ei = length (validators ei)"

definition validator :: "EpochInfo \<Rightarrow> u64 \<Rightarrow> ValidatorInfo option" where
  "validator ei i = (if i < length (validators ei) then Some (validators ei ! i) else None)"

definition leader :: "EpochInfo \<Rightarrow> slot \<Rightarrow> ValidatorInfo option" where
  "leader ei s =
     (if validators ei = [] then None
      else let window = s div SLOTS_PER_WINDOW;
               leader_id = window mod length (validators ei)
           in Some (validators ei ! leader_id))"

definition ei_is_weakest_quorum :: "EpochInfo \<Rightarrow> stake \<Rightarrow> bool" where
  "ei_is_weakest_quorum ei st = is_weakest_quorum st (ei_total_stake ei)"

definition ei_is_weak_quorum :: "EpochInfo \<Rightarrow> stake \<Rightarrow> bool" where
  "ei_is_weak_quorum ei st = is_weak_quorum st (ei_total_stake ei)"

definition ei_is_quorum :: "EpochInfo \<Rightarrow> stake \<Rightarrow> bool" where
  "ei_is_quorum ei st = is_quorum st (ei_total_stake ei)"

definition ei_is_strong_quorum :: "EpochInfo \<Rightarrow> stake \<Rightarrow> bool" where
  "ei_is_strong_quorum ei st = is_strong_quorum st (ei_total_stake ei)"

lemmas quorum_defs = is_weakest_quorum_def is_weak_quorum_def is_quorum_def is_strong_quorum_def
  fraction_is_met_def WEAKEST_QUORUM_NUMER_def WEAK_QUORUM_NUMER_def QUORUM_NUMER_def
  STRONG_QUORUM_NUMER_def QUORUM_DENOM_def

lemmas ei_quorum_defs = ei_is_weakest_quorum_def ei_is_weak_quorum_def ei_is_quorum_def ei_is_strong_quorum_def

subsection \<open>Quorum intersection\<close>

interpretation qq: weighted_quorums t "(t + 4) div 5" "\<lambda>s. is_quorum s t" "\<lambda>s. is_quorum s t" for t
  by unfold_locales (simp add: quorum_defs; linarith)

interpretation sq: weighted_quorums t "(2 * t + 4) div 5" "\<lambda>s. is_strong_quorum s t" "\<lambda>s. is_quorum s t" for t
  by unfold_locales (simp add: quorum_defs; linarith)

interpretation sw: weighted_quorums t "(t + 4) div 5" "\<lambda>s. is_strong_quorum s t" "\<lambda>s. is_weak_quorum s t" for t
  by unfold_locales (simp add: quorum_defs; linarith)

lemma quorum_mono: "a \<le> b \<Longrightarrow> is_quorum a t \<Longrightarrow> is_quorum b t"
  by (simp add: quorum_defs)

lemma strong_quorum_quorum: "is_strong_quorum a t \<Longrightarrow> is_quorum a t"
  by (simp add: quorum_defs)

lemma quorum_weak: "is_quorum a t \<Longrightarrow> is_weak_quorum a t"
  by (simp add: quorum_defs)

subsection \<open>The validator set\<close>

definition ei_wf :: "EpochInfo \<Rightarrow> bool" where
  "ei_wf ei \<longleftrightarrow> validators ei \<noteq> [] \<and> (\<forall>i < length (validators ei). vid (validators ei ! i) = i) \<and>
     ei_total_stake ei = min (sum_list (map vstake (validators ei))) u64_max"

lemma epoch_total_spec:
  "t \<le> u64_max \<Longrightarrow> epoch_total i t vs =
     (if \<forall>j < length vs. vid (vs ! j) = i + j then Some (min (t + sum_list (map vstake vs)) u64_max) else None)"
proof (induction vs arbitrary: i t)
  case (Cons v vs)
  have "min (sat_add64 t (vstake v) + sum_list (map vstake vs)) u64_max =
        min (t + (vstake v + sum_list (map vstake vs))) u64_max"
    by (auto simp: sat_add64_def min_def)
  moreover have "(\<forall>j < length (v # vs). vid ((v # vs) ! j) = i + j) \<longleftrightarrow>
      vid v = i \<and> (\<forall>j < length vs. vid (vs ! j) = i + 1 + j)"
    by (auto simp: less_Suc_eq_0_disj)
  ultimately show ?case using Cons.IH [of "sat_add64 t (vstake v)" "i + 1"] by simp
qed simp

lemma epoch_info_new_spec:
  "epoch_info_new vs = Some ei \<longleftrightarrow> ei_wf ei \<and> validators ei = vs"
proof -
  have "0 \<le> u64_max" by simp
  from epoch_total_spec [OF this, of 0 vs] show ?thesis
    by (auto simp: epoch_info_new_def ei_wf_def min.commute)
qed

lemma window_bounds:
  assumes "s \<le> u64_max"
  shows "first_slot_in_window s \<le> s" "s \<le> last_slot_in_window s"
    "last_slot_in_window s = first_slot_in_window s + 3" "last_slot_in_window s \<le> u64_max"
    "is_start_of_window (first_slot_in_window s)"
proof -
  define q where "q = s div 4"
  have s: "4 * q \<le> s" "s < 4 * q + 4" by (simp_all add: q_def)
  have f: "first_slot_in_window s = 4 * q" by (simp add: first_slot_in_window_def SLOTS_PER_WINDOW_def q_def)
  have b: "4 * q + 3 < 2 ^ 64" using s assms by (simp add: u64_max_def) presburger
  have l: "last_slot_in_window s = 4 * q + 3"
  proof (cases "4 * q + 4 < 2 ^ 64")
    case True
    then show ?thesis
      by (simp add: last_slot_in_window_def f SLOTS_PER_WINDOW_def add64_exact sub64_exact)
  next
    case False
    with b have "4 * q = 2 ^ 64 - 4" by simp
    then show ?thesis by (simp add: last_slot_in_window_def f SLOTS_PER_WINDOW_def add64_def sub64_def)
  qed
  show "first_slot_in_window s \<le> s" "s \<le> last_slot_in_window s"
    "last_slot_in_window s = first_slot_in_window s + 3" "last_slot_in_window s \<le> u64_max"
    "is_start_of_window (first_slot_in_window s)"
    using s b by (simp_all add: f l u64_max_def is_start_of_window_def SLOTS_PER_WINDOW_def)
qed

lemma block_id_eta [simp]: "block_id (bslot b) (bhash b) = b"
  by (cases b) (simp add: block_id_def)

lemma bslot_block_id [simp]: "bslot (block_id s h) = s" "bhash (block_id s h) = h"
  by (simp_all add: block_id_def)

end
