(* ===== verification/Alp_Vote.thy ===== *)
theory Alp_Vote
  imports Alp_Base
begin

section \<open>Alpenglow: aggregate signatures and votes\<close>

text \<open>
  \<open>karstflow-alpenglow/src/aggsig.rs\<close> and \<open>vote.rs\<close>: the signer bitmask of an aggregate
  signature with its wire format, and the five kinds of votes with the bytes they sign. Fixed
  size arrays are lists, their sizes part of the invariant \<open>agg_wf\<close>; a failed assertion or an
  index out of range is \<open>None\<close>. As in the source, signing is a deterministic stub and
  verification of a single signature always accepts.
\<close>

unbundle bit_operations_syntax

subsection \<open>Definitions: \<open>aggsig.rs\<close>\<close>

definition SECKEY_SZ :: nat where "SECKEY_SZ = 32"
definition PUBKEY_SZ :: nat where "PUBKEY_SZ = 96"
definition SIG_SZ :: nat where "SIG_SZ = 192"
definition MAX_SIGNERS :: nat where "MAX_SIGNERS = 2048"
definition BITMASK_WORDS :: nat where "BITMASK_WORDS = MAX_SIGNERS div 64"

definition words_for_bits :: "u64 \<Rightarrow> u64" where
  "words_for_bits nbits = (nbits + 63) div 64"

definition serialized_sz :: "u64 \<Rightarrow> nat" where
  "serialized_sz nbits = SIG_SZ + 8 + 8 + 8 * words_for_bits nbits"

type_synonym SecretKey = "u8 list"
type_synonym PublicKey = "u8 list"
type_synonym Signature = "u8 list"

definition absorb :: "u64w \<Rightarrow> u8 \<Rightarrow> u64w" where
  "absorb acc b = (acc * 1099511628211) XOR ucast b"

fun lcg_stream :: "nat \<Rightarrow> u64w \<Rightarrow> u8 list" where
  "lcg_stream 0 acc = []"
| "lcg_stream (Suc n) acc =
     (let acc' = acc * 6364136223846793005 + 1442695040888963407
      in ucast (drop_bit 56 acc') # lcg_stream n acc')"

definition stub_fill :: "nat \<Rightarrow> SecretKey \<Rightarrow> u8 list \<Rightarrow> u8 list" where
  "stub_fill n key msg =
     (let acc = foldl absorb 0x9e3779b97f4a7c15 key;
          acc = foldl absorb acc msg;
          acc = acc XOR of_nat (length msg)
      in lcg_stream n acc)"

definition to_pubkey :: "SecretKey \<Rightarrow> PublicKey" where
  "to_pubkey sk = stub_fill PUBKEY_SZ sk [0x70, 0x6B]"

definition sign_bytes :: "SecretKey \<Rightarrow> u8 list \<Rightarrow> Signature" where
  "sign_bytes sk msg = stub_fill SIG_SZ sk msg"

definition sig_verify_bytes :: "Signature \<Rightarrow> PublicKey \<Rightarrow> u8 list \<Rightarrow> bool" where
  "sig_verify_bytes sig pk msg = True"

record AggregateSignature =
  agg_point :: "u8 list"
  nbits :: u64
  bitmask :: "u64w list"

definition agg_init :: "u64 \<Rightarrow> AggregateSignature option" where
  "agg_init n =
     (if n \<le> MAX_SIGNERS
      then Some \<lparr>agg_point = replicate SIG_SZ 0, nbits = n, bitmask = replicate BITMASK_WORDS 0\<rparr>
      else None)"

definition agg_is_signer :: "AggregateSignature \<Rightarrow> u64 \<Rightarrow> bool" where
  "agg_is_signer a i =
     (if i \<ge> nbits a then False
      else drop_bit (i mod 64) (bitmask a ! (i div 64)) AND 1 = 1)"

definition agg_add :: "AggregateSignature \<Rightarrow> u64 \<Rightarrow> Signature \<Rightarrow> AggregateSignature option" where
  "agg_add a i sig =
     (if \<not> i < nbits a then None
      else if agg_is_signer a i then None
      else Some (a\<lparr>bitmask := (bitmask a)[i div 64 := bitmask a ! (i div 64) OR push_bit (i mod 64) 1],
                   agg_point := map2 (XOR) (agg_point a) sig\<rparr>))"

fun agg_add_all :: "AggregateSignature \<Rightarrow> (u64 \<times> Signature) list \<Rightarrow> AggregateSignature option" where
  "agg_add_all a [] = Some a"
| "agg_add_all a ((i, sig) # xs) = do { a' \<leftarrow> agg_add a i sig; agg_add_all a' xs }"

definition agg_new :: "Signature list \<Rightarrow> u64 list \<Rightarrow> u64 \<Rightarrow> AggregateSignature option" where
  "agg_new sigs indices n =
     (if sigs = [] then None
      else if length sigs \<noteq> length indices then None
      else do { a \<leftarrow> agg_init n; agg_add_all a (zip indices sigs) })"

definition agg_verify_bytes :: "AggregateSignature \<Rightarrow> u8 list \<Rightarrow> PublicKey list \<Rightarrow> bool" where
  "agg_verify_bytes a msg pks = (if nbits a \<noteq> length pks then False else True)"

definition count_ones :: "u64w \<Rightarrow> nat" where
  "count_ones w = length (filter (bit w) [0..<64])"

definition signer_cnt :: "AggregateSignature \<Rightarrow> u64" where
  "signer_cnt a = sum_list (map count_ones (bitmask a))"

text \<open>Little-endian bytes.\<close>

definition to_le_bytes :: "nat \<Rightarrow> nat \<Rightarrow> u8 list" where
  "to_le_bytes n x = map (\<lambda>i. of_nat (x div 256 ^ i)) [0..<n]"

definition from_le_bytes :: "u8 list \<Rightarrow> nat" where
  "from_le_bytes bs = foldr (\<lambda>b acc. unat b + 256 * acc) bs 0"

text \<open>
  Serialisation writes into a buffer; the outer option is a panic (a bitmask shorter than the
  announced words), the inner one a buffer that is too small.
\<close>

definition agg_serialize :: "AggregateSignature \<Rightarrow> u8 list \<Rightarrow> (u8 list \<times> nat) option option" where
  "agg_serialize a out =
     (let num_words = words_for_bits (nbits a);
          sz = serialized_sz (nbits a)
      in if length out < sz then Some None
         else if num_words > length (bitmask a) then None
         else Some (Some (agg_point a @ to_le_bytes 8 (nbits a) @ to_le_bytes 8 num_words @
                          concat (map (\<lambda>w. to_le_bytes 8 (unat w)) (take num_words (bitmask a))) @ drop sz out,
                          sz)))"

fun read_words :: "nat \<Rightarrow> u8 list \<Rightarrow> u64w list" where
  "read_words 0 bs = []"
| "read_words (Suc n) bs = of_nat (from_le_bytes (take 8 bs)) # read_words n (drop 8 bs)"

definition agg_deserialize :: "u8 list \<Rightarrow> (AggregateSignature \<times> nat) option" where
  "agg_deserialize input =
     (if length input < SIG_SZ + 16 then None
      else let sig = take SIG_SZ input;
               num_bits = from_le_bytes (take 8 (drop SIG_SZ input));
               num_words = from_le_bytes (take 8 (drop (SIG_SZ + 8) input));
               o1 = SIG_SZ + 16
           in if num_words > words_for_bits MAX_SIGNERS then None
              else if num_bits > num_words * 64 then None
              else if length input < o1 + num_words * 8 then None
              else Some (\<lparr>agg_point = sig, nbits = num_bits,
                          bitmask = read_words num_words (drop o1 input) @ replicate (BITMASK_WORDS - num_words) 0\<rparr>,
                         o1 + num_words * 8))"

subsection \<open>Definitions: \<open>vote.rs\<close>\<close>

definition VOTE_TYPE_NOTAR :: nat where "VOTE_TYPE_NOTAR = 0"
definition VOTE_TYPE_FINAL :: nat where "VOTE_TYPE_FINAL = 1"
definition VOTE_TYPE_SKIP :: nat where "VOTE_TYPE_SKIP = 2"
definition VOTE_TYPE_NOTAR_FALLBACK :: nat where "VOTE_TYPE_NOTAR_FALLBACK = 3"
definition VOTE_TYPE_SKIP_FALLBACK :: nat where "VOTE_TYPE_SKIP_FALLBACK = 4"
definition VOTE_PAYLOAD_MAX :: nat where "VOTE_PAYLOAD_MAX = 44"

text \<open>Writing a slice at an offset; out of range is a panic.\<close>

definition write_at :: "u8 list \<Rightarrow> nat \<Rightarrow> u8 list \<Rightarrow> u8 list option" where
  "write_at out off bs =
     (if off + length bs \<le> length out then Some (take off out @ bs @ drop (off + length bs) out) else None)"

definition payload_bytes_to_sign ::
  "u8 list \<Rightarrow> nat \<Rightarrow> slot \<Rightarrow> BlockHash option \<Rightarrow> (u8 list \<times> nat) option" where
  "payload_bytes_to_sign out kind s h =
     do {
       out \<leftarrow> write_at out 0 (to_le_bytes 4 kind);
       out \<leftarrow> write_at out 4 (to_le_bytes 8 s);
       if kind = VOTE_TYPE_NOTAR \<or> kind = VOTE_TYPE_NOTAR_FALLBACK then do {
         h \<leftarrow> h;
         out \<leftarrow> write_at out 12 h;
         Some (out, 44)
       } else Some (out, 12)
     }"

definition sign_payload :: "nat \<Rightarrow> slot \<Rightarrow> BlockHash option \<Rightarrow> SecretKey \<Rightarrow> Signature option" where
  "sign_payload kind s h sk =
     do {
       (buf, sz) \<leftarrow> payload_bytes_to_sign (replicate VOTE_PAYLOAD_MAX 0) kind s h;
       Some (sign_bytes sk (take sz buf))
     }"

record NotarVote =
  nv_slot :: slot
  nv_block_hash :: BlockHash
  nv_sig :: Signature
  nv_signer :: nat

record NotarFallbackVote =
  nfv_slot :: slot
  nfv_block_hash :: BlockHash
  nfv_sig :: Signature
  nfv_signer :: nat

record SkipVote =
  sv_slot :: slot
  sv_sig :: Signature
  sv_signer :: nat

record SkipFallbackVote =
  sfv_slot :: slot
  sfv_sig :: Signature
  sfv_signer :: nat

record FinalVote =
  fv_slot :: slot
  fv_sig :: Signature
  fv_signer :: nat

datatype Vote =
    VNotar NotarVote
  | VNotarFallback NotarFallbackVote
  | VSkip SkipVote
  | VSkipFallback SkipFallbackVote
  | VFinal FinalVote

definition new_notar :: "slot \<Rightarrow> BlockHash \<Rightarrow> SecretKey \<Rightarrow> nat \<Rightarrow> Vote option" where
  "new_notar s h sk signer =
     map_option (\<lambda>sig. VNotar \<lparr>nv_slot = s, nv_block_hash = h, nv_sig = sig, nv_signer = signer\<rparr>)
       (sign_payload VOTE_TYPE_NOTAR s (Some h) sk)"

definition new_notar_fallback :: "slot \<Rightarrow> BlockHash \<Rightarrow> SecretKey \<Rightarrow> nat \<Rightarrow> Vote option" where
  "new_notar_fallback s h sk signer =
     map_option (\<lambda>sig. VNotarFallback \<lparr>nfv_slot = s, nfv_block_hash = h, nfv_sig = sig, nfv_signer = signer\<rparr>)
       (sign_payload VOTE_TYPE_NOTAR_FALLBACK s (Some h) sk)"

definition new_skip :: "slot \<Rightarrow> SecretKey \<Rightarrow> nat \<Rightarrow> Vote option" where
  "new_skip s sk signer =
     map_option (\<lambda>sig. VSkip \<lparr>sv_slot = s, sv_sig = sig, sv_signer = signer\<rparr>)
       (sign_payload VOTE_TYPE_SKIP s None sk)"

definition new_skip_fallback :: "slot \<Rightarrow> SecretKey \<Rightarrow> nat \<Rightarrow> Vote option" where
  "new_skip_fallback s sk signer =
     map_option (\<lambda>sig. VSkipFallback \<lparr>sfv_slot = s, sfv_sig = sig, sfv_signer = signer\<rparr>)
       (sign_payload VOTE_TYPE_SKIP_FALLBACK s None sk)"

definition new_final :: "slot \<Rightarrow> SecretKey \<Rightarrow> nat \<Rightarrow> Vote option" where
  "new_final s sk signer =
     map_option (\<lambda>sig. VFinal \<lparr>fv_slot = s, fv_sig = sig, fv_signer = signer\<rparr>)
       (sign_payload VOTE_TYPE_FINAL s None sk)"

fun vote_kind :: "Vote \<Rightarrow> nat" where
  "vote_kind (VNotar _) = VOTE_TYPE_NOTAR"
| "vote_kind (VNotarFallback _) = VOTE_TYPE_NOTAR_FALLBACK"
| "vote_kind (VSkip _) = VOTE_TYPE_SKIP"
| "vote_kind (VSkipFallback _) = VOTE_TYPE_SKIP_FALLBACK"
| "vote_kind (VFinal _) = VOTE_TYPE_FINAL"

fun vote_slot :: "Vote \<Rightarrow> slot" where
  "vote_slot (VNotar v) = nv_slot v"
| "vote_slot (VNotarFallback v) = nfv_slot v"
| "vote_slot (VSkip v) = sv_slot v"
| "vote_slot (VSkipFallback v) = sfv_slot v"
| "vote_slot (VFinal v) = fv_slot v"

fun vote_signer :: "Vote \<Rightarrow> nat" where
  "vote_signer (VNotar v) = nv_signer v"
| "vote_signer (VNotarFallback v) = nfv_signer v"
| "vote_signer (VSkip v) = sv_signer v"
| "vote_signer (VSkipFallback v) = sfv_signer v"
| "vote_signer (VFinal v) = fv_signer v"

fun vote_block_hash :: "Vote \<Rightarrow> BlockHash option" where
  "vote_block_hash (VNotar v) = Some (nv_block_hash v)"
| "vote_block_hash (VNotarFallback v) = Some (nfv_block_hash v)"
| "vote_block_hash _ = None"

fun vote_sig :: "Vote \<Rightarrow> Signature" where
  "vote_sig (VNotar v) = nv_sig v"
| "vote_sig (VNotarFallback v) = nfv_sig v"
| "vote_sig (VSkip v) = sv_sig v"
| "vote_sig (VSkipFallback v) = sfv_sig v"
| "vote_sig (VFinal v) = fv_sig v"

definition vote_check_sig :: "Vote \<Rightarrow> PublicKey \<Rightarrow> bool option" where
  "vote_check_sig v pk =
     do {
       (buf, sz) \<leftarrow> payload_bytes_to_sign (replicate VOTE_PAYLOAD_MAX 0) (vote_kind v) (vote_slot v) (vote_block_hash v);
       Some (sig_verify_bytes (vote_sig v) pk (take sz buf))
     }"

lemmas agg_consts = SIG_SZ_def MAX_SIGNERS_def BITMASK_WORDS_def
lemmas vote_kinds = VOTE_TYPE_NOTAR_def VOTE_TYPE_FINAL_def VOTE_TYPE_SKIP_def
  VOTE_TYPE_NOTAR_FALLBACK_def VOTE_TYPE_SKIP_FALLBACK_def

subsection \<open>The signer bitmask\<close>

definition mask_bit :: "u64w list \<Rightarrow> nat \<Rightarrow> bool" where
  "mask_bit ws i \<longleftrightarrow> bit (ws ! (i div 64)) (i mod 64)"

definition agg_wf :: "AggregateSignature \<Rightarrow> bool" where
  "agg_wf a \<longleftrightarrow> length (agg_point a) = SIG_SZ \<and> nbits a \<le> MAX_SIGNERS \<and> length (bitmask a) = BITMASK_WORDS \<and>
     (\<forall>i < MAX_SIGNERS. nbits a \<le> i \<longrightarrow> \<not> mask_bit (bitmask a) i)"

lemma drop_bit_and_one: "drop_bit n w AND 1 = 1 \<longleftrightarrow> bit w n" for w :: u64w
  by (simp add: bit_iff_odd_drop_bit and_one_eq odd_iff_mod_2_eq_one)

lemma agg_is_signer_bit: "agg_is_signer a i \<longleftrightarrow> i < nbits a \<and> mask_bit (bitmask a) i"
  by (simp add: agg_is_signer_def mask_bit_def drop_bit_and_one)

lemma mask_bit_set:
  assumes "i div 64 < length ws"
  shows "mask_bit (ws[i div 64 := ws ! (i div 64) OR push_bit (i mod 64) 1]) j \<longleftrightarrow> j = i \<or> mask_bit ws j"
proof (cases "j div 64 = i div 64")
  case True
  have "j = i \<longleftrightarrow> j mod 64 = i mod 64" using True by (metis div_mult_mod_eq)
  with True assms show ?thesis
    by (auto simp: mask_bit_def bit_or_iff bit_exp_iff)
next
  case False
  then show ?thesis by (auto simp: mask_bit_def)
qed

lemma agg_wf_index: "agg_wf a \<Longrightarrow> i < nbits a \<Longrightarrow> i div 64 < length (bitmask a)"
  by (auto simp: agg_wf_def agg_consts div_less_iff_less_mult)

lemma agg_init_spec:
  "n \<le> MAX_SIGNERS \<Longrightarrow> \<exists>a. agg_init n = Some a \<and> agg_wf a \<and> nbits a = n \<and> (\<forall>i. \<not> agg_is_signer a i)"
  by (auto simp: agg_init_def agg_wf_def agg_is_signer_bit mask_bit_def agg_consts)

lemma agg_add_spec:
  assumes "agg_wf a" "length sig = SIG_SZ"
  shows "agg_add a i sig = Some a' \<Longrightarrow>
           agg_wf a' \<and> nbits a' = nbits a \<and> (\<forall>j. agg_is_signer a' j \<longleftrightarrow> j = i \<or> agg_is_signer a j)"
    and "(\<exists>a'. agg_add a i sig = Some a') \<longleftrightarrow> i < nbits a \<and> \<not> agg_is_signer a i"
proof -
  show "(\<exists>a'. agg_add a i sig = Some a') \<longleftrightarrow> i < nbits a \<and> \<not> agg_is_signer a i"
    by (auto simp: agg_add_def)
  assume s: "agg_add a i sig = Some a'"
  then have i: "i < nbits a" by (auto simp: agg_add_def split: if_splits)
  have a': "a' = a\<lparr>bitmask := (bitmask a)[i div 64 := bitmask a ! (i div 64) OR push_bit (i mod 64) 1],
                   agg_point := map2 (XOR) (agg_point a) sig\<rparr>"
    using s by (auto simp: agg_add_def split: if_splits)
  have m: "mask_bit (bitmask a') j \<longleftrightarrow> j = i \<or> mask_bit (bitmask a) j" for j
    unfolding a' using mask_bit_set [OF agg_wf_index [OF assms(1) i]] by simp
  show "agg_wf a' \<and> nbits a' = nbits a \<and> (\<forall>j. agg_is_signer a' j \<longleftrightarrow> j = i \<or> agg_is_signer a j)"
    unfolding agg_is_signer_bit m using assms i m by (auto simp: agg_wf_def) (auto simp: a')
qed

lemma agg_add_all_spec:
  assumes "agg_wf a" "\<And>i sig. (i, sig) \<in> set xs \<Longrightarrow> length sig = SIG_SZ"
  shows "(agg_add_all a xs = Some a' \<longrightarrow>
            agg_wf a' \<and> nbits a' = nbits a \<and>
            (\<forall>j. agg_is_signer a' j \<longleftrightarrow> j \<in> fst ` set xs \<or> agg_is_signer a j)) \<and>
         ((\<exists>a'. agg_add_all a xs = Some a') \<longleftrightarrow>
            distinct (map fst xs) \<and> (\<forall>i \<in> fst ` set xs. i < nbits a \<and> \<not> agg_is_signer a i))"
  using assms
proof (induction xs arbitrary: a)
  case (Cons x xs)
  obtain i sig where x: "x = (i, sig)" by (cases x)
  have len: "length sig = SIG_SZ" using Cons.prems(2) x by auto
  note add = agg_add_spec [OF Cons.prems(1) len]
  show ?case
  proof (cases "agg_add a i sig")
    case None
    with add(2) [of i] show ?thesis by (auto simp: x)
  next
    case (Some a1)
    from add(1) [OF Some] have a1: "agg_wf a1" "nbits a1 = nbits a"
      "\<And>j. agg_is_signer a1 j \<longleftrightarrow> j = i \<or> agg_is_signer a j" by auto
    have i: "i < nbits a" "\<not> agg_is_signer a i" using add(2) [of i] Some by auto
    from Cons.IH [OF a1(1)] Cons.prems(2) show ?thesis
      using i by (auto simp: x Some a1) blast+
  qed
qed auto

lemma filter_upt_add:
  "length (filter P [0..<k + n]) = length (filter P [0..<k]) + length (filter (\<lambda>j. P (k + j)) [0..<n])"
  by (induction n) auto

lemma mask_count: "length (filter (mask_bit ws) [0..<length ws * 64]) = sum_list (map count_ones ws)"
proof (induction ws rule: rev_induct)
  case (snoc w ws)
  have "filter (mask_bit (ws @ [w])) [0..<length ws * 64] = filter (mask_bit ws) [0..<length ws * 64]"
    by (rule filter_cong [OF refl]) (simp add: mask_bit_def nth_append div_less_iff_less_mult)
  moreover have "filter (\<lambda>j. mask_bit (ws @ [w]) (length ws * 64 + j)) [0..<64] = filter (bit w) [0..<64]"
    by (rule filter_cong [OF refl]) (auto simp: mask_bit_def nth_append simp del: upt_rec_numeral)
  ultimately have "length (filter (mask_bit (ws @ [w])) [0..<length ws * 64 + 64]) =
      length (filter (mask_bit ws) [0..<length ws * 64]) + count_ones w"
    unfolding filter_upt_add count_ones_def by (simp only:)
  then show ?case using snoc by (simp add: add.commute)
qed simp

lemma signer_cnt_card:
  assumes "agg_wf a"
  shows "signer_cnt a = card {i. agg_is_signer a i}"
proof -
  have "signer_cnt a = length (filter (mask_bit (bitmask a)) [0..<2048])"
    using mask_count [of "bitmask a"] assms by (simp add: signer_cnt_def agg_wf_def agg_consts)
  also have "\<dots> = card {i. i < 2048 \<and> mask_bit (bitmask a) i}"
    by (subst distinct_card [symmetric]) (auto intro: arg_cong [where f = card])
  also have "{i. i < 2048 \<and> mask_bit (bitmask a) i} = {i. agg_is_signer a i}"
    using assms by (auto simp: agg_is_signer_bit agg_wf_def agg_consts not_le [symmetric])
  finally show ?thesis .
qed

subsection \<open>Byte encodings\<close>

lemma length_to_le_bytes [simp]: "length (to_le_bytes n x) = n"
  by (simp add: to_le_bytes_def)

lemma to_le_bytes_Suc: "to_le_bytes (Suc n) x = of_nat x # to_le_bytes n (x div 256)"
  by (simp add: to_le_bytes_def map_upt_Suc div_mult2_eq del: upt_Suc)

lemma from_to_le_bytes: "from_le_bytes (to_le_bytes n x) = x mod 256 ^ n"
proof (induction n arbitrary: x)
  case (Suc n)
  have "from_le_bytes (to_le_bytes (Suc n) x) = x mod 256 + 256 * (x div 256 mod 256 ^ n)"
    using Suc [of "x div 256"] by (simp add: to_le_bytes_Suc from_le_bytes_def unat_of_nat)
  also have "\<dots> = x mod (256 * 256 ^ n)" by (simp add: mod_mult2_eq)
  finally show ?case by simp
qed (simp add: from_le_bytes_def to_le_bytes_def)

lemma from_to_le_bytes8 [simp]: "x < 2 ^ 64 \<Longrightarrow> from_le_bytes (to_le_bytes 8 x) = x"
  by (simp add: from_to_le_bytes)

lemma to_le_bytes_inj: "x < 256 ^ n \<Longrightarrow> y < 256 ^ n \<Longrightarrow> to_le_bytes n x = to_le_bytes n y \<Longrightarrow> x = y"
  by (metis from_to_le_bytes mod_less)

lemma read_words_concat:
  "read_words (length ws) (concat (map (\<lambda>w. to_le_bytes 8 (unat w)) ws) @ rest) = ws"
proof (induction ws)
  case (Cons w ws)
  have "unat w < 2 ^ LENGTH(64)" by (rule unsigned_less)
  then have "unat w < 2 ^ 64" by simp
  with Cons show ?case by simp
qed simp

lemma length_concat_le: "length (concat (map (\<lambda>w. to_le_bytes 8 (unat w)) ws)) = 8 * length ws"
  by (induction ws) auto

lemma words_for_bits_le: "n \<le> MAX_SIGNERS \<Longrightarrow> words_for_bits n \<le> BITMASK_WORDS"
  by (simp add: words_for_bits_def agg_consts)

lemma unused_words_zero:
  assumes "agg_wf a" "words_for_bits (nbits a) \<le> k" "k < BITMASK_WORDS"
  shows "bitmask a ! k = 0"
proof (rule bit_word_eqI)
  fix n assume "n < LENGTH(64)"
  then have n: "n < 64" by simp
  have "nbits a \<le> 64 * words_for_bits (nbits a)" by (simp add: words_for_bits_def)
  also have "\<dots> \<le> 64 * k" using assms(2) by simp
  finally have "nbits a \<le> 64 * k + n" by simp
  moreover have "64 * k + n < MAX_SIGNERS" using assms(3) n by (simp add: agg_consts)
  ultimately have "\<not> mask_bit (bitmask a) (64 * k + n)" using assms(1) by (simp add: agg_wf_def)
  then show "bit (bitmask a ! k) n = bit 0 n" using n by (simp add: mask_bit_def)
qed

lemma mask_split:
  assumes "agg_wf a"
  shows "take (words_for_bits (nbits a)) (bitmask a) @ replicate (BITMASK_WORDS - words_for_bits (nbits a)) 0 = bitmask a"
    (is "take ?n _ @ _ = _")
proof (rule nth_equalityI)
  have len: "length (bitmask a) = BITMASK_WORDS" and le: "?n \<le> BITMASK_WORDS"
    using assms words_for_bits_le by (auto simp: agg_wf_def)
  show "length (take ?n (bitmask a) @ replicate (BITMASK_WORDS - ?n) 0) = length (bitmask a)"
    using len le by simp
  fix i assume "i < length (take ?n (bitmask a) @ replicate (BITMASK_WORDS - ?n) 0)"
  then have "i < BITMASK_WORDS" using len le by simp
  then show "(take ?n (bitmask a) @ replicate (BITMASK_WORDS - ?n) 0) ! i = bitmask a ! i"
    using unused_words_zero [OF assms, of i] len le by (auto simp: nth_append)
qed

lemma payload_shape:
  assumes "case h of None \<Rightarrow> kind \<noteq> VOTE_TYPE_NOTAR \<and> kind \<noteq> VOTE_TYPE_NOTAR_FALLBACK | Some x \<Rightarrow> length x = 32"
  shows "\<exists>buf sz. payload_bytes_to_sign (replicate VOTE_PAYLOAD_MAX 0) kind s h = Some (buf, sz) \<and>
           take sz buf = to_le_bytes 4 kind @ to_le_bytes 8 s @
             (if kind = VOTE_TYPE_NOTAR \<or> kind = VOTE_TYPE_NOTAR_FALLBACK then the h else [])"
  using assms
  by (auto simp: payload_bytes_to_sign_def write_at_def VOTE_PAYLOAD_MAX_def split: option.splits)

definition vote_wf :: "Vote \<Rightarrow> bool" where
  "vote_wf v \<longleftrightarrow> vote_slot v \<le> u64_max \<and> (case vote_block_hash v of None \<Rightarrow> True | Some h \<Rightarrow> length h = 32)"

definition vote_payload :: "Vote \<Rightarrow> u8 list option" where
  "vote_payload v = map_option (\<lambda>(buf, sz). take sz buf)
     (payload_bytes_to_sign (replicate VOTE_PAYLOAD_MAX 0) (vote_kind v) (vote_slot v) (vote_block_hash v))"

lemma vote_payload_shape:
  assumes "vote_wf v"
  shows "vote_payload v = Some (to_le_bytes 4 (vote_kind v) @ to_le_bytes 8 (vote_slot v) @
           (case vote_block_hash v of None \<Rightarrow> [] | Some h \<Rightarrow> h))"
proof -
  have c: "case vote_block_hash v of None \<Rightarrow> vote_kind v \<noteq> VOTE_TYPE_NOTAR \<and> vote_kind v \<noteq> VOTE_TYPE_NOTAR_FALLBACK
      | Some x \<Rightarrow> length x = 32"
    using assms by (cases v) (auto simp: vote_wf_def vote_kinds)
  have "(if vote_kind v = VOTE_TYPE_NOTAR \<or> vote_kind v = VOTE_TYPE_NOTAR_FALLBACK then the (vote_block_hash v) else []) =
      (case vote_block_hash v of None \<Rightarrow> [] | Some h \<Rightarrow> h)"
    by (cases v) (auto simp: vote_kinds)
  with payload_shape [OF c, of "vote_slot v"] show ?thesis by (auto simp: vote_payload_def)
qed

subsection \<open>Properties\<close>

text \<open>
  Aggregation: an aggregate is built exactly when there is at least one signature, one index
  per signature, at most 2048 validators, and the indices are distinct and below the validator
  count; its bitmask then contains exactly the given indices, and the signer count is their
  number.
\<close>

lemma aggregate_signers:
  assumes "\<forall>sig \<in> set sigs. length sig = SIG_SZ"
  shows "((\<exists>a. agg_new sigs idx n = Some a) \<longleftrightarrow>
            sigs \<noteq> [] \<and> length sigs = length idx \<and> n \<le> MAX_SIGNERS \<and> distinct idx \<and> (\<forall>i \<in> set idx. i < n)) \<and>
         (\<forall>a. agg_new sigs idx n = Some a \<longrightarrow>
            agg_wf a \<and> nbits a = n \<and> (\<forall>v. agg_is_signer a v \<longleftrightarrow> v \<in> set idx) \<and> signer_cnt a = length idx)"
proof (cases "sigs \<noteq> [] \<and> length sigs = length idx \<and> n \<le> MAX_SIGNERS")
  case False
  then show ?thesis by (auto simp: agg_new_def agg_init_def)
next
  case True
  then obtain a0 where a0: "agg_init n = Some a0" "agg_wf a0" "nbits a0 = n" "\<And>i. \<not> agg_is_signer a0 i"
    using agg_init_spec by blast
  have keys: "map fst (zip idx sigs) = idx" "fst ` set (zip idx sigs) = set idx"
    using True by (simp_all add: map_fst_zip flip: set_map)
  have new: "agg_new sigs idx n = agg_add_all a0 (zip idx sigs)" using True a0(1) by (auto simp: agg_new_def)
  have sized: "\<And>i sig. (i, sig) \<in> set (zip idx sigs) \<Longrightarrow> length sig = SIG_SZ"
    using assms by (auto dest: set_zip_rightD)
  have all: "(agg_add_all a0 (zip idx sigs) = Some a' \<longrightarrow>
            agg_wf a' \<and> nbits a' = n \<and> (\<forall>j. agg_is_signer a' j \<longleftrightarrow> j \<in> set idx)) \<and>
         ((\<exists>a'. agg_add_all a0 (zip idx sigs) = Some a') \<longleftrightarrow> distinct idx \<and> (\<forall>i \<in> set idx. i < n))" for a'
    using agg_add_all_spec [OF a0(2), of "zip idx sigs" a'] sized unfolding keys by (simp add: a0)
  have ex: "(\<exists>a. agg_new sigs idx n = Some a) \<longleftrightarrow> distinct idx \<and> (\<forall>i \<in> set idx. i < n)"
    using all unfolding new by blast
  moreover have "agg_wf a \<and> nbits a = n \<and> (\<forall>v. agg_is_signer a v \<longleftrightarrow> v \<in> set idx) \<and> signer_cnt a = length idx"
    if "agg_new sigs idx n = Some a" for a
  proof -
    have sp: "agg_wf a" "nbits a = n" "\<And>v. agg_is_signer a v \<longleftrightarrow> v \<in> set idx"
      using all [of a] that unfolding new by blast+
    have "distinct idx" using ex that by blast
    then show ?thesis using sp signer_cnt_card [OF sp(1)] by (simp add: distinct_card)
  qed
  ultimately show ?thesis using True by blast
qed

text \<open>
  C33. Wire format: serialising an aggregate into a large enough buffer succeeds, changes only
  the announced prefix, and deserialising the buffer gives the aggregate back with the number
  of bytes written. A buffer that is too small is refused.
\<close>

theorem aggregate_roundtrip:
  assumes "agg_wf a"
  shows "(length out < serialized_sz (nbits a) \<longrightarrow> agg_serialize a out = Some None) \<and>
         (serialized_sz (nbits a) \<le> length out \<longrightarrow>
           (\<exists>buf. agg_serialize a out = Some (Some (buf, serialized_sz (nbits a))) \<and> length buf = length out \<and>
                  drop (serialized_sz (nbits a)) buf = drop (serialized_sz (nbits a)) out \<and>
                  agg_deserialize buf = Some (a, serialized_sz (nbits a))))"
proof (intro conjI impI)
  let ?n = "words_for_bits (nbits a)" and ?sz = "serialized_sz (nbits a)"
  show "length out < ?sz \<Longrightarrow> agg_serialize a out = Some None" by (simp add: agg_serialize_def)
  assume le: "?sz \<le> length out"
  have len: "length (bitmask a) = BITMASK_WORDS" "length (agg_point a) = SIG_SZ" and n: "?n \<le> BITMASK_WORDS"
    using assms words_for_bits_le by (auto simp: agg_wf_def)
  define ws where "ws = take ?n (bitmask a)"
  define body where "body = concat (map (\<lambda>w. to_le_bytes 8 (unat w)) ws)"
  define buf where "buf = agg_point a @ to_le_bytes 8 (nbits a) @ to_le_bytes 8 ?n @ body @ drop ?sz out"
  have lws: "length ws = ?n" using len n by (simp add: ws_def)
  have lbody: "length body = 8 * ?n" by (simp add: body_def length_concat_le lws)
  have sz: "?sz = SIG_SZ + 16 + 8 * ?n" by (simp add: serialized_sz_def)
  have ser: "agg_serialize a out = Some (Some (buf, ?sz))"
    using le n len by (simp add: agg_serialize_def buf_def body_def ws_def Let_def)
  have "nbits a < 2 ^ 64" "?n < 2 ^ 64" using assms n by (simp_all add: agg_wf_def agg_consts)
  then have small: "from_le_bytes (to_le_bytes 8 (nbits a)) = nbits a" "from_le_bytes (to_le_bytes 8 ?n) = ?n"
    by simp_all
  have lbuf: "length buf = length out" "drop ?sz buf = drop ?sz out"
    using le len by (simp_all add: buf_def lbody sz)
  have dr: "take SIG_SZ buf = agg_point a" "take 8 (drop SIG_SZ buf) = to_le_bytes 8 (nbits a)"
    "take 8 (drop (SIG_SZ + 8) buf) = to_le_bytes 8 ?n" "drop (SIG_SZ + 16) buf = body @ drop ?sz out"
    using len by (simp_all add: buf_def)
  have words: "read_words ?n (body @ drop ?sz out) = ws"
    using read_words_concat [of ws] by (simp add: body_def lws)
  have bits: "nbits a \<le> ?n * 64" by (simp add: words_for_bits_def)
  have max: "?n \<le> words_for_bits MAX_SIGNERS" using n by (simp add: words_for_bits_def agg_consts)
  have long: "\<not> length buf < SIG_SZ + 16" "\<not> length buf < SIG_SZ + 16 + ?n * 8" using le lbuf by (simp_all add: sz)
  have "a = \<lparr>agg_point = agg_point a, nbits = nbits a, bitmask = bitmask a\<rparr>" by simp
  then have "agg_deserialize buf = Some (a, ?sz)"
    using bits max long
    by (simp add: agg_deserialize_def Let_def dr small words [unfolded sz] mask_split [OF assms, folded ws_def] sz)
  with ser lbuf show "\<exists>buf. agg_serialize a out = Some (Some (buf, ?sz)) \<and> length buf = length out \<and>
      drop ?sz buf = drop ?sz out \<and> agg_deserialize buf = Some (a, ?sz)" by blast
qed

theorem aggregate_roundtrip_witness:
  "\<exists>a buf. agg_init 100 = Some a \<and> agg_serialize a (replicate 300 7) = Some (Some (buf, 224)) \<and>
     agg_deserialize buf = Some (a, 224)"
proof -
  have "100 \<le> MAX_SIGNERS" by (simp add: MAX_SIGNERS_def)
  from agg_init_spec [OF this] obtain a where a: "agg_init 100 = Some a" "agg_wf a" "nbits a = 100" by blast
  moreover have "serialized_sz 100 = 224" by (simp add: serialized_sz_def words_for_bits_def SIG_SZ_def)
  ultimately show ?thesis using aggregate_roundtrip [OF a(2), of "replicate 300 7"] by auto
qed

text \<open>
  C34. Signed payloads separate votes: building the payload of a well-formed vote never panics,
  and two votes with the same signed bytes have the same kind, slot and block hash, so a
  signature for one vote cannot be presented for another.
\<close>

theorem vote_payload_injective:
  assumes "vote_wf v" and "vote_wf w"
  shows "vote_payload v \<noteq> None \<and>
         (vote_payload v = vote_payload w \<longleftrightarrow>
            vote_kind v = vote_kind w \<and> vote_slot v = vote_slot w \<and> vote_block_hash v = vote_block_hash w)"
proof -
  have small: "vote_kind u < 256 ^ 4" for u by (cases u) (simp_all add: vote_kinds)
  have "vote_slot v < 256 ^ 8" "vote_slot w < 256 ^ 8" using assms by (auto simp: vote_wf_def u64_max_def)
  moreover have "vote_kind v = vote_kind w \<Longrightarrow>
      (case vote_block_hash v of None \<Rightarrow> [] | Some h \<Rightarrow> h) = (case vote_block_hash w of None \<Rightarrow> [] | Some h \<Rightarrow> h) \<Longrightarrow>
      vote_block_hash v = vote_block_hash w"
    by (cases v; cases w) (auto simp: vote_kinds)
  ultimately show ?thesis
    using to_le_bytes_inj [OF small small] to_le_bytes_inj [of "vote_slot v" 8 "vote_slot w"]
    by (auto simp: vote_payload_shape [OF assms(1)] vote_payload_shape [OF assms(2)])
qed

theorem vote_payload_injective_witness:
  "vote_payload (VSkip \<lparr>sv_slot = 9, sv_sig = [], sv_signer = 1\<rparr>) \<noteq>
   vote_payload (VFinal \<lparr>fv_slot = 9, fv_sig = [], fv_signer = 1\<rparr>)"
proof -
  let ?v = "VSkip \<lparr>sv_slot = 9, sv_sig = [], sv_signer = 1\<rparr>" and ?w = "VFinal \<lparr>fv_slot = 9, fv_sig = [], fv_signer = 1\<rparr>"
  have "vote_wf ?v" "vote_wf ?w" by (simp_all add: vote_wf_def u64_max_def)
  from vote_payload_injective [OF this] show ?thesis by (simp add: vote_kinds)
qed

end
