(* ===== verification/Alp_Cert.thy ===== *)
theory Alp_Cert
  imports Alp_Vote
begin

section \<open>Alpenglow: certificates\<close>

text \<open>
  \<open>karstflow-alpenglow/src/cert.rs\<close>: the five kinds of certificates, their construction from
  votes, and the threshold test. A certificate lists its signers in one or two aggregate
  signatures; the threshold is tested on the stake of the distinct signers. The stake of the
  signers is summed with the wrapping addition of the release profile; the theorems state when
  the sum is exact.
\<close>

subsection \<open>Definitions\<close>

definition CERT_TYPE_NOTAR :: nat where "CERT_TYPE_NOTAR = 0"
definition CERT_TYPE_NOTAR_FALLBACK :: nat where "CERT_TYPE_NOTAR_FALLBACK = 1"
definition CERT_TYPE_SKIP :: nat where "CERT_TYPE_SKIP = 2"
definition CERT_TYPE_FAST_FINAL :: nat where "CERT_TYPE_FAST_FINAL = 3"
definition CERT_TYPE_FINAL :: nat where "CERT_TYPE_FINAL = 4"

datatype CertError = SlotMismatch | BlockHashMismatch

record NotarCert =
  nc_slot :: slot
  nc_block_hash :: BlockHash
  nc_agg_sig :: AggregateSignature
  nc_stake :: stake

record NotarFallbackCert =
  nfc_slot :: slot
  nfc_block_hash :: BlockHash
  agg_sig_notar :: "AggregateSignature option"
  agg_sig_notar_fallback :: "AggregateSignature option"
  nfc_stake :: stake

record SkipCert =
  sc_slot :: slot
  agg_sig_skip :: "AggregateSignature option"
  agg_sig_skip_fallback :: "AggregateSignature option"
  sc_stake :: stake

record FastFinalCert =
  ffc_slot :: slot
  ffc_block_hash :: BlockHash
  ffc_agg_sig :: AggregateSignature
  ffc_stake :: stake

record FinalCert =
  fc_slot :: slot
  fc_agg_sig :: AggregateSignature
  fc_stake :: stake

definition agg_build :: "(nat \<times> Signature) list \<Rightarrow> u64 \<Rightarrow> AggregateSignature option" where
  "agg_build items n = do { a \<leftarrow> agg_init n; agg_add_all a items }"

text \<open>
  The loop of the five constructors over the votes, given as (slot, hash, signer, signature);
  kinds without a block hash pass \<open>None\<close>. \<open>None\<close> as a result is the panic of an index out of
  range.
\<close>

type_synonym vote_item = "slot \<times> BlockHash option \<times> nat \<times> Signature"

fun cert_loop :: "slot \<Rightarrow> BlockHash option \<Rightarrow> ValidatorInfo list \<Rightarrow> vote_item list \<Rightarrow> stake \<Rightarrow>
    (nat \<times> Signature) list \<Rightarrow> (CertError + stake \<times> (nat \<times> Signature) list) option" where
  "cert_loop s bh vals [] st items = Some (Inr (st, items))"
| "cert_loop s bh vals ((vs, vh, signer, sig) # rest) st items =
     (if vs \<noteq> s then Some (Inl SlotMismatch)
      else if vh \<noteq> bh then Some (Inl BlockHashMismatch)
      else if signer < length vals
           then cert_loop s bh vals rest (sat_add64 st (vstake (vals ! signer))) (items @ [(signer, sig)])
           else None)"

definition nv_item :: "NotarVote \<Rightarrow> vote_item" where
  "nv_item v = (nv_slot v, Some (nv_block_hash v), nv_signer v, nv_sig v)"

definition nfv_item :: "NotarFallbackVote \<Rightarrow> vote_item" where
  "nfv_item v = (nfv_slot v, Some (nfv_block_hash v), nfv_signer v, nfv_sig v)"

definition sv_item :: "SkipVote \<Rightarrow> vote_item" where
  "sv_item v = (sv_slot v, None, sv_signer v, sv_sig v)"

definition sfv_item :: "SkipFallbackVote \<Rightarrow> vote_item" where
  "sfv_item v = (sfv_slot v, None, sfv_signer v, sfv_sig v)"

definition fv_item :: "FinalVote \<Rightarrow> vote_item" where
  "fv_item v = (fv_slot v, None, fv_signer v, fv_sig v)"

definition notar_cert_try_new :: "NotarVote list \<Rightarrow> ValidatorInfo list \<Rightarrow> (CertError + NotarCert) option" where
  "notar_cert_try_new votes vals =
     (case votes of
        [] \<Rightarrow> None
      | v0 # _ \<Rightarrow> do {
          r \<leftarrow> cert_loop (nv_slot v0) (Some (nv_block_hash v0)) vals (map nv_item votes) 0 [];
          (case r of
             Inl e \<Rightarrow> Some (Inl e)
           | Inr (st, items) \<Rightarrow> do {
               a \<leftarrow> agg_build items (length vals);
               Some (Inr \<lparr>nc_slot = nv_slot v0, nc_block_hash = nv_block_hash v0, nc_agg_sig = a, nc_stake = st\<rparr>)
             })
        })"

definition fast_final_cert_try_new :: "NotarVote list \<Rightarrow> ValidatorInfo list \<Rightarrow> (CertError + FastFinalCert) option" where
  "fast_final_cert_try_new votes vals =
     do {
       r \<leftarrow> notar_cert_try_new votes vals;
       Some (map_sum id (\<lambda>n. \<lparr>ffc_slot = nc_slot n, ffc_block_hash = nc_block_hash n,
                              ffc_agg_sig = nc_agg_sig n, ffc_stake = nc_stake n\<rparr>) r)
     }"

definition final_cert_try_new :: "FinalVote list \<Rightarrow> ValidatorInfo list \<Rightarrow> (CertError + FinalCert) option" where
  "final_cert_try_new votes vals =
     (case votes of
        [] \<Rightarrow> None
      | v0 # _ \<Rightarrow> do {
          r \<leftarrow> cert_loop (fv_slot v0) None vals (map fv_item votes) 0 [];
          (case r of
             Inl e \<Rightarrow> Some (Inl e)
           | Inr (st, items) \<Rightarrow> do {
               a \<leftarrow> agg_build items (length vals);
               Some (Inr \<lparr>fc_slot = fv_slot v0, fc_agg_sig = a, fc_stake = st\<rparr>)
             })
        })"

text \<open>\<open>(!items.is_empty()).then(|| agg_build(&items, nbits))\<close>.\<close>

definition agg_build_opt :: "(nat \<times> Signature) list \<Rightarrow> u64 \<Rightarrow> AggregateSignature option option" where
  "agg_build_opt items n = (if items = [] then Some None else map_option Some (agg_build items n))"

text \<open>The two loops of a mixed certificate; the stake is carried from the first to the second.\<close>

definition mixed_loop :: "slot \<Rightarrow> BlockHash option \<Rightarrow> ValidatorInfo list \<Rightarrow> vote_item list \<Rightarrow> vote_item list \<Rightarrow>
    (CertError + AggregateSignature option \<times> AggregateSignature option \<times> stake) option" where
  "mixed_loop s bh vals xs ys =
     do {
       r \<leftarrow> cert_loop s bh vals xs 0 [];
       (case r of
          Inl e \<Rightarrow> Some (Inl e)
        | Inr (st, items) \<Rightarrow> do {
            r' \<leftarrow> cert_loop s bh vals ys st [];
            (case r' of
               Inl e \<Rightarrow> Some (Inl e)
             | Inr (st', items') \<Rightarrow> do {
                 a \<leftarrow> agg_build_opt items (length vals);
                 b \<leftarrow> agg_build_opt items' (length vals);
                 Some (Inr (a, b, st'))
               })
          })
     }"

definition notar_fallback_cert_try_new ::
  "NotarVote list \<Rightarrow> NotarFallbackVote list \<Rightarrow> ValidatorInfo list \<Rightarrow> (CertError + NotarFallbackCert) option" where
  "notar_fallback_cert_try_new nvs nfs vals =
     (if nvs = [] \<and> nfs = [] then None
      else let (s, bh) = (case nvs of v # _ \<Rightarrow> (nv_slot v, nv_block_hash v)
                          | [] \<Rightarrow> (nfv_slot (hd nfs), nfv_block_hash (hd nfs))) in
        do {
          r \<leftarrow> mixed_loop s (Some bh) vals (map nv_item nvs) (map nfv_item nfs);
          Some (map_sum id (\<lambda>(a, b, st). \<lparr>nfc_slot = s, nfc_block_hash = bh, agg_sig_notar = a,
                                          agg_sig_notar_fallback = b, nfc_stake = st\<rparr>) r)
        })"

definition skip_cert_try_new ::
  "SkipVote list \<Rightarrow> SkipFallbackVote list \<Rightarrow> ValidatorInfo list \<Rightarrow> (CertError + SkipCert) option" where
  "skip_cert_try_new svs sfs vals =
     (if svs = [] \<and> sfs = [] then None
      else let s = (case svs of v # _ \<Rightarrow> sv_slot v | [] \<Rightarrow> sfv_slot (hd sfs)) in
        do {
          r \<leftarrow> mixed_loop s None vals (map sv_item svs) (map sfv_item sfs);
          Some (map_sum id (\<lambda>(a, b, st). \<lparr>sc_slot = s, agg_sig_skip = a, agg_sig_skip_fallback = b, sc_stake = st\<rparr>) r)
        })"

datatype Cert =
    CNotar NotarCert
  | CNotarFallback NotarFallbackCert
  | CSkip SkipCert
  | CFastFinal FastFinalCert
  | CFinal FinalCert

fun cert_kind :: "Cert \<Rightarrow> nat" where
  "cert_kind (CNotar _) = CERT_TYPE_NOTAR"
| "cert_kind (CNotarFallback _) = CERT_TYPE_NOTAR_FALLBACK"
| "cert_kind (CSkip _) = CERT_TYPE_SKIP"
| "cert_kind (CFastFinal _) = CERT_TYPE_FAST_FINAL"
| "cert_kind (CFinal _) = CERT_TYPE_FINAL"

fun cert_slot :: "Cert \<Rightarrow> slot" where
  "cert_slot (CNotar c) = nc_slot c"
| "cert_slot (CNotarFallback c) = nfc_slot c"
| "cert_slot (CSkip c) = sc_slot c"
| "cert_slot (CFastFinal c) = ffc_slot c"
| "cert_slot (CFinal c) = fc_slot c"

fun cert_stake :: "Cert \<Rightarrow> stake" where
  "cert_stake (CNotar c) = nc_stake c"
| "cert_stake (CNotarFallback c) = nfc_stake c"
| "cert_stake (CSkip c) = sc_stake c"
| "cert_stake (CFastFinal c) = ffc_stake c"
| "cert_stake (CFinal c) = fc_stake c"

fun cert_block_hash :: "Cert \<Rightarrow> BlockHash option" where
  "cert_block_hash (CNotar c) = Some (nc_block_hash c)"
| "cert_block_hash (CNotarFallback c) = Some (nfc_block_hash c)"
| "cert_block_hash (CFastFinal c) = Some (ffc_block_hash c)"
| "cert_block_hash _ = None"

definition any_signer :: "AggregateSignature option \<Rightarrow> u64 \<Rightarrow> bool" where
  "any_signer o' v = (case o' of None \<Rightarrow> False | Some a \<Rightarrow> agg_is_signer a v)"

fun cert_is_signer :: "Cert \<Rightarrow> u64 \<Rightarrow> bool" where
  "cert_is_signer (CNotar c) v = agg_is_signer (nc_agg_sig c) v"
| "cert_is_signer (CFastFinal c) v = agg_is_signer (ffc_agg_sig c) v"
| "cert_is_signer (CFinal c) v = agg_is_signer (fc_agg_sig c) v"
| "cert_is_signer (CNotarFallback c) v = (any_signer (agg_sig_notar c) v \<or> any_signer (agg_sig_notar_fallback c) v)"
| "cert_is_signer (CSkip c) v = (any_signer (agg_sig_skip c) v \<or> any_signer (agg_sig_skip_fallback c) v)"

definition signed_stake :: "Cert \<Rightarrow> EpochInfo \<Rightarrow> stake" where
  "signed_stake c ei = foldl add64 0 (map vstake (filter (\<lambda>v. cert_is_signer c (vid v)) (validators ei)))"

definition cert_check_threshold :: "Cert \<Rightarrow> EpochInfo \<Rightarrow> bool" where
  "cert_check_threshold c ei =
     (let st = signed_stake c ei in
      case c of CFastFinal _ \<Rightarrow> ei_is_strong_quorum ei st | _ \<Rightarrow> ei_is_quorum ei st)"

definition cert_verify :: "PublicKey list \<Rightarrow> AggregateSignature \<Rightarrow> nat \<Rightarrow> slot \<Rightarrow> BlockHash option \<Rightarrow> bool option" where
  "cert_verify pks a kind s bh =
     do {
       (b, sz) \<leftarrow> payload_bytes_to_sign (replicate VOTE_PAYLOAD_MAX 0) kind s bh;
       Some (agg_verify_bytes a (take sz b) pks)
     }"

definition cert_verify_opt ::
  "PublicKey list \<Rightarrow> AggregateSignature option \<Rightarrow> nat \<Rightarrow> slot \<Rightarrow> BlockHash option \<Rightarrow> bool option" where
  "cert_verify_opt pks o' kind s bh = (case o' of None \<Rightarrow> Some True | Some a \<Rightarrow> cert_verify pks a kind s bh)"

fun cert_check_sig :: "Cert \<Rightarrow> ValidatorInfo list \<Rightarrow> bool option" where
  "cert_check_sig (CNotar c) vals =
     cert_verify (map voting_pubkey vals) (nc_agg_sig c) VOTE_TYPE_NOTAR (nc_slot c) (Some (nc_block_hash c))"
| "cert_check_sig (CFastFinal c) vals =
     cert_verify (map voting_pubkey vals) (ffc_agg_sig c) VOTE_TYPE_NOTAR (ffc_slot c) (Some (ffc_block_hash c))"
| "cert_check_sig (CFinal c) vals =
     cert_verify (map voting_pubkey vals) (fc_agg_sig c) VOTE_TYPE_FINAL (fc_slot c) None"
| "cert_check_sig (CNotarFallback c) vals =
     do {
       x \<leftarrow> cert_verify_opt (map voting_pubkey vals) (agg_sig_notar c) VOTE_TYPE_NOTAR (nfc_slot c) (Some (nfc_block_hash c));
       y \<leftarrow> cert_verify_opt (map voting_pubkey vals) (agg_sig_notar_fallback c) VOTE_TYPE_NOTAR_FALLBACK
              (nfc_slot c) (Some (nfc_block_hash c));
       Some (x \<and> y)
     }"
| "cert_check_sig (CSkip c) vals =
     do {
       x \<leftarrow> cert_verify_opt (map voting_pubkey vals) (agg_sig_skip c) VOTE_TYPE_SKIP (sc_slot c) None;
       y \<leftarrow> cert_verify_opt (map voting_pubkey vals) (agg_sig_skip_fallback c) VOTE_TYPE_SKIP_FALLBACK (sc_slot c) None;
       Some (x \<and> y)
     }"

subsection \<open>Construction from votes\<close>

definition item_bad :: "slot \<Rightarrow> BlockHash option \<Rightarrow> vote_item \<Rightarrow> bool" where
  "item_bad s bh x \<longleftrightarrow> fst x \<noteq> s \<or> fst (snd x) \<noteq> bh"

definition item_error :: "slot \<Rightarrow> vote_item \<Rightarrow> CertError" where
  "item_error s x = (if fst x \<noteq> s then SlotMismatch else BlockHashMismatch)"

abbreviation item_signer :: "vote_item \<Rightarrow> nat" where
  "item_signer x \<equiv> fst (snd (snd x))"

abbreviation item_sig :: "vote_item \<Rightarrow> Signature" where
  "item_sig x \<equiv> snd (snd (snd x))"

lemma cert_loop_spec:
  assumes "\<forall>x \<in> set xs. item_signer x < length vals" "st \<le> u64_max"
  shows "cert_loop s bh vals xs st items =
     (case find (item_bad s bh) xs of
        Some x \<Rightarrow> Some (Inl (item_error s x))
      | None \<Rightarrow> Some (Inr (min (st + sum_list (map (\<lambda>x. vstake (vals ! item_signer x)) xs)) u64_max,
                           items @ map (\<lambda>x. (item_signer x, item_sig x)) xs)))"
  using assms
proof (induction xs arbitrary: st items)
  case (Cons x xs)
  obtain vs vh sg sig where x: "x = (vs, vh, sg, sig)" by (metis prod_cases4)
  have "min (sat_add64 st a + b) u64_max = min (st + (a + b)) u64_max" for a b
    by (auto simp: sat_add64_def min_def)
  then show ?case
    using Cons.IH [of "sat_add64 st (vstake (vals ! sg))" "items @ [(sg, sig)]"] Cons.prems
    by (auto simp: x item_bad_def item_error_def split: option.splits)
qed simp

lemma agg_build_spec:
  assumes "n \<le> MAX_SIGNERS" "distinct (map fst items)" "\<forall>(i, sig) \<in> set items. i < n \<and> length sig = SIG_SZ"
  shows "\<exists>a. agg_build items n = Some a \<and> agg_wf a \<and> nbits a = n \<and> (\<forall>v. agg_is_signer a v \<longleftrightarrow> v \<in> fst ` set items)"
proof -
  from agg_init_spec [OF assms(1)] obtain a0 where
    a0: "agg_init n = Some a0" "agg_wf a0" "nbits a0 = n" "\<And>i. \<not> agg_is_signer a0 i" by blast
  have sized: "\<And>i sig. (i, sig) \<in> set items \<Longrightarrow> length sig = SIG_SZ" using assms(3) by auto
  have ok: "\<forall>i \<in> fst ` set items. i < nbits a0 \<and> \<not> agg_is_signer a0 i" using assms(3) a0 by auto
  obtain a where a: "agg_add_all a0 items = Some a"
    using agg_add_all_spec [OF a0(2), of items undefined] sized ok assms(2) by blast
  with agg_add_all_spec [OF a0(2), of items a] sized a0 show ?thesis by (auto simp: agg_build_def)
qed

text \<open>Votes fit the validator set: signers in range and distinct, signatures of full size.\<close>

definition items_ok :: "ValidatorInfo list \<Rightarrow> vote_item list \<Rightarrow> bool" where
  "items_ok vals xs \<longleftrightarrow> length vals \<le> MAX_SIGNERS \<and> distinct (map item_signer xs) \<and>
     (\<forall>x \<in> set xs. item_signer x < length vals \<and> length (item_sig x) = SIG_SZ)"

lemma agg_build_items:
  assumes "items_ok vals xs"
  shows "\<exists>a. agg_build (map (\<lambda>x. (item_signer x, item_sig x)) xs) (length vals) = Some a \<and> agg_wf a \<and>
           nbits a = length vals \<and> (\<forall>v. agg_is_signer a v \<longleftrightarrow> v \<in> item_signer ` set xs)"
  using agg_build_spec [of "length vals" "map (\<lambda>x. (item_signer x, item_sig x)) xs"] assms
  by (auto simp: items_ok_def image_image comp_def case_prod_unfold)

lemma agg_build_opt_items:
  assumes "items_ok vals xs"
  shows "\<exists>o'. agg_build_opt (map (\<lambda>x. (item_signer x, item_sig x)) xs) (length vals) = Some o' \<and>
           (\<forall>v. any_signer o' v \<longleftrightarrow> v \<in> item_signer ` set xs)"
  using agg_build_items [OF assms] by (cases "xs = []") (auto simp: agg_build_opt_def any_signer_def)

lemma mixed_loop_spec:
  assumes "items_ok vals xs" "items_ok vals ys"
  shows "case find (item_bad s bh) (xs @ ys) of
           Some x \<Rightarrow> mixed_loop s bh vals xs ys = Some (Inl (item_error s x))
         | None \<Rightarrow> \<exists>a b. mixed_loop s bh vals xs ys =
              Some (Inr (a, b, min (sum_list (map (\<lambda>x. vstake (vals ! item_signer x)) (xs @ ys))) u64_max)) \<and>
              (\<forall>v. any_signer a v \<or> any_signer b v \<longleftrightarrow> v \<in> item_signer ` set (xs @ ys))"
proof -
  from assms have sg: "\<forall>x \<in> set xs. item_signer x < length vals" "\<forall>x \<in> set ys. item_signer x < length vals"
    by (auto simp: items_ok_def)
  from agg_build_opt_items [OF assms(1)] agg_build_opt_items [OF assms(2)] obtain a b where
    ab: "agg_build_opt (map (\<lambda>x. (item_signer x, item_sig x)) xs) (length vals) = Some a"
      "agg_build_opt (map (\<lambda>x. (item_signer x, item_sig x)) ys) (length vals) = Some b"
      "\<And>v. any_signer a v \<longleftrightarrow> v \<in> item_signer ` set xs" "\<And>v. any_signer b v \<longleftrightarrow> v \<in> item_signer ` set ys"
    by blast
  have m: "min (min u u64_max + w) u64_max = min (u + w) u64_max" for u w by (auto simp: min_def)
  have f: "find P (xs @ ys) = (case find P xs of None \<Rightarrow> find P ys | Some x \<Rightarrow> Some x)" for P
    by (induction xs) auto
  note loops = mixed_loop_def cert_loop_spec [OF sg(1)] cert_loop_spec [OF sg(2)] f m
  show ?thesis
  proof (cases "find (item_bad s bh) xs")
    case xs: None
    show ?thesis
    proof (cases "find (item_bad s bh) ys")
      case None
      with xs have "mixed_loop s bh vals xs ys =
          Some (Inr (a, b, min (sum_list (map (\<lambda>x. vstake (vals ! item_signer x)) (xs @ ys))) u64_max))"
        using ab by (simp add: loops)
      with None xs ab show ?thesis by (auto simp: f)
    qed (use xs in \<open>simp add: loops\<close>)
  qed (simp add: loops)
qed

lemma find_first_ok: "\<not> P x \<Longrightarrow> find P (x # xs) = find P xs"
  by simp

subsection \<open>Signed stake\<close>

lemma foldl_add64: "a < 2 ^ 64 \<Longrightarrow> foldl add64 a xs = (a + sum_list xs) mod 2 ^ 64"
proof (induction xs arbitrary: a)
  case (Cons x xs)
  have "foldl add64 (add64 a x) xs = (add64 a x + sum_list xs) mod 2 ^ 64"
    by (rule Cons.IH) (simp add: add64_def)
  also have "\<dots> = (a + sum_list (x # xs)) mod 2 ^ 64"
    by (simp add: add64_def mod_add_left_eq add.assoc)
  finally show ?case by simp
qed simp

abbreviation ei_stakes :: "EpochInfo \<Rightarrow> nat" where
  "ei_stakes ei \<equiv> sum_list (map vstake (validators ei))"

lemma signed_stake_exact:
  assumes "ei_stakes ei \<le> u64_max"
  shows "signed_stake c ei = sum_list (map vstake (filter (\<lambda>v. cert_is_signer c (vid v)) (validators ei)))"
proof -
  have "sum_list (map vstake (filter (\<lambda>v. cert_is_signer c (vid v)) (validators ei))) \<le> u64_max"
    using sum_list_filter_le assms by (rule le_trans)
  then show ?thesis by (simp add: signed_stake_def foldl_add64 u64_max_def)
qed

lemma threshold_quorum:
  "cert_check_threshold c ei \<Longrightarrow> is_quorum (signed_stake c ei) (ei_total_stake ei)"
  by (cases c) (auto simp: cert_check_threshold_def ei_quorum_defs strong_quorum_quorum)

lemma ei_total_exact: "ei_wf ei \<Longrightarrow> ei_stakes ei \<le> u64_max \<Longrightarrow> ei_total_stake ei = ei_stakes ei"
  by (simp add: ei_wf_def)

definition common_stake :: "Cert \<Rightarrow> Cert \<Rightarrow> EpochInfo \<Rightarrow> stake" where
  "common_stake c d ei = sum_list (map vstake
     (filter (\<lambda>v. cert_is_signer c (vid v) \<and> cert_is_signer d (vid v)) (validators ei)))"

lemma common_stake_commute: "common_stake c d ei = common_stake d c ei"
  by (simp add: common_stake_def conj_commute)

lemma common_stake_quorum:
  assumes "ei_wf ei" "ei_stakes ei \<le> u64_max" "cert_check_threshold c ei" "cert_check_threshold d ei"
  shows "ei_total_stake ei \<le> 5 * common_stake c d ei"
proof -
  note ex = ei_total_exact [OF assms(1,2)]
  have "is_quorum (signed_stake c ei) (ei_total_stake ei)" "is_quorum (signed_stake d ei) (ei_total_stake ei)"
    using assms(3,4) threshold_quorum by auto
  from qq.shared_weight [OF _ this [unfolded signed_stake_exact [OF assms(2)]], of ]
  have "(ei_total_stake ei + 4) div 5 \<le> common_stake c d ei" by (simp add: ex common_stake_def)
  then show ?thesis by linarith
qed

lemma common_stake_strong:
  assumes "ei_wf ei" "ei_stakes ei \<le> u64_max" "cert_check_threshold (CFastFinal c) ei" "cert_check_threshold d ei"
  shows "2 * ei_total_stake ei \<le> 5 * common_stake (CFastFinal c) d ei"
proof -
  note ex = ei_total_exact [OF assms(1,2)]
  have "is_strong_quorum (signed_stake (CFastFinal c) ei) (ei_total_stake ei)" "is_quorum (signed_stake d ei) (ei_total_stake ei)"
    using assms(3,4) threshold_quorum by (auto simp: cert_check_threshold_def ei_quorum_defs)
  from sq.shared_weight [OF _ this [unfolded signed_stake_exact [OF assms(2)]]]
  have "(2 * ei_total_stake ei + 4) div 5 \<le> common_stake (CFastFinal c) d ei" by (simp add: ex common_stake_def)
  then show ?thesis by linarith
qed

lemma nf_try_new_ok:
  assumes "items_ok vals (map nv_item nvs)" and "items_ok vals (map nfv_item nfs)" and "nvs \<noteq> [] \<or> nfs \<noteq> []"
    and "\<forall>v \<in> set nvs. nv_slot v = s \<and> nv_block_hash v = h"
    and "\<forall>v \<in> set nfs. nfv_slot v = s \<and> nfv_block_hash v = h"
  shows "\<exists>c. notar_fallback_cert_try_new nvs nfs vals = Some (Inr c) \<and> nfc_slot c = s \<and> nfc_block_hash c = h \<and>
           (\<forall>i. cert_is_signer (CNotarFallback c) i \<longleftrightarrow> i \<in> nv_signer ` set nvs \<union> nfv_signer ` set nfs) \<and>
           nfc_stake c = min (sum_list (map (\<lambda>w. vstake (vals ! nv_signer w)) nvs) +
                              sum_list (map (\<lambda>w. vstake (vals ! nfv_signer w)) nfs)) u64_max"
proof -
  let ?xs = "map nv_item nvs" and ?ys = "map nfv_item nfs"
  have "find (item_bad s (Some h)) (?xs @ ?ys) = None"
    using assms(4,5) by (auto simp: find_None_iff item_bad_def nv_item_def nfv_item_def)
  with mixed_loop_spec [OF assms(1,2), of s "Some h"] obtain a b where
    ab: "mixed_loop s (Some h) vals ?xs ?ys =
           Some (Inr (a, b, min (sum_list (map (\<lambda>x. vstake (vals ! item_signer x)) (?xs @ ?ys))) u64_max))"
      "\<And>v. any_signer a v \<or> any_signer b v \<longleftrightarrow> v \<in> item_signer ` set (?xs @ ?ys)" by auto
  have img: "item_signer ` set (?xs @ ?ys) = nv_signer ` set nvs \<union> nfv_signer ` set nfs"
    by (simp add: image_Un image_image nv_item_def nfv_item_def)
  have sh: "(case nvs of v # _ \<Rightarrow> (nv_slot v, nv_block_hash v) | [] \<Rightarrow> (nfv_slot (hd nfs), nfv_block_hash (hd nfs))) = (s, h)"
    using assms(3-5) by (cases nvs) auto
  have st: "sum_list (map (\<lambda>x. vstake (vals ! item_signer x)) (?xs @ ?ys)) =
      sum_list (map (\<lambda>w. vstake (vals ! nv_signer w)) nvs) + sum_list (map (\<lambda>w. vstake (vals ! nfv_signer w)) nfs)"
    by (simp add: comp_def nv_item_def nfv_item_def)
  show ?thesis using assms(3) ab unfolding notar_fallback_cert_try_new_def sh img st by auto
qed

lemma notar_try_new_ok:
  assumes "items_ok vals (map nv_item vs)" "vs \<noteq> []" "\<forall>v \<in> set vs. nv_slot v = s \<and> nv_block_hash v = h"
  shows "\<exists>c. notar_cert_try_new vs vals = Some (Inr c) \<and> nc_slot c = s \<and> nc_block_hash c = h \<and>
           (\<forall>i. cert_is_signer (CNotar c) i \<longleftrightarrow> i \<in> nv_signer ` set vs)"
proof -
  let ?xs = "map nv_item vs"
  have sg: "\<forall>x \<in> set ?xs. item_signer x < length vals" using assms(1) by (auto simp: items_ok_def)
  have none: "find (item_bad s (Some h)) ?xs = None"
    using assms(3) by (auto simp: find_None_iff item_bad_def nv_item_def)
  obtain v vs' where vs: "vs = v # vs'" using assms(2) by (cases vs) auto
  have sh: "nv_slot v = s" "nv_block_hash v = h" using assms(3) vs by auto
  from agg_build_items [OF assms(1)] obtain a where
    a: "agg_build (map (\<lambda>x. (item_signer x, item_sig x)) ?xs) (length vals) = Some a"
    "\<And>i. agg_is_signer a i \<longleftrightarrow> i \<in> item_signer ` set ?xs" by blast
  have img: "item_signer ` set ?xs = nv_signer ` set vs" by (simp add: image_image nv_item_def)
  have "notar_cert_try_new vs vals = do {
          r \<leftarrow> cert_loop s (Some h) vals ?xs 0 [];
          (case r of
             Inl e \<Rightarrow> Some (Inl e)
           | Inr (st, items) \<Rightarrow> do {
               a \<leftarrow> agg_build items (length vals);
               Some (Inr \<lparr>nc_slot = s, nc_block_hash = h, nc_agg_sig = a, nc_stake = st\<rparr>)
             })
        }"
    unfolding notar_cert_try_new_def vs by (simp add: sh)
  then show ?thesis using a(1) a(2) [unfolded img] by (simp add: cert_loop_spec [OF sg] none)
qed

lemma fast_final_try_new_ok:
  assumes "items_ok vals (map nv_item vs)" "vs \<noteq> []" "\<forall>v \<in> set vs. nv_slot v = s \<and> nv_block_hash v = h"
  shows "\<exists>c. fast_final_cert_try_new vs vals = Some (Inr c) \<and> ffc_slot c = s \<and> ffc_block_hash c = h \<and>
           (\<forall>i. cert_is_signer (CFastFinal c) i \<longleftrightarrow> i \<in> nv_signer ` set vs)"
  using notar_try_new_ok [OF assms] by (auto simp: fast_final_cert_try_new_def)

lemma final_try_new_ok:
  assumes "items_ok vals (map fv_item vs)" "vs \<noteq> []" "\<forall>v \<in> set vs. fv_slot v = s"
  shows "\<exists>c. final_cert_try_new vs vals = Some (Inr c) \<and> fc_slot c = s \<and>
           (\<forall>i. cert_is_signer (CFinal c) i \<longleftrightarrow> i \<in> fv_signer ` set vs)"
proof -
  let ?xs = "map fv_item vs"
  have sg: "\<forall>x \<in> set ?xs. item_signer x < length vals" using assms(1) by (auto simp: items_ok_def)
  have none: "find (item_bad s None) ?xs = None"
    using assms(3) by (auto simp: find_None_iff item_bad_def fv_item_def)
  obtain v vs' where vs: "vs = v # vs'" using assms(2) by (cases vs) auto
  have sh: "fv_slot v = s" using assms(3) vs by auto
  from agg_build_items [OF assms(1)] obtain a where
    a: "agg_build (map (\<lambda>x. (item_signer x, item_sig x)) ?xs) (length vals) = Some a"
    "\<And>i. agg_is_signer a i \<longleftrightarrow> i \<in> item_signer ` set ?xs" by blast
  have img: "item_signer ` set ?xs = fv_signer ` set vs" by (simp add: image_image fv_item_def)
  have "final_cert_try_new vs vals = do {
          r \<leftarrow> cert_loop s None vals ?xs 0 [];
          (case r of
             Inl e \<Rightarrow> Some (Inl e)
           | Inr (st, items) \<Rightarrow> do {
               a \<leftarrow> agg_build items (length vals);
               Some (Inr \<lparr>fc_slot = s, fc_agg_sig = a, fc_stake = st\<rparr>)
             })
        }"
    unfolding final_cert_try_new_def vs by (simp add: sh)
  then show ?thesis using a(1) a(2) [unfolded img] by (simp add: cert_loop_spec [OF sg] none)
qed

lemma skip_try_new_ok:
  assumes "items_ok vals (map sv_item svs)" and "items_ok vals (map sfv_item sfs)" and "svs \<noteq> [] \<or> sfs \<noteq> []"
    and "\<forall>v \<in> set svs. sv_slot v = s" and "\<forall>v \<in> set sfs. sfv_slot v = s"
  shows "\<exists>c. skip_cert_try_new svs sfs vals = Some (Inr c) \<and> sc_slot c = s \<and>
           (\<forall>i. cert_is_signer (CSkip c) i \<longleftrightarrow> i \<in> sv_signer ` set svs \<union> sfv_signer ` set sfs)"
proof -
  let ?xs = "map sv_item svs" and ?ys = "map sfv_item sfs"
  have "find (item_bad s None) (?xs @ ?ys) = None"
    using assms(4,5) by (auto simp: find_None_iff item_bad_def sv_item_def sfv_item_def)
  with mixed_loop_spec [OF assms(1,2), of s None] obtain a b where
    ab: "mixed_loop s None vals ?xs ?ys =
           Some (Inr (a, b, min (sum_list (map (\<lambda>x. vstake (vals ! item_signer x)) (?xs @ ?ys))) u64_max))"
      "\<And>v. any_signer a v \<or> any_signer b v \<longleftrightarrow> v \<in> item_signer ` set (?xs @ ?ys)" by auto
  have img: "item_signer ` set (?xs @ ?ys) = sv_signer ` set svs \<union> sfv_signer ` set sfs"
    by (simp add: image_Un image_image sv_item_def sfv_item_def)
  have sh: "(case svs of v # _ \<Rightarrow> sv_slot v | [] \<Rightarrow> sfv_slot (hd sfs)) = s"
    using assms(3-5) by (cases svs) auto
  show ?thesis using assms(3) ab unfolding skip_cert_try_new_def sh img by auto
qed

text \<open>The stake of a set of validators given by index.\<close>

definition stake_at :: "EpochInfo \<Rightarrow> nat \<Rightarrow> stake" where
  "stake_at ei v = vstake (validators ei ! v)"

lemma stake_sum:
  assumes "ei_wf ei" "distinct ks" "\<forall>k \<in> set ks. k < length (validators ei)"
  shows "sum_list (map (stake_at ei) ks) = sum_list (map vstake (filter (\<lambda>v. vid v \<in> set ks) (validators ei)))"
proof -
  let ?vals = "validators ei"
  have nth: "map (nth ?vals) [0..<length ?vals] = ?vals" by (rule map_nth)
  have "filter (\<lambda>v. vid v \<in> set ks) ?vals = map (nth ?vals) (filter (\<lambda>i. vid (?vals ! i) \<in> set ks) [0..<length ?vals])"
    by (subst (1) nth [symmetric]) (simp only: filter_map comp_def)
  also have "filter (\<lambda>i. vid (?vals ! i) \<in> set ks) [0..<length ?vals] = filter (\<lambda>i. i \<in> set ks) [0..<length ?vals]"
    using assms(1) by (intro filter_cong) (auto simp: ei_wf_def)
  finally have "sum_list (map vstake (filter (\<lambda>v. vid v \<in> set ks) ?vals)) =
      sum_list (map (stake_at ei) (filter (\<lambda>i. i \<in> set ks) [0..<length ?vals]))"
    by (simp add: comp_def stake_at_def [abs_def])
  also have "\<dots> = sum (stake_at ei) (set (filter (\<lambda>i. i \<in> set ks) [0..<length ?vals]))"
    by (rule sum_list_distinct_sum) simp
  also have "set (filter (\<lambda>i. i \<in> set ks) [0..<length ?vals]) = set ks" using assms(3) by auto
  also have "sum (stake_at ei) (set ks) = sum_list (map (stake_at ei) ks)"
    by (rule sum_list_distinct_sum [OF assms(2), symmetric])
  finally show ?thesis by simp
qed

lemma stake_sum_le:
  assumes "ei_wf ei" "distinct ks" "\<forall>k \<in> set ks. k < length (validators ei)"
  shows "sum_list (map (stake_at ei) ks) \<le> ei_stakes ei"
  unfolding stake_sum [OF assms] by (rule sum_list_filter_le)

lemma signed_stake_signers:
  assumes "ei_wf ei" "ei_stakes ei \<le> u64_max" "distinct ks" "\<forall>k \<in> set ks. k < length (validators ei)"
    and "\<And>i. cert_is_signer c i \<longleftrightarrow> i \<in> set ks"
  shows "signed_stake c ei = sum_list (map (stake_at ei) ks)"
  by (simp add: signed_stake_exact [OF assms(2)] stake_sum [OF assms(1,3,4)] assms(5))

subsection \<open>Properties\<close>

text \<open>
  C10. Quorum intersection: any two certificates that pass the threshold test, of whatever kind
  and content, have common signers holding at least a fifth of the total stake, and at least
  two fifths if one of them is a fast-finalization certificate. With less than a fifth of the
  stake misbehaving, two certificates that no correct validator signs together cannot exist.
\<close>

theorem certificates_intersect:
  assumes "ei_wf ei" and "ei_stakes ei \<le> u64_max"
    and "cert_check_threshold c ei" and "cert_check_threshold d ei"
  shows "ei_total_stake ei \<le> 5 * common_stake c d ei \<and>
         (cert_kind c = CERT_TYPE_FAST_FINAL \<or> cert_kind d = CERT_TYPE_FAST_FINAL \<longrightarrow>
            2 * ei_total_stake ei \<le> 5 * common_stake c d ei) \<and>
         (0 < ei_total_stake ei \<longrightarrow>
            (\<exists>v \<in> set (validators ei). cert_is_signer c (vid v) \<and> cert_is_signer d (vid v) \<and> 0 < vstake v))"
proof -
  have q: "ei_total_stake ei \<le> 5 * common_stake c d ei" by (rule common_stake_quorum [OF assms])
  have kind: "cert_kind e = CERT_TYPE_FAST_FINAL \<longleftrightarrow> (\<exists>f. e = CFastFinal f)" for e
    by (cases e) (simp_all add: CERT_TYPE_NOTAR_def CERT_TYPE_NOTAR_FALLBACK_def CERT_TYPE_SKIP_def
        CERT_TYPE_FAST_FINAL_def CERT_TYPE_FINAL_def)
  have s: "cert_kind c = CERT_TYPE_FAST_FINAL \<or> cert_kind d = CERT_TYPE_FAST_FINAL \<longrightarrow>
            2 * ei_total_stake ei \<le> 5 * common_stake c d ei"
  proof
    assume "cert_kind c = CERT_TYPE_FAST_FINAL \<or> cert_kind d = CERT_TYPE_FAST_FINAL"
    then consider f where "c = CFastFinal f" | f where "d = CFastFinal f" by (auto simp: kind)
    then show "2 * ei_total_stake ei \<le> 5 * common_stake c d ei"
    proof cases
      case (1 f)
      with common_stake_strong [OF assms(1,2), of f d] assms(3,4) show ?thesis by simp
    next
      case (2 f)
      with common_stake_strong [OF assms(1,2), of f c] assms(3,4) show ?thesis
        by (simp add: common_stake_commute [of c])
    qed
  qed
  have "\<exists>v \<in> set (validators ei). cert_is_signer c (vid v) \<and> cert_is_signer d (vid v) \<and> 0 < vstake v"
    if "0 < ei_total_stake ei"
  proof (rule ccontr)
    assume "\<not> ?thesis"
    then have "common_stake c d ei = 0" by (auto simp: common_stake_def sum_list_eq_0_iff)
    with q that show False by simp
  qed
  with q s show ?thesis by blast
qed

text \<open>A sample epoch: three validators with stakes 30, 30 and 40.\<close>

definition sample_validator :: "nat \<Rightarrow> stake \<Rightarrow> ValidatorInfo" where
  "sample_validator i st = \<lparr>vid = i, vstake = st, vpubkey = replicate 32 0, voting_pubkey = replicate 96 0\<rparr>"

definition sample_epoch :: EpochInfo where
  "sample_epoch = \<lparr>validators = [sample_validator 0 30, sample_validator 1 30, sample_validator 2 40], ei_total_stake = 100\<rparr>"

lemma sample_epoch_wf: "ei_wf sample_epoch" "ei_stakes sample_epoch \<le> u64_max"
  by (simp_all add: ei_wf_def sample_epoch_def sample_validator_def u64_max_def less_Suc_eq numeral_3_eq_3)

definition sample_agg :: AggregateSignature where
  "sample_agg = \<lparr>agg_point = replicate 192 0, nbits = 3, bitmask = 5 # replicate 31 0\<rparr>"

definition sample_final :: Cert where
  "sample_final = CFinal \<lparr>fc_slot = 9, fc_agg_sig = sample_agg, fc_stake = 70\<rparr>"

lemma sample_agg_signers:
  "agg_is_signer sample_agg 0" "\<not> agg_is_signer sample_agg (Suc 0)" "agg_is_signer sample_agg 2"
  by (simp_all add: agg_is_signer_bit sample_agg_def mask_bit_def bit_numeral_rec bit_Suc)

theorem certificates_intersect_witness:
  "cert_check_threshold sample_final sample_epoch \<and>
   ei_total_stake sample_epoch \<le> 5 * common_stake sample_final sample_final sample_epoch"
proof -
  have "signed_stake sample_final sample_epoch = 70"
    by (simp add: signed_stake_def sample_final_def sample_epoch_def sample_validator_def sample_agg_signers add64_def)
  then have "cert_check_threshold sample_final sample_epoch"
    by (simp add: cert_check_threshold_def sample_final_def ei_quorum_defs quorum_defs)
       (simp add: sample_epoch_def)
  from this certificates_intersect [OF sample_epoch_wf this this] show ?thesis by blast
qed

text \<open>
  C31. Notarization certificates from votes: with signers in range and distinct, construction
  never panics on a non-empty list; it reports the first vote that disagrees with the first
  one, a slot mismatch before a hash mismatch, and otherwise returns a certificate for that
  slot and hash, signed by exactly the voters, whose stake is the saturating sum of theirs.
\<close>

theorem notar_cert_outcome:
  assumes "items_ok vals (map nv_item (v # vs))"
  shows "case find (\<lambda>w. nv_slot w \<noteq> nv_slot v \<or> nv_block_hash w \<noteq> nv_block_hash v) vs of
           Some w \<Rightarrow> notar_cert_try_new (v # vs) vals =
             Some (Inl (if nv_slot w \<noteq> nv_slot v then SlotMismatch else BlockHashMismatch))
         | None \<Rightarrow> \<exists>c. notar_cert_try_new (v # vs) vals = Some (Inr c) \<and> nc_slot c = nv_slot v \<and>
             nc_block_hash c = nv_block_hash v \<and>
             (\<forall>i. cert_is_signer (CNotar c) i \<longleftrightarrow> i \<in> nv_signer ` set (v # vs)) \<and>
             nc_stake c = min (sum_list (map (\<lambda>w. vstake (vals ! nv_signer w)) (v # vs))) u64_max"
proof -
  let ?xs = "map nv_item (v # vs)" and ?bad = "item_bad (nv_slot v) (Some (nv_block_hash v))"
  have sg: "\<forall>x \<in> set ?xs. item_signer x < length vals" using assms by (auto simp: items_ok_def)
  have find: "find ?bad ?xs = map_option nv_item (find (\<lambda>w. nv_slot w \<noteq> nv_slot v \<or> nv_block_hash w \<noteq> nv_block_hash v) vs)"
    by (simp add: item_bad_def nv_item_def) (induction vs, auto simp: item_bad_def nv_item_def)
  have img: "item_signer ` set ?xs = nv_signer ` set (v # vs)" by (simp add: image_image nv_item_def)
  have st: "map (\<lambda>x. vstake (vals ! item_signer x)) ?xs = map (\<lambda>w. vstake (vals ! nv_signer w)) (v # vs)"
    by (simp add: nv_item_def)
  note loop = cert_loop_spec [OF sg, of 0 "nv_slot v" "Some (nv_block_hash v)" "[]"]
  show ?thesis
  proof (cases "find (\<lambda>w. nv_slot w \<noteq> nv_slot v \<or> nv_block_hash w \<noteq> nv_block_hash v) vs")
    case None
    from agg_build_items [OF assms] obtain a where
      a: "agg_build (map (\<lambda>x. (item_signer x, item_sig x)) ?xs) (length vals) = Some a"
      "\<And>i. agg_is_signer a i \<longleftrightarrow> i \<in> nv_signer ` set (v # vs)" unfolding img by blast
    have "cert_loop (nv_slot v) (Some (nv_block_hash v)) vals ?xs 0 [] =
        Some (Inr (min (sum_list (map (\<lambda>w. vstake (vals ! nv_signer w)) (v # vs))) u64_max,
                   map (\<lambda>x. (item_signer x, item_sig x)) ?xs))"
      unfolding loop [OF le0] find st None by simp
    with a None show ?thesis by (simp add: notar_cert_try_new_def del: list.map sum_list.Cons)
  next
    case (Some w)
    have "cert_loop (nv_slot v) (Some (nv_block_hash v)) vals ?xs 0 [] =
        Some (Inl (if nv_slot w \<noteq> nv_slot v then SlotMismatch else BlockHashMismatch))"
      unfolding loop [OF le0] find Some by (simp add: item_error_def nv_item_def)
    with Some show ?thesis by (simp add: notar_cert_try_new_def del: list.map)
  qed
qed

definition sample_notar :: "nat \<Rightarrow> u8 \<Rightarrow> NotarVote" where
  "sample_notar i h = \<lparr>nv_slot = 9, nv_block_hash = replicate 32 h, nv_sig = replicate 192 0, nv_signer = i\<rparr>"

theorem notar_cert_outcome_witness:
  "notar_cert_try_new [sample_notar 0 1, sample_notar 2 2] (validators sample_epoch) = Some (Inl BlockHashMismatch) \<and>
   (\<exists>c. notar_cert_try_new [sample_notar 0 1, sample_notar 2 1] (validators sample_epoch) = Some (Inr c) \<and> nc_stake c = 70)"
proof -
  have "items_ok (validators sample_epoch) (map nv_item [sample_notar 0 1, sample_notar 2 h])" for h
    by (simp add: items_ok_def sample_epoch_def sample_notar_def nv_item_def agg_consts)
  from notar_cert_outcome [OF this, of 2] notar_cert_outcome [OF this, of 1] show ?thesis
    by (auto simp: sample_notar_def sample_epoch_def sample_validator_def u64_max_def)
qed

text \<open>
  C32. Mixed certificates: a notarization-fallback certificate built from agreeing votes is
  signed by exactly the voters of both lists; a validator on both lists is one signer for the
  threshold test but counted twice in the recorded stake.
\<close>

theorem notar_fallback_cert_signers:
  assumes "items_ok vals (map nv_item nvs)" and "items_ok vals (map nfv_item nfs)" and "nvs \<noteq> [] \<or> nfs \<noteq> []"
    and "\<forall>v \<in> set nvs. nv_slot v = s \<and> nv_block_hash v = h"
    and "\<forall>v \<in> set nfs. nfv_slot v = s \<and> nfv_block_hash v = h"
  shows "\<exists>c. notar_fallback_cert_try_new nvs nfs vals = Some (Inr c) \<and> nfc_slot c = s \<and> nfc_block_hash c = h \<and>
           (\<forall>i. cert_is_signer (CNotarFallback c) i \<longleftrightarrow> i \<in> nv_signer ` set nvs \<union> nfv_signer ` set nfs) \<and>
           nfc_stake c = min (sum_list (map (\<lambda>w. vstake (vals ! nv_signer w)) nvs) +
                              sum_list (map (\<lambda>w. vstake (vals ! nfv_signer w)) nfs)) u64_max"
  using assms by (rule nf_try_new_ok)

theorem notar_fallback_cert_signers_witness:
  "\<exists>c. notar_fallback_cert_try_new [sample_notar 0 1]
         [\<lparr>nfv_slot = 9, nfv_block_hash = replicate 32 1, nfv_sig = replicate 192 0, nfv_signer = 0\<rparr>]
         (validators sample_epoch) = Some (Inr c) \<and> nfc_stake c = 60 \<and> (\<forall>i. cert_is_signer (CNotarFallback c) i \<longleftrightarrow> i = 0)"
proof -
  let ?nf = "\<lparr>nfv_slot = 9, nfv_block_hash = replicate 32 1, nfv_sig = replicate 192 0, nfv_signer = 0\<rparr>"
  have "items_ok (validators sample_epoch) (map nv_item [sample_notar 0 1])"
    "items_ok (validators sample_epoch) (map nfv_item [?nf])"
    by (simp_all add: items_ok_def sample_epoch_def sample_notar_def nv_item_def nfv_item_def agg_consts)
  moreover have "\<forall>v \<in> set [sample_notar 0 1]. nv_slot v = 9 \<and> nv_block_hash v = replicate 32 1"
    "\<forall>v \<in> set [?nf]. nfv_slot v = 9 \<and> nfv_block_hash v = replicate 32 1" by (simp_all add: sample_notar_def)
  ultimately obtain c where c: "notar_fallback_cert_try_new [sample_notar 0 1] [?nf] (validators sample_epoch) = Some (Inr c)"
    "\<And>i. cert_is_signer (CNotarFallback c) i \<longleftrightarrow> i \<in> nv_signer ` set [sample_notar 0 1] \<union> nfv_signer ` set [?nf]"
    "nfc_stake c = min (sum_list (map (\<lambda>w. vstake (validators sample_epoch ! nv_signer w)) [sample_notar 0 1]) +
                        sum_list (map (\<lambda>w. vstake (validators sample_epoch ! nfv_signer w)) [?nf])) u64_max"
    using notar_fallback_cert_signers [of "validators sample_epoch" "[sample_notar 0 1]" "[?nf]" 9 "replicate 32 1"] by blast
  have "nfc_stake c = 60" unfolding c(3) by (simp add: sample_notar_def sample_epoch_def sample_validator_def u64_max_def)
  moreover have "cert_is_signer (CNotarFallback c) i \<longleftrightarrow> i = 0" for i unfolding c(2) by (simp add: sample_notar_def)
  ultimately show ?thesis using c(1) by blast
qed

end
