(* ===== verification/Alp_Slot_State.thy ===== *)
theory Alp_Slot_State
  imports Alp_Cert
begin

section \<open>Alpenglow: the state of one slot\<close>

text \<open>
  \<open>karstflow-alpenglow/src/slot_state.rs\<close>: the votes of one slot with running stake totals,
  the certificates, and the bookkeeping of the safe-to-notar and safe-to-skip conditions. Every
  operation takes the state and the outputs and returns both; \<open>None\<close> is a panic (a failed
  assertion while building a certificate). The totals use the wrapping operators of the release
  profile; the invariant shows that they never wrap.
\<close>

subsection \<open>Definitions\<close>

datatype ParentStatus = Known | Certified

datatype S2n = S2nSafeToNotar | S2nMissingBlock | S2nAwaiting

datatype SlashableOffence =
    NotarDifferentHash
  | SkipAndNotarize
  | SkipAndFinalize
  | NotarFallbackAndFinalize

record Slashable =
  offence :: SlashableOffence
  sl_validator :: u64
  sl_slot :: slot

datatype PoolEvent = SafeToNotar BlockId | SafeToSkip slot

datatype NotifyParent = NotifyNone | NotifyEvent PoolEvent | NotifyRepair BlockId

record SlotStateOutputs =
  out_certs :: "Cert list"
  out_events :: "PoolEvent list"
  out_repairs :: "BlockId list"

definition outputs_empty :: SlotStateOutputs where
  "outputs_empty = \<lparr>out_certs = [], out_events = [], out_repairs = []\<rparr>"

record ValidatorVotes =
  vv_notar :: "NotarVote option"
  vv_skip :: "SkipVote option"
  vv_skip_fallback :: "SkipFallbackVote option"
  vv_finalize :: "FinalVote option"

definition vv_default :: ValidatorVotes where
  "vv_default = \<lparr>vv_notar = None, vv_skip = None, vv_skip_fallback = None, vv_finalize = None\<rparr>"

record SlotCertificates =
  sc_notar :: "NotarCert option"
  sc_skip :: "SkipCert option"
  sc_fast_finalize :: "FastFinalCert option"
  sc_finalize :: "FinalCert option"
  sc_nf :: "NotarFallbackCert list"

record SlotState =
  ss_slot :: slot
  own_id :: u64
  ss_votes :: "(nat, ValidatorVotes) hmap"
  nf_votes :: "(nat \<times> BlockHash, NotarFallbackVote) hmap"
  notar_stake :: "(BlockHash, stake) hmap"
  nf_stake :: "(BlockHash, stake) hmap"
  skip_stake :: stake
  skip_fallback_stake :: stake
  finalize_stake :: stake
  notar_or_skip_stake :: stake
  top_notar_stake :: stake
  parents :: "(BlockHash, ParentStatus) hmap"
  pending_s2n :: "BlockHash list"
  sent_s2n :: "BlockHash list"
  sent_safe_to_skip :: bool
  ss_certs :: SlotCertificates

definition slot_state_new :: "slot \<Rightarrow> u64 \<Rightarrow> SlotState" where
  "slot_state_new s own =
     \<lparr>ss_slot = s, own_id = own, ss_votes = [], nf_votes = [], notar_stake = [], nf_stake = [],
      skip_stake = 0, skip_fallback_stake = 0, finalize_stake = 0, notar_or_skip_stake = 0, top_notar_stake = 0,
      parents = [], pending_s2n = [], sent_s2n = [], sent_safe_to_skip = False,
      ss_certs = \<lparr>sc_notar = None, sc_skip = None, sc_fast_finalize = None, sc_finalize = None, sc_nf = []\<rparr>\<rparr>"

definition vv_of :: "SlotState \<Rightarrow> nat \<Rightarrow> ValidatorVotes option" where
  "vv_of ss v = hm_get (ss_votes ss) v"

text \<open>\<open>values().filter_map(f)\<close> over the votes.\<close>

definition votes_by :: "(ValidatorVotes \<Rightarrow> 'v option) \<Rightarrow> SlotState \<Rightarrow> 'v list" where
  "votes_by f ss = List.map_filter (\<lambda>(_, vv). f vv) (ss_votes ss)"

definition collect_notar :: "SlotState \<Rightarrow> BlockHash \<Rightarrow> NotarVote list" where
  "collect_notar ss h = sort_key nv_signer (filter (\<lambda>n. nv_block_hash n = h) (votes_by vv_notar ss))"

definition collect_nf :: "SlotState \<Rightarrow> BlockHash \<Rightarrow> NotarFallbackVote list" where
  "collect_nf ss h = sort_key nfv_signer (map snd (filter (\<lambda>((_, h'), _). h' = h) (nf_votes ss)))"

definition collect_skip :: "SlotState \<Rightarrow> SkipVote list" where
  "collect_skip ss = sort_key sv_signer (votes_by vv_skip ss)"

definition collect_skip_fallback :: "SlotState \<Rightarrow> SkipFallbackVote list" where
  "collect_skip_fallback ss = sort_key sfv_signer (votes_by vv_skip_fallback ss)"

definition collect_final :: "SlotState \<Rightarrow> FinalVote list" where
  "collect_final ss = sort_key fv_signer (votes_by vv_finalize ss)"

definition is_notar_fallback :: "SlotState \<Rightarrow> BlockHash \<Rightarrow> bool" where
  "is_notar_fallback ss h = list_ex (\<lambda>c. nfc_block_hash c = h) (sc_nf (ss_certs ss))"

definition notar_stake_of :: "SlotState \<Rightarrow> BlockHash \<Rightarrow> stake" where
  "notar_stake_of ss h = hm_get_or (notar_stake ss) 0 h"

definition nf_stake_of :: "SlotState \<Rightarrow> BlockHash \<Rightarrow> stake" where
  "nf_stake_of ss h = hm_get_or (nf_stake ss) 0 h"

definition check_safe_to_notar :: "SlotState \<Rightarrow> BlockHash \<Rightarrow> EpochInfo \<Rightarrow> SlotState \<times> S2n" where
  "check_safe_to_notar ss h ei =
     (let ns = notar_stake_of ss h;
          sk = skip_stake ss
      in if \<not> ei_is_weakest_quorum ei ns then (ss, S2nAwaiting)
         else if \<not> ei_is_weak_quorum ei ns \<and> \<not> ei_is_quorum ei (add64 ns sk)
         then (ss\<lparr>pending_s2n := List.insert h (pending_s2n ss)\<rparr>, S2nAwaiting)
         else case hm_get (parents ss) h of
                None \<Rightarrow> (ss, S2nMissingBlock)
              | Some Known \<Rightarrow> (ss, S2nAwaiting)
              | Some Certified \<Rightarrow>
                  let own = own_id ss mod 2 ^ 16;
                      (has_skip, notar_hash) =
                        (case vv_of ss own of
                           Some vv \<Rightarrow> (vv_skip vv \<noteq> None, map_option nv_block_hash (vv_notar vv))
                         | None \<Rightarrow> (False, None));
                      sent = ss\<lparr>pending_s2n := removeAll h (pending_s2n ss), sent_s2n := List.insert h (sent_s2n ss)\<rparr>
                  in if has_skip then (sent, S2nSafeToNotar)
                     else case notar_hash of
                            Some nh \<Rightarrow> if nh \<noteq> h then (sent, S2nSafeToNotar) else (ss, S2nAwaiting)
                          | None \<Rightarrow> (ss\<lparr>pending_s2n := List.insert h (pending_s2n ss)\<rparr>, S2nAwaiting))"

definition s2n_output :: "S2n \<Rightarrow> BlockId \<Rightarrow> SlotStateOutputs \<Rightarrow> SlotStateOutputs" where
  "s2n_output r b out =
     (case r of
        S2nSafeToNotar \<Rightarrow> out\<lparr>out_events := out_events out @ [SafeToNotar b]\<rparr>
      | S2nMissingBlock \<Rightarrow> out\<lparr>out_repairs := out_repairs out @ [b]\<rparr>
      | S2nAwaiting \<Rightarrow> out)"

fun pending_loop :: "BlockHash list \<Rightarrow> EpochInfo \<Rightarrow> SlotState \<times> SlotStateOutputs \<Rightarrow> SlotState \<times> SlotStateOutputs" where
  "pending_loop [] ei (ss, out) = (ss, out)"
| "pending_loop (h # hs) ei (ss, out) =
     (if h \<in> set (sent_s2n ss) then pending_loop hs ei (ss, out)
      else let (ss', r) = check_safe_to_notar ss h ei
           in pending_loop hs ei (ss', s2n_output r (block_id (ss_slot ss') h) out))"

definition process_pending_safe_to_notar ::
  "SlotState \<Rightarrow> EpochInfo \<Rightarrow> SlotStateOutputs \<Rightarrow> SlotState \<times> SlotStateOutputs" where
  "process_pending_safe_to_notar ss ei out =
     pending_loop (filter (\<lambda>h. h \<notin> set (sent_s2n ss)) (pending_s2n ss)) ei (ss, out)"

text \<open>Pushing the result of a constructor; \<open>expect\<close> panics on an error value.\<close>

definition push_cert :: "('c \<Rightarrow> Cert) \<Rightarrow> (CertError + 'c) option \<Rightarrow> SlotStateOutputs \<Rightarrow> SlotStateOutputs option" where
  "push_cert con r out =
     (case r of Some (Inr c) \<Rightarrow> Some (out\<lparr>out_certs := out_certs out @ [con c]\<rparr>) | _ \<Rightarrow> None)"

definition own_has_notar :: "SlotState \<Rightarrow> bool" where
  "own_has_notar ss = (case vv_of ss (own_id ss mod 2 ^ 16) of Some v \<Rightarrow> vv_notar v \<noteq> None | None \<Rightarrow> False)"

definition check_safe_to_skip :: "SlotState \<Rightarrow> EpochInfo \<Rightarrow> SlotStateOutputs \<Rightarrow> SlotState \<times> SlotStateOutputs" where
  "check_safe_to_skip ss ei out =
     (if \<not> sent_safe_to_skip ss \<and> ei_is_weak_quorum ei (sub64 (notar_or_skip_stake ss) (top_notar_stake ss)) \<and> own_has_notar ss
      then (ss\<lparr>sent_safe_to_skip := True\<rparr>, out\<lparr>out_events := out_events out @ [SafeToSkip (ss_slot ss)]\<rparr>)
      else (ss, out))"

definition push_nf_cert :: "SlotState \<Rightarrow> BlockHash \<Rightarrow> stake \<Rightarrow> EpochInfo \<Rightarrow> SlotStateOutputs \<Rightarrow> SlotStateOutputs option" where
  "push_nf_cert ss h st ei out =
     (if ei_is_quorum ei st \<and> \<not> is_notar_fallback ss h
      then push_cert CNotarFallback (notar_fallback_cert_try_new (collect_notar ss h) (collect_nf ss h) (validators ei)) out
      else Some out)"

definition count_notar_stake ::
  "SlotState \<Rightarrow> BlockHash \<Rightarrow> stake \<Rightarrow> EpochInfo \<Rightarrow> SlotStateOutputs \<Rightarrow> (SlotState \<times> SlotStateOutputs) option" where
  "count_notar_stake ss h st ei out =
     (let ns = add64 (hm_get_or (notar_stake ss) 0 h) st;
          ss = ss\<lparr>notar_stake := hm_insert h ns (notar_stake ss),
                  notar_or_skip_stake := add64 (notar_or_skip_stake ss) st,
                  top_notar_stake := max (top_notar_stake ss) ns\<rparr>;
          (ss, out) =
            (if h \<notin> set (sent_s2n ss)
             then let (ss', r) = check_safe_to_notar ss h ei in (ss', s2n_output r (block_id (ss_slot ss') h) out)
             else (ss, out));
          (ss, out) = check_safe_to_skip ss ei out
      in do {
        out \<leftarrow> push_nf_cert ss h (add64 (nf_stake_of ss h) ns) ei out;
        out \<leftarrow> (if ei_is_quorum ei ns \<and> sc_notar (ss_certs ss) = None
               then push_cert CNotar (notar_cert_try_new (collect_notar ss h) (validators ei)) out
               else Some out);
        out \<leftarrow> (if ei_is_strong_quorum ei ns \<and> sc_fast_finalize (ss_certs ss) = None
               then push_cert CFastFinal (fast_final_cert_try_new (collect_notar ss h) (validators ei)) out
               else Some out);
        Some (ss, out)
      })"

definition count_notar_fallback_stake ::
  "SlotState \<Rightarrow> BlockHash \<Rightarrow> stake \<Rightarrow> EpochInfo \<Rightarrow> SlotStateOutputs \<Rightarrow> (SlotState \<times> SlotStateOutputs) option" where
  "count_notar_fallback_stake ss h st ei out =
     (let nf = add64 (hm_get_or (nf_stake ss) 0 h) st;
          ss = ss\<lparr>nf_stake := hm_insert h nf (nf_stake ss)\<rparr>
      in do {
        out \<leftarrow> push_nf_cert ss h (add64 nf (notar_stake_of ss h)) ei out;
        Some (ss, out)
      })"

definition count_skip_stake ::
  "SlotState \<Rightarrow> stake \<Rightarrow> bool \<Rightarrow> EpochInfo \<Rightarrow> SlotStateOutputs \<Rightarrow> (SlotState \<times> SlotStateOutputs) option" where
  "count_skip_stake ss st fallback ei out =
     (let ss = (if fallback then ss\<lparr>skip_fallback_stake := add64 (skip_fallback_stake ss) st\<rparr>
                else ss\<lparr>skip_stake := add64 (skip_stake ss) st\<rparr>);
          (ss, out) = process_pending_safe_to_notar ss ei out;
          total_skip = add64 (skip_stake ss) (skip_fallback_stake ss)
      in do {
        out \<leftarrow> (if ei_is_quorum ei total_skip \<and> sc_skip (ss_certs ss) = None
               then push_cert CSkip (skip_cert_try_new (collect_skip ss) (collect_skip_fallback ss) (validators ei)) out
               else Some out);
        Some (check_safe_to_skip ss ei out)
      })"

definition count_finalize_stake ::
  "SlotState \<Rightarrow> stake \<Rightarrow> EpochInfo \<Rightarrow> SlotStateOutputs \<Rightarrow> (SlotState \<times> SlotStateOutputs) option" where
  "count_finalize_stake ss st ei out =
     (let ss = ss\<lparr>finalize_stake := add64 (finalize_stake ss) st\<rparr>
      in do {
        out \<leftarrow> (if ei_is_quorum ei (finalize_stake ss) \<and> sc_finalize (ss_certs ss) = None
               then push_cert CFinal (final_cert_try_new (collect_final ss) (validators ei)) out
               else Some out);
        Some (ss, out)
      })"

fun ss_add_cert :: "SlotState \<Rightarrow> Cert \<Rightarrow> SlotState" where
  "ss_add_cert ss (CNotar c) = ss\<lparr>ss_certs := (ss_certs ss)\<lparr>sc_notar := Some c\<rparr>\<rparr>"
| "ss_add_cert ss (CNotarFallback c) =
     (if \<not> is_notar_fallback ss (nfc_block_hash c)
      then ss\<lparr>ss_certs := (ss_certs ss)\<lparr>sc_nf := sc_nf (ss_certs ss) @ [c]\<rparr>\<rparr> else ss)"
| "ss_add_cert ss (CSkip c) = ss\<lparr>ss_certs := (ss_certs ss)\<lparr>sc_skip := Some c\<rparr>\<rparr>"
| "ss_add_cert ss (CFastFinal c) = ss\<lparr>ss_certs := (ss_certs ss)\<lparr>sc_fast_finalize := Some c\<rparr>\<rparr>"
| "ss_add_cert ss (CFinal c) = ss\<lparr>ss_certs := (ss_certs ss)\<lparr>sc_finalize := Some c\<rparr>\<rparr>"

text \<open>\<open>votes.entry(voter).or_default()\<close> followed by an assignment to a field.\<close>

definition store_vote :: "(ValidatorVotes \<Rightarrow> ValidatorVotes) \<Rightarrow> nat \<Rightarrow> SlotState \<Rightarrow> SlotState" where
  "store_vote f v ss = ss\<lparr>ss_votes := hm_insert v (f (hm_get_or (ss_votes ss) vv_default v)) (ss_votes ss)\<rparr>"

definition ss_add_vote ::
  "SlotState \<Rightarrow> Vote \<Rightarrow> stake \<Rightarrow> EpochInfo \<Rightarrow> SlotStateOutputs \<Rightarrow> (SlotState \<times> SlotStateOutputs) option" where
  "ss_add_vote ss vote voter_stake ei out =
     do {
       let voter = vote_signer vote;
       (ss, out) \<leftarrow>
         (case vote of
            VNotar n \<Rightarrow> do {
              (ss, out) \<leftarrow> count_notar_stake ss (nv_block_hash n) voter_stake ei out;
              Some (store_vote (\<lambda>vv. vv\<lparr>vv_notar := Some n\<rparr>) voter ss, out)
            }
          | VNotarFallback n \<Rightarrow> do {
              (ss, out) \<leftarrow> count_notar_fallback_stake ss (nfv_block_hash n) voter_stake ei out;
              Some (ss\<lparr>nf_votes := hm_insert (voter, nfv_block_hash n) n (nf_votes ss)\<rparr>, out)
            }
          | VSkip s \<Rightarrow>
              count_skip_stake
                ((store_vote (\<lambda>vv. vv\<lparr>vv_skip := Some s\<rparr>) voter ss)
                   \<lparr>notar_or_skip_stake := add64 (notar_or_skip_stake ss) voter_stake\<rparr>)
                voter_stake False ei out
          | VSkipFallback s \<Rightarrow>
              count_skip_stake (store_vote (\<lambda>vv. vv\<lparr>vv_skip_fallback := Some s\<rparr>) voter ss) voter_stake True ei out
          | VFinal f \<Rightarrow>
              count_finalize_stake (store_vote (\<lambda>vv. vv\<lparr>vv_finalize := Some f\<rparr>) voter ss) voter_stake ei out);
       Some (if voter = own_id ss then process_pending_safe_to_notar ss ei out else (ss, out))
     }"

definition notify_parent_known :: "SlotState \<Rightarrow> BlockHash \<Rightarrow> SlotState" where
  "notify_parent_known ss h =
     (if hm_get (parents ss) h = None then ss\<lparr>parents := hm_insert h Known (parents ss)\<rparr> else ss)"

definition notify_parent_certified :: "SlotState \<Rightarrow> BlockHash \<Rightarrow> EpochInfo \<Rightarrow> (SlotState \<times> NotifyParent) option" where
  "notify_parent_certified ss h ei =
     (if hm_get (parents ss) h = None then None
      else let ss = ss\<lparr>parents := hm_insert h Certified (parents ss)\<rparr>
           in if h \<in> set (sent_s2n ss) then Some (ss, NotifyNone)
              else let (ss, r) = check_safe_to_notar ss h ei
                   in Some (ss, case r of
                        S2nSafeToNotar \<Rightarrow> NotifyEvent (SafeToNotar (block_id (ss_slot ss) h))
                      | S2nMissingBlock \<Rightarrow> NotifyRepair (block_id (ss_slot ss) h)
                      | S2nAwaiting \<Rightarrow> NotifyNone))"

definition vv_has :: "SlotState \<Rightarrow> nat \<Rightarrow> (ValidatorVotes \<Rightarrow> bool) \<Rightarrow> bool" where
  "vv_has ss v P = (case vv_of ss v of None \<Rightarrow> False | Some vv \<Rightarrow> P vv)"

definition check_slashable_offence :: "SlotState \<Rightarrow> Vote \<Rightarrow> Slashable option" where
  "check_slashable_offence ss vote =
     (let voter = vote_signer vote;
          mk = (\<lambda>o'. Some \<lparr>offence = o', sl_validator = voter, sl_slot = vote_slot vote\<rparr>)
      in case vote of
           VNotar n \<Rightarrow>
             if vv_has ss voter (\<lambda>v. vv_skip v \<noteq> None) then mk SkipAndNotarize
             else (case Option.bind (vv_of ss voter) vv_notar of
                     Some existing \<Rightarrow> if nv_block_hash existing \<noteq> nv_block_hash n then mk NotarDifferentHash else None
                   | None \<Rightarrow> None)
         | VNotarFallback _ \<Rightarrow>
             if vv_has ss voter (\<lambda>v. vv_finalize v \<noteq> None) then mk NotarFallbackAndFinalize else None
         | VSkip _ \<Rightarrow>
             if vv_has ss voter (\<lambda>v. vv_finalize v \<noteq> None) then mk SkipAndFinalize
             else if vv_has ss voter (\<lambda>v. vv_notar v \<noteq> None) then mk SkipAndNotarize
             else None
         | VSkipFallback _ \<Rightarrow>
             if vv_has ss voter (\<lambda>v. vv_finalize v \<noteq> None) then mk SkipAndFinalize else None
         | VFinal _ \<Rightarrow>
             if vv_has ss voter (\<lambda>v. vv_skip v \<noteq> None \<or> vv_skip_fallback v \<noteq> None) then mk SkipAndFinalize
             else if list_ex (\<lambda>((val, _), _). val = voter) (nf_votes ss) then mk NotarFallbackAndFinalize
             else None)"

fun should_ignore_vote :: "SlotState \<Rightarrow> Vote \<Rightarrow> bool" where
  "should_ignore_vote ss (VNotar n) = vv_has ss (nv_signer n) (\<lambda>v. vv_notar v \<noteq> None)"
| "should_ignore_vote ss (VNotarFallback n) = (hm_get (nf_votes ss) (nfv_signer n, nfv_block_hash n) \<noteq> None)"
| "should_ignore_vote ss (VSkip s) = vv_has ss (sv_signer s) (\<lambda>v. vv_skip v \<noteq> None \<or> vv_skip_fallback v \<noteq> None)"
| "should_ignore_vote ss (VSkipFallback s) = vv_has ss (sfv_signer s) (\<lambda>v. vv_skip v \<noteq> None \<or> vv_skip_fallback v \<noteq> None)"
| "should_ignore_vote ss (VFinal f) = vv_has ss (fv_signer f) (\<lambda>v. vv_finalize v \<noteq> None)"

definition has_notar_vote :: "SlotState \<Rightarrow> nat \<Rightarrow> bool" where
  "has_notar_vote ss v = vv_has ss v (\<lambda>x. vv_notar x \<noteq> None)"

definition has_notar_cert :: "SlotState \<Rightarrow> bool" where
  "has_notar_cert ss = (sc_notar (ss_certs ss) \<noteq> None)"

definition has_skip_cert :: "SlotState \<Rightarrow> bool" where
  "has_skip_cert ss = (sc_skip (ss_certs ss) \<noteq> None)"

definition has_fast_finalize_cert :: "SlotState \<Rightarrow> bool" where
  "has_fast_finalize_cert ss = (sc_fast_finalize (ss_certs ss) \<noteq> None)"

definition has_finalize_cert :: "SlotState \<Rightarrow> bool" where
  "has_finalize_cert ss = (sc_finalize (ss_certs ss) \<noteq> None)"

subsection \<open>Stake totals as sums over the votes\<close>

declare map_of_eq_Some_iff [simp del] split_paired_All [simp del]

definition vote_sum :: "EpochInfo \<Rightarrow> (ValidatorVotes \<Rightarrow> bool) \<Rightarrow> SlotState \<Rightarrow> stake" where
  "vote_sum ei P ss = sum_list (map (\<lambda>(v, vv). if P vv then stake_at ei v else 0) (ss_votes ss))"

definition nf_sum :: "EpochInfo \<Rightarrow> BlockHash \<Rightarrow> SlotState \<Rightarrow> stake" where
  "nf_sum ei h ss = sum_list (map (\<lambda>((v, h'), _). if h' = h then stake_at ei v else 0) (nf_votes ss))"

definition notar_for :: "BlockHash \<Rightarrow> ValidatorVotes \<Rightarrow> bool" where
  "notar_for h vv = (case vv_notar vv of None \<Rightarrow> False | Some n \<Rightarrow> nv_block_hash n = h)"

text \<open>What is stored for one validator: its own votes for this slot, and no conflicting pair.\<close>

definition vv_ok :: "EpochInfo \<Rightarrow> slot \<Rightarrow> nat \<Rightarrow> ValidatorVotes \<Rightarrow> bool" where
  "vv_ok ei s v vv \<longleftrightarrow> v < length (validators ei) \<and>
     (\<forall>n. vv_notar vv = Some n \<longrightarrow> nv_slot n = s \<and> nv_signer n = v \<and> length (nv_sig n) = SIG_SZ) \<and>
     (\<forall>n. vv_skip vv = Some n \<longrightarrow> sv_slot n = s \<and> sv_signer n = v \<and> length (sv_sig n) = SIG_SZ) \<and>
     (\<forall>n. vv_skip_fallback vv = Some n \<longrightarrow> sfv_slot n = s \<and> sfv_signer n = v \<and> length (sfv_sig n) = SIG_SZ) \<and>
     (\<forall>n. vv_finalize vv = Some n \<longrightarrow> fv_slot n = s \<and> fv_signer n = v \<and> length (fv_sig n) = SIG_SZ) \<and>
     (vv_skip vv = None \<or> vv_notar vv = None) \<and> (vv_skip vv = None \<or> vv_skip_fallback vv = None) \<and>
     (vv_finalize vv = None \<or> vv_skip vv = None \<and> vv_skip_fallback vv = None)"

definition nf_ok :: "EpochInfo \<Rightarrow> slot \<Rightarrow> nat \<times> BlockHash \<Rightarrow> NotarFallbackVote \<Rightarrow> bool" where
  "nf_ok ei s k n \<longleftrightarrow> fst k < length (validators ei) \<and> nfv_slot n = s \<and> nfv_signer n = fst k \<and>
     nfv_block_hash n = snd k \<and> length (nfv_sig n) = SIG_SZ"

definition slot_inv :: "EpochInfo \<Rightarrow> SlotState \<Rightarrow> bool" where
  "slot_inv ei ss \<longleftrightarrow>
     hm_wf (ss_votes ss) \<and> hm_wf (nf_votes ss) \<and>
     (\<forall>v vv. hm_get (ss_votes ss) v = Some vv \<longrightarrow> vv_ok ei (ss_slot ss) v vv) \<and>
     (\<forall>k n. hm_get (nf_votes ss) k = Some n \<longrightarrow>
        nf_ok ei (ss_slot ss) k n \<and> \<not> vv_has ss (fst k) (\<lambda>vv. vv_finalize vv \<noteq> None)) \<and>
     (\<forall>h. notar_stake_of ss h = vote_sum ei (notar_for h) ss) \<and>
     (\<forall>h. nf_stake_of ss h = nf_sum ei h ss) \<and>
     skip_stake ss = vote_sum ei (\<lambda>vv. vv_skip vv \<noteq> None) ss \<and>
     skip_fallback_stake ss = vote_sum ei (\<lambda>vv. vv_skip_fallback vv \<noteq> None) ss \<and>
     finalize_stake ss = vote_sum ei (\<lambda>vv. vv_finalize vv \<noteq> None) ss \<and>
     notar_or_skip_stake ss = vote_sum ei (\<lambda>vv. vv_notar vv \<noteq> None \<or> vv_skip vv \<noteq> None) ss \<and>
     (\<forall>h. notar_stake_of ss h \<le> top_notar_stake ss) \<and>
     (top_notar_stake ss = 0 \<or> (\<exists>h. top_notar_stake ss = notar_stake_of ss h))"

text \<open>The safe-to-notar and safe-to-skip bookkeeping touches three fields only.\<close>

definition same_core :: "SlotState \<Rightarrow> SlotState \<Rightarrow> bool" where
  "same_core ss ss' \<longleftrightarrow>
     ss_slot ss' = ss_slot ss \<and> own_id ss' = own_id ss \<and> ss_votes ss' = ss_votes ss \<and>
     nf_votes ss' = nf_votes ss \<and> notar_stake ss' = notar_stake ss \<and> nf_stake ss' = nf_stake ss \<and>
     skip_stake ss' = skip_stake ss \<and> skip_fallback_stake ss' = skip_fallback_stake ss \<and> finalize_stake ss' = finalize_stake ss \<and>
     notar_or_skip_stake ss' = notar_or_skip_stake ss \<and> top_notar_stake ss' = top_notar_stake ss \<and> parents ss' = parents ss \<and>
     ss_certs ss' = ss_certs ss"

lemma same_core_refl [simp]: "same_core ss ss"
  by (simp add: same_core_def)

lemma same_core_trans: "same_core a b \<Longrightarrow> same_core b c \<Longrightarrow> same_core a c"
  by (simp add: same_core_def)

lemma slot_inv_core:
  assumes "same_core ss ss'"
  shows "slot_inv ei ss' \<longleftrightarrow> slot_inv ei ss"
  by (simp add: slot_inv_def vote_sum_def nf_sum_def notar_stake_of_def nf_stake_of_def vv_has_def vv_of_def
      assms [unfolded same_core_def])

lemma check_safe_to_notar_core: "same_core ss (fst (check_safe_to_notar ss h ei))"
  by (simp add: same_core_def check_safe_to_notar_def Let_def split: option.splits ParentStatus.splits prod.splits)

lemma s2n_output_certs [simp]: "out_certs (s2n_output r b out) = out_certs out"
  by (simp add: s2n_output_def split: S2n.splits)

lemma pending_loop_core:
  "same_core ss (fst (pending_loop hs ei (ss, out))) \<and> out_certs (snd (pending_loop hs ei (ss, out))) = out_certs out"
proof (induction hs arbitrary: ss out)
  case (Cons h hs)
  obtain ss1 r where c: "check_safe_to_notar ss h ei = (ss1, r)" by fastforce
  then have "same_core ss ss1" using check_safe_to_notar_core [of ss h ei] by simp
  with Cons [of ss1 "s2n_output r (block_id (ss_slot ss1) h) out"] Cons [of ss out] c show ?case
    by (auto intro: same_core_trans)
qed simp

lemma process_pending_core:
  "same_core ss (fst (process_pending_safe_to_notar ss ei out))"
  "out_certs (snd (process_pending_safe_to_notar ss ei out)) = out_certs out"
  using pending_loop_core by (simp_all add: process_pending_safe_to_notar_def)

lemma check_safe_to_skip_core:
  "same_core ss (fst (check_safe_to_skip ss ei out))" "out_certs (snd (check_safe_to_skip ss ei out)) = out_certs out"
  by (simp_all add: check_safe_to_skip_def same_core_def)

subsection \<open>Sums under updates\<close>

lemma store_vote_simps [simp]:
  "ss_slot (store_vote f v ss) = ss_slot ss" "own_id (store_vote f v ss) = own_id ss"
  "nf_votes (store_vote f v ss) = nf_votes ss" "notar_stake (store_vote f v ss) = notar_stake ss"
  "nf_stake (store_vote f v ss) = nf_stake ss" "skip_stake (store_vote f v ss) = skip_stake ss"
  "skip_fallback_stake (store_vote f v ss) = skip_fallback_stake ss" "finalize_stake (store_vote f v ss) = finalize_stake ss"
  "notar_or_skip_stake (store_vote f v ss) = notar_or_skip_stake ss" "top_notar_stake (store_vote f v ss) = top_notar_stake ss"
  "parents (store_vote f v ss) = parents ss" "ss_certs (store_vote f v ss) = ss_certs ss"
  "ss_votes (store_vote f v ss) = hm_insert v (f (hm_get_or (ss_votes ss) vv_default v)) (ss_votes ss)"
  by (simp_all add: store_vote_def)

lemma vote_sum_store:
  fixes v :: nat
  assumes "hm_wf (ss_votes ss)" "\<not> P vv_default"
  defines "vv \<equiv> hm_get_or (ss_votes ss) vv_default v"
  shows "vote_sum ei P (store_vote f v ss) + (if P vv then stake_at ei v else 0) =
         vote_sum ei P ss + (if P (f vv) then stake_at ei v else 0)"
  using sum_list_hm_insert [OF assms(1), of "\<lambda>(v, vv). if P vv then stake_at ei v else 0" v "f vv"] assms(2)
  by (cases "hm_get (ss_votes ss) v") (simp_all add: vote_sum_def vv_def hm_get_or_def split: if_splits)

lemma vote_sum_cong: "ss_votes ss' = ss_votes ss \<Longrightarrow> vote_sum ei P ss' = vote_sum ei P ss"
  by (simp add: vote_sum_def)

lemma vote_sum_keys:
  "vote_sum ei P ss = sum_list (map (stake_at ei) (map fst (filter (\<lambda>(v, vv). P vv) (ss_votes ss))))"
proof -
  have "sum_list (map (\<lambda>(v, vv). if P vv then stake_at ei v else 0) m) =
        sum_list (map (stake_at ei) (map fst (filter (\<lambda>(v, vv). P vv) m)))" for m :: "(nat, ValidatorVotes) hmap"
    by (induction m) auto
  then show ?thesis by (simp add: vote_sum_def)
qed

lemma vote_sum_disjoint:
  assumes "\<And>v vv. (v, vv) \<in> set (ss_votes ss) \<Longrightarrow> \<not> (P vv \<and> Q vv)"
  shows "vote_sum ei P ss + vote_sum ei Q ss = vote_sum ei (\<lambda>vv. P vv \<or> Q vv) ss"
  unfolding vote_sum_def sum_list_addf [symmetric]
  by (rule arg_cong [where f = sum_list], rule map_cong [OF refl]) (use assms in auto)

lemma voters_bound:
  fixes P :: "ValidatorVotes \<Rightarrow> bool"
  assumes "ei_wf ei" "hm_wf (ss_votes ss)" "\<And>v vv. hm_get (ss_votes ss) v = Some vv \<Longrightarrow> v < length (validators ei)"
  defines "ks \<equiv> map fst (filter (\<lambda>(v, vv). P vv) (ss_votes ss))"
  shows "distinct ks" "\<forall>k \<in> set ks. k < length (validators ei)" "vote_sum ei P ss \<le> ei_stakes ei"
    "k \<in> set ks \<longleftrightarrow> vv_has ss k P"
proof -
  show d: "distinct ks" unfolding ks_def using assms(2) by (rule distinct_map_filter)
  have mem: "(v, vv) \<in> set (ss_votes ss) \<longleftrightarrow> hm_get (ss_votes ss) v = Some vv" for v vv
    by (rule hm_mem_get [OF assms(2)])
  show lt: "\<forall>k \<in> set ks. k < length (validators ei)" using assms(3) by (auto simp: ks_def mem)
  show "vote_sum ei P ss \<le> ei_stakes ei"
    unfolding vote_sum_keys using stake_sum_le [OF assms(1) d lt] by (simp add: ks_def)
  show "k \<in> set ks \<longleftrightarrow> vv_has ss k P"
    by (auto simp: ks_def mem vv_has_def vv_of_def image_iff split: option.splits)
qed

lemma nf_sum_insert:
  assumes "hm_wf (nf_votes ss)" "hm_get (nf_votes ss) (v, h) = None"
  shows "nf_sum ei h' (ss\<lparr>nf_votes := hm_insert (v, h) n (nf_votes ss)\<rparr>) =
         nf_sum ei h' ss + (if h' = h then stake_at ei v else 0)"
  using sum_list_hm_insert [OF assms(1), of "\<lambda>((v, g), _). if g = h' then stake_at ei v else 0" "(v, h)" n] assms(2)
  by (simp add: nf_sum_def)

lemma nf_sum_keys:
  "nf_sum ei h ss = sum_list (map (stake_at ei) (map (\<lambda>((v, _), _). v) (filter (\<lambda>((_, h'), _). h' = h) (nf_votes ss))))"
proof -
  have "sum_list (map (\<lambda>((v, h'), _). if h' = h then stake_at ei v else 0) m) =
        sum_list (map (stake_at ei) (map (\<lambda>((v, _), _). v) (filter (\<lambda>((_, h'), _). h' = h) m)))"
    for m :: "(nat \<times> BlockHash, NotarFallbackVote) hmap"
    by (induction m) auto
  then show ?thesis by (simp add: nf_sum_def)
qed

lemma nf_voters_bound:
  fixes h :: BlockHash
  assumes "ei_wf ei" "hm_wf (nf_votes ss)" "\<And>k n. hm_get (nf_votes ss) k = Some n \<Longrightarrow> fst k < length (validators ei)"
  defines "ks \<equiv> map (\<lambda>((v, _), _). v) (filter (\<lambda>((_, h'), _). h' = h) (nf_votes ss))"
  shows "distinct ks" "\<forall>k \<in> set ks. k < length (validators ei)" "nf_sum ei h ss \<le> ei_stakes ei"
proof -
  have "distinct (map (\<lambda>((v, _), _). v) (filter (\<lambda>((_, h'), _). h' = h) m))" if "hm_wf m"
    for m :: "(nat \<times> BlockHash, NotarFallbackVote) hmap"
    using that by (induction m) (auto simp: image_iff)
  with assms(2) show d: "distinct ks" by (simp add: ks_def)
  show lt: "\<forall>k \<in> set ks. k < length (validators ei)"
    using assms(3) by (auto simp: ks_def hm_mem_get [OF assms(2)])
  show "nf_sum ei h ss \<le> ei_stakes ei"
    unfolding nf_sum_keys using stake_sum_le [OF assms(1) d lt] by (simp add: ks_def)
qed

lemma vv_has_store:
  "vv_has (store_vote f v ss) w P = (if w = v then P (f (hm_get_or (ss_votes ss) vv_default v)) else vv_has ss w P)"
  by (simp add: vv_has_def vv_of_def hm_simps)

lemma not_has_default:
  "\<not> P vv_default \<Longrightarrow> vv_has ss v P = P (hm_get_or (ss_votes ss) vv_default v)"
  by (simp add: vv_has_def vv_of_def hm_get_or_def split: option.splits)

lemma slot_inv_vv:
  assumes "slot_inv ei ss" "v < length (validators ei)"
  shows "vv_ok ei (ss_slot ss) v (hm_get_or (ss_votes ss) vv_default v)"
  using assms by (auto simp: slot_inv_def hm_get_or_def vv_ok_def vv_default_def split: option.splits)

lemma slot_inv_keys:
  assumes "slot_inv ei ss"
  shows "hm_wf (ss_votes ss)" "hm_wf (nf_votes ss)"
    "\<And>v vv. hm_get (ss_votes ss) v = Some vv \<Longrightarrow> v < length (validators ei)"
    "\<And>k n. hm_get (nf_votes ss) k = Some n \<Longrightarrow> fst k < length (validators ei)"
  using assms by (auto simp: slot_inv_def vv_ok_def nf_ok_def)

subsection \<open>Preservation of the invariant\<close>

definition ei_fits :: "EpochInfo \<Rightarrow> bool" where
  "ei_fits ei \<longleftrightarrow> ei_wf ei \<and> 2 * ei_stakes ei \<le> u64_max \<and> length (validators ei) \<le> MAX_SIGNERS"

lemma store_sum_added:
  assumes "ei_fits ei" "slot_inv ei ss" "v < length (validators ei)"
    and "\<not> P vv_default" "\<not> vv_has ss v P" "P (f (hm_get_or (ss_votes ss) vv_default v))"
  shows "vote_sum ei P (store_vote f v ss) = vote_sum ei P ss + stake_at ei v"
    and "add64 (vote_sum ei P ss) (stake_at ei v) = vote_sum ei P ss + stake_at ei v"
proof -
  note keys = slot_inv_keys [OF assms(2)]
  show eq: "vote_sum ei P (store_vote f v ss) = vote_sum ei P ss + stake_at ei v"
    using vote_sum_store [where P = P, OF keys(1) assms(4), of ei f v] assms(5,6) by (simp add: not_has_default assms(4))
  have "vote_sum ei P (store_vote f v ss) \<le> ei_stakes ei"
    by (rule voters_bound(3)) (use assms keys in \<open>auto simp: ei_fits_def hm_simps split: if_splits\<close>)
  then show "add64 (vote_sum ei P ss) (stake_at ei v) = vote_sum ei P ss + stake_at ei v"
    unfolding eq using assms(1) by (intro add64_exact) (simp add: ei_fits_def u64_max_def)
qed

lemma store_sum_same:
  assumes "hm_wf (ss_votes ss)" "\<not> P vv_default"
    and "P (f (hm_get_or (ss_votes ss) vv_default v)) = P (hm_get_or (ss_votes ss) vv_default v)"
  shows "vote_sum ei P (store_vote f v ss) = vote_sum ei P ss"
  using vote_sum_store [where P = P, OF assms(1,2), of ei f v] assms(3) by simp

lemma vote_sum_update [simp]:
  "vote_sum ei P (ss\<lparr>notar_stake := a\<rparr>) = vote_sum ei P ss" "vote_sum ei P (ss\<lparr>nf_stake := a\<rparr>) = vote_sum ei P ss"
  "vote_sum ei P (ss\<lparr>skip_stake := b\<rparr>) = vote_sum ei P ss" "vote_sum ei P (ss\<lparr>skip_fallback_stake := b\<rparr>) = vote_sum ei P ss"
  "vote_sum ei P (ss\<lparr>finalize_stake := b\<rparr>) = vote_sum ei P ss" "vote_sum ei P (ss\<lparr>notar_or_skip_stake := b\<rparr>) = vote_sum ei P ss"
  "vote_sum ei P (ss\<lparr>top_notar_stake := b\<rparr>) = vote_sum ei P ss" "vote_sum ei P (ss\<lparr>nf_votes := c\<rparr>) = vote_sum ei P ss"
  by (simp_all add: vote_sum_def)

lemma vv_has_update [simp]:
  "vv_has (ss\<lparr>notar_stake := a\<rparr>) v P = vv_has ss v P" "vv_has (ss\<lparr>nf_stake := a\<rparr>) v P = vv_has ss v P"
  "vv_has (ss\<lparr>skip_stake := b\<rparr>) v P = vv_has ss v P" "vv_has (ss\<lparr>skip_fallback_stake := b\<rparr>) v P = vv_has ss v P"
  "vv_has (ss\<lparr>finalize_stake := b\<rparr>) v P = vv_has ss v P" "vv_has (ss\<lparr>notar_or_skip_stake := b\<rparr>) v P = vv_has ss v P"
  "vv_has (ss\<lparr>top_notar_stake := b\<rparr>) v P = vv_has ss v P" "vv_has (ss\<lparr>nf_votes := c\<rparr>) v P = vv_has ss v P"
  by (simp_all add: vv_has_def vv_of_def)

lemma nf_sum_update [simp]:
  "nf_sum ei h (ss\<lparr>notar_stake := a\<rparr>) = nf_sum ei h ss" "nf_sum ei h (ss\<lparr>nf_stake := a\<rparr>) = nf_sum ei h ss"
  "nf_sum ei h (ss\<lparr>skip_stake := b\<rparr>) = nf_sum ei h ss" "nf_sum ei h (ss\<lparr>skip_fallback_stake := b\<rparr>) = nf_sum ei h ss"
  "nf_sum ei h (ss\<lparr>finalize_stake := b\<rparr>) = nf_sum ei h ss" "nf_sum ei h (ss\<lparr>notar_or_skip_stake := b\<rparr>) = nf_sum ei h ss"
  "nf_sum ei h (ss\<lparr>top_notar_stake := b\<rparr>) = nf_sum ei h ss" "nf_sum ei h (store_vote f v ss) = nf_sum ei h ss"
  by (simp_all add: nf_sum_def)

text \<open>The stored votes stay well formed when one field of one validator is set.\<close>

definition votes_ok :: "EpochInfo \<Rightarrow> SlotState \<Rightarrow> bool" where
  "votes_ok ei ss \<longleftrightarrow> hm_wf (ss_votes ss) \<and> hm_wf (nf_votes ss) \<and>
     (\<forall>v vv. hm_get (ss_votes ss) v = Some vv \<longrightarrow> vv_ok ei (ss_slot ss) v vv) \<and>
     (\<forall>k n. hm_get (nf_votes ss) k = Some n \<longrightarrow>
        nf_ok ei (ss_slot ss) k n \<and> \<not> vv_has ss (fst k) (\<lambda>vv. vv_finalize vv \<noteq> None))"

definition totals_ok :: "EpochInfo \<Rightarrow> SlotState \<Rightarrow> bool" where
  "totals_ok ei ss \<longleftrightarrow>
     (\<forall>h. notar_stake_of ss h = vote_sum ei (notar_for h) ss) \<and>
     (\<forall>h. nf_stake_of ss h = nf_sum ei h ss) \<and>
     skip_stake ss = vote_sum ei (\<lambda>vv. vv_skip vv \<noteq> None) ss \<and>
     skip_fallback_stake ss = vote_sum ei (\<lambda>vv. vv_skip_fallback vv \<noteq> None) ss \<and>
     finalize_stake ss = vote_sum ei (\<lambda>vv. vv_finalize vv \<noteq> None) ss \<and>
     notar_or_skip_stake ss = vote_sum ei (\<lambda>vv. vv_notar vv \<noteq> None \<or> vv_skip vv \<noteq> None) ss \<and>
     (\<forall>h. notar_stake_of ss h \<le> top_notar_stake ss) \<and>
     (top_notar_stake ss = 0 \<or> (\<exists>h. top_notar_stake ss = notar_stake_of ss h))"

lemma slot_inv_split: "slot_inv ei ss \<longleftrightarrow> votes_ok ei ss \<and> totals_ok ei ss"
  by (simp add: slot_inv_def votes_ok_def totals_ok_def)

lemma votes_ok_store:
  assumes "slot_inv ei ss"
    and "vv_ok ei (ss_slot ss) v (f (hm_get_or (ss_votes ss) vv_default v))"
    and "vv_finalize (f (hm_get_or (ss_votes ss) vv_default v)) \<noteq> None \<Longrightarrow>
           vv_finalize (hm_get_or (ss_votes ss) vv_default v) \<noteq> None \<or> (\<forall>h. hm_get (nf_votes ss) (v, h) = None)"
  shows "votes_ok ei (store_vote f v ss)"
proof -
  have v: "votes_ok ei ss" using assms(1) by (simp add: slot_inv_split)
  have d: "\<not> vv_finalize vv_default \<noteq> None" by (simp add: vv_default_def)
  have "\<not> vv_has (store_vote f v ss) (fst k) (\<lambda>vv. vv_finalize vv \<noteq> None)"
    if k: "hm_get (nf_votes ss) k = Some n" for k n
  proof (cases "fst k = v")
    case True
    have "\<not> vv_has ss v (\<lambda>vv. vv_finalize vv \<noteq> None)" using v k True unfolding votes_ok_def by blast
    then have "vv_finalize (hm_get_or (ss_votes ss) vv_default v) = None"
      using not_has_default [where P = "\<lambda>vv. vv_finalize vv \<noteq> None", OF d, of ss v] by simp
    moreover have "\<not> (\<forall>h. hm_get (nf_votes ss) (v, h) = None)" using k True by (cases k) auto
    ultimately have "vv_finalize (f (hm_get_or (ss_votes ss) vv_default v)) = None" using assms(3) by blast
    then show ?thesis using True by (simp add: vv_has_store)
  next
    case False
    then show ?thesis using v k by (auto simp: vv_has_store votes_ok_def)
  qed
  then show ?thesis using v assms(2) by (auto simp: votes_ok_def hm_simps)
qed

lemma votes_ok_update [simp]:
  "votes_ok ei (ss\<lparr>notar_stake := a\<rparr>) = votes_ok ei ss" "votes_ok ei (ss\<lparr>nf_stake := a\<rparr>) = votes_ok ei ss"
  "votes_ok ei (ss\<lparr>skip_stake := b\<rparr>) = votes_ok ei ss" "votes_ok ei (ss\<lparr>skip_fallback_stake := b\<rparr>) = votes_ok ei ss"
  "votes_ok ei (ss\<lparr>finalize_stake := b\<rparr>) = votes_ok ei ss" "votes_ok ei (ss\<lparr>notar_or_skip_stake := b\<rparr>) = votes_ok ei ss"
  "votes_ok ei (ss\<lparr>top_notar_stake := b\<rparr>) = votes_ok ei ss"
  by (simp_all add: votes_ok_def)

lemma store_vote_update:
  "store_vote f v (ss\<lparr>notar_stake := a\<rparr>) = (store_vote f v ss)\<lparr>notar_stake := a\<rparr>"
  "store_vote f v (ss\<lparr>notar_or_skip_stake := b\<rparr>) = (store_vote f v ss)\<lparr>notar_or_skip_stake := b\<rparr>"
  "store_vote f v (ss\<lparr>top_notar_stake := b\<rparr>) = (store_vote f v ss)\<lparr>top_notar_stake := b\<rparr>"
  by (simp_all add: store_vote_def)

lemma notar_stake_of_update [simp]:
  "notar_stake_of (ss\<lparr>notar_or_skip_stake := b\<rparr>) = notar_stake_of ss"
  "notar_stake_of (ss\<lparr>top_notar_stake := b\<rparr>) = notar_stake_of ss"
  "notar_stake_of (ss\<lparr>nf_stake := a\<rparr>) = notar_stake_of ss" "notar_stake_of (ss\<lparr>skip_stake := b\<rparr>) = notar_stake_of ss"
  "notar_stake_of (ss\<lparr>skip_fallback_stake := b\<rparr>) = notar_stake_of ss" "notar_stake_of (ss\<lparr>finalize_stake := b\<rparr>) = notar_stake_of ss"
  "notar_stake_of (ss\<lparr>nf_votes := c\<rparr>) = notar_stake_of ss" "notar_stake_of (store_vote f v ss) = notar_stake_of ss"
  "notar_stake_of (ss\<lparr>notar_stake := a\<rparr>) = hm_get_or a 0"
  by (simp_all add: notar_stake_of_def [abs_def] hm_simps)

lemma nf_stake_of_update [simp]:
  "nf_stake_of (ss\<lparr>notar_or_skip_stake := b\<rparr>) = nf_stake_of ss" "nf_stake_of (ss\<lparr>top_notar_stake := b\<rparr>) = nf_stake_of ss"
  "nf_stake_of (ss\<lparr>notar_stake := a\<rparr>) = nf_stake_of ss" "nf_stake_of (ss\<lparr>skip_stake := b\<rparr>) = nf_stake_of ss"
  "nf_stake_of (ss\<lparr>skip_fallback_stake := b\<rparr>) = nf_stake_of ss" "nf_stake_of (ss\<lparr>finalize_stake := b\<rparr>) = nf_stake_of ss"
  "nf_stake_of (ss\<lparr>nf_votes := c\<rparr>) = nf_stake_of ss" "nf_stake_of (store_vote f v ss) = nf_stake_of ss"
  "nf_stake_of (ss\<lparr>nf_stake := a\<rparr>) = hm_get_or a 0"
  by (simp_all add: nf_stake_of_def [abs_def] hm_simps)

lemma vv_default_simps [simp]:
  "vv_notar vv_default = None" "vv_skip vv_default = None" "vv_skip_fallback vv_default = None"
  "vv_finalize vv_default = None" "\<not> notar_for h vv_default"
  by (simp_all add: vv_default_def notar_for_def)

definition notar_stored :: "SlotState \<Rightarrow> NotarVote \<Rightarrow> stake \<Rightarrow> SlotState" where
  "notar_stored ss n st =
     (let ns = add64 (notar_stake_of ss (nv_block_hash n)) st in
      (store_vote (\<lambda>vv. vv\<lparr>vv_notar := Some n\<rparr>) (nv_signer n) ss)
        \<lparr>notar_stake := hm_insert (nv_block_hash n) ns (notar_stake ss),
         notar_or_skip_stake := add64 (notar_or_skip_stake ss) st,
         top_notar_stake := max (top_notar_stake ss) ns\<rparr>)"

lemma slot_inv_notar:
  assumes fits: "ei_fits ei" and inv: "slot_inv ei ss" and v: "nv_signer n < length (validators ei)"
    and n: "nv_slot n = ss_slot ss" "length (nv_sig n) = SIG_SZ"
    and new: "\<not> vv_has ss (nv_signer n) (\<lambda>vv. vv_notar vv \<noteq> None)" "\<not> vv_has ss (nv_signer n) (\<lambda>vv. vv_skip vv \<noteq> None)"
  shows "slot_inv ei (notar_stored ss n (stake_at ei (nv_signer n)))"
    and "add64 (notar_stake_of ss (nv_block_hash n)) (stake_at ei (nv_signer n)) =
         notar_stake_of ss (nv_block_hash n) + stake_at ei (nv_signer n)"
proof -
  define h where "h = nv_block_hash n"
  define v where "v = nv_signer n"
  define vv where "vv = hm_get_or (ss_votes ss) vv_default v"
  define f :: "ValidatorVotes \<Rightarrow> ValidatorVotes" where "f = (\<lambda>vv. vv\<lparr>vv_notar := Some n\<rparr>)"
  have ok: "vv_ok ei (ss_slot ss) v vv" unfolding vv_def using slot_inv_vv [OF inv v] by (simp add: v_def)
  have none: "vv_notar vv = None" "vv_skip vv = None"
    using new not_has_default [of "\<lambda>vv. vv_notar vv \<noteq> None" ss v] not_has_default [of "\<lambda>vv. vv_skip vv \<noteq> None" ss v]
    by (simp_all add: v_def vv_def)
  have wf: "hm_wf (ss_votes ss)" using slot_inv_keys [OF inv] by simp
  have tot: "totals_ok ei ss" and vok: "votes_ok ei ss" using inv by (simp_all add: slot_inv_split)
  have nh: "\<not> vv_has ss v (notar_for h)"
    using none not_has_default [of "notar_for h" ss v] by (simp add: vv_def notar_for_def)
  have nn: "\<not> vv_has ss v (\<lambda>vv. vv_notar vv \<noteq> None \<or> vv_skip vv \<noteq> None)"
    using none not_has_default [of "\<lambda>vv. vv_notar vv \<noteq> None \<or> vv_skip vv \<noteq> None" ss v] by (simp add: vv_def)
  note vlt = v [folded v_def]
  have s1: "vote_sum ei (notar_for h) (store_vote f v ss) = vote_sum ei (notar_for h) ss + stake_at ei v"
    "add64 (vote_sum ei (notar_for h) ss) (stake_at ei v) = vote_sum ei (notar_for h) ss + stake_at ei v"
    by (rule store_sum_added [where f = f, OF fits inv vlt _ nh], simp, simp add: f_def notar_for_def h_def)+
  have s2: "vote_sum ei (\<lambda>vv. vv_notar vv \<noteq> None \<or> vv_skip vv \<noteq> None) (store_vote f v ss) =
      vote_sum ei (\<lambda>vv. vv_notar vv \<noteq> None \<or> vv_skip vv \<noteq> None) ss + stake_at ei v"
    "add64 (vote_sum ei (\<lambda>vv. vv_notar vv \<noteq> None \<or> vv_skip vv \<noteq> None) ss) (stake_at ei v) =
      vote_sum ei (\<lambda>vv. vv_notar vv \<noteq> None \<or> vv_skip vv \<noteq> None) ss + stake_at ei v"
    by (rule store_sum_added [where f = f, OF fits inv vlt _ nn], simp, simp add: f_def)+
  have s3: "vote_sum ei (notar_for g) (store_vote f v ss) = vote_sum ei (notar_for g) ss" if "g \<noteq> h" for g
    by (rule store_sum_same [OF wf]) (use that none in \<open>auto simp: f_def notar_for_def h_def vv_def\<close>)
  have s4: "vote_sum ei (\<lambda>vv. vv_skip vv \<noteq> None) (store_vote f v ss) = vote_sum ei (\<lambda>vv. vv_skip vv \<noteq> None) ss"
    "vote_sum ei (\<lambda>vv. vv_skip_fallback vv \<noteq> None) (store_vote f v ss) = vote_sum ei (\<lambda>vv. vv_skip_fallback vv \<noteq> None) ss"
    "vote_sum ei (\<lambda>vv. vv_finalize vv \<noteq> None) (store_vote f v ss) = vote_sum ei (\<lambda>vv. vv_finalize vv \<noteq> None) ss"
    by (rule store_sum_same [OF wf]; simp add: f_def)+
  have ns: "add64 (notar_stake_of ss h) (stake_at ei v) = notar_stake_of ss h + stake_at ei v"
    using s1(2) tot by (simp add: totals_ok_def)
  then show "add64 (notar_stake_of ss (nv_block_hash n)) (stake_at ei (nv_signer n)) =
         notar_stake_of ss (nv_block_hash n) + stake_at ei (nv_signer n)" by (simp add: h_def v_def)
  have "vv_ok ei (ss_slot ss) v (f vv)" using ok none n by (auto simp: f_def vv_ok_def v_def)
  then have "votes_ok ei (store_vote f v ss)"
    by (intro votes_ok_store [OF inv]) (simp_all add: vv_def f_def)
  moreover define ss' where "ss' = (store_vote f v ss)\<lparr>notar_stake := hm_insert h (notar_stake_of ss h + stake_at ei v) (notar_stake ss),
         notar_or_skip_stake := add64 (notar_or_skip_stake ss) (stake_at ei v),
         top_notar_stake := max (top_notar_stake ss) (notar_stake_of ss h + stake_at ei v)\<rparr>"
  moreover have "totals_ok ei ss'"
  proof -
    have get: "notar_stake_of ss' g = (if g = h then notar_stake_of ss h + stake_at ei v else notar_stake_of ss g)" for g
      by (simp add: ss'_def hm_get_or_insert) (simp add: notar_stake_of_def)
    have fields: "top_notar_stake ss' = max (top_notar_stake ss) (notar_stake_of ss h + stake_at ei v)"
      "notar_or_skip_stake ss' = add64 (notar_or_skip_stake ss) (stake_at ei v)"
      "\<And>P. vote_sum ei P ss' = vote_sum ei P (store_vote f v ss)" "\<And>g. nf_sum ei g ss' = nf_sum ei g ss"
      "nf_stake_of ss' = nf_stake_of ss" "skip_stake ss' = skip_stake ss"
      "skip_fallback_stake ss' = skip_fallback_stake ss" "finalize_stake ss' = finalize_stake ss"
      by (simp_all add: ss'_def)
    have top: "notar_stake_of ss g \<le> top_notar_stake ss" for g using tot unfolding totals_ok_def by blast
    have "top_notar_stake ss' = 0 \<or> (\<exists>g. top_notar_stake ss' = notar_stake_of ss' g)"
    proof (cases "top_notar_stake ss \<le> notar_stake_of ss h + stake_at ei v")
      case True
      then have "top_notar_stake ss' = notar_stake_of ss' h" by (simp add: get fields)
      then show ?thesis by blast
    next
      case False
      then have "top_notar_stake ss \<noteq> 0" by simp
      then obtain g where g: "top_notar_stake ss = notar_stake_of ss g" using tot by (auto simp: totals_ok_def)
      with False have "g \<noteq> h" by auto
      with False g have "top_notar_stake ss' = notar_stake_of ss' g" by (simp add: get fields)
      then show ?thesis by blast
    qed
    moreover have "notar_stake_of ss' g \<le> top_notar_stake ss'" for g
      using top [of g] by (auto simp: get fields le_max_iff_disj)
    moreover have "notar_stake_of ss' g = vote_sum ei (notar_for g) ss'" for g
      using s1(1) s3 [of g] tot by (simp add: get fields totals_ok_def)
    moreover have "notar_or_skip_stake ss' = vote_sum ei (\<lambda>vv. vv_notar vv \<noteq> None \<or> vv_skip vv \<noteq> None) ss'"
      using s2 tot by (simp add: totals_ok_def fields)
    ultimately show ?thesis using s4 tot by (simp add: totals_ok_def fields)
  qed
  ultimately show "slot_inv ei (notar_stored ss n (stake_at ei (nv_signer n)))"
    by (simp add: slot_inv_split notar_stored_def Let_def ns h_def [symmetric] v_def [symmetric] f_def [symmetric])
qed

definition nf_stored :: "SlotState \<Rightarrow> NotarFallbackVote \<Rightarrow> stake \<Rightarrow> SlotState" where
  "nf_stored ss n st =
     ss\<lparr>nf_stake := hm_insert (nfv_block_hash n) (add64 (nf_stake_of ss (nfv_block_hash n)) st) (nf_stake ss),
        nf_votes := hm_insert (nfv_signer n, nfv_block_hash n) n (nf_votes ss)\<rparr>"

definition skip_stored :: "SlotState \<Rightarrow> SkipVote \<Rightarrow> stake \<Rightarrow> SlotState" where
  "skip_stored ss s st =
     (store_vote (\<lambda>vv. vv\<lparr>vv_skip := Some s\<rparr>) (sv_signer s) ss)
       \<lparr>notar_or_skip_stake := add64 (notar_or_skip_stake ss) st, skip_stake := add64 (skip_stake ss) st\<rparr>"

definition skip_fallback_stored :: "SlotState \<Rightarrow> SkipFallbackVote \<Rightarrow> stake \<Rightarrow> SlotState" where
  "skip_fallback_stored ss s st =
     (store_vote (\<lambda>vv. vv\<lparr>vv_skip_fallback := Some s\<rparr>) (sfv_signer s) ss)
       \<lparr>skip_fallback_stake := add64 (skip_fallback_stake ss) st\<rparr>"

definition final_stored :: "SlotState \<Rightarrow> FinalVote \<Rightarrow> stake \<Rightarrow> SlotState" where
  "final_stored ss f st =
     (store_vote (\<lambda>vv. vv\<lparr>vv_finalize := Some f\<rparr>) (fv_signer f) ss)
       \<lparr>finalize_stake := add64 (finalize_stake ss) st\<rparr>"

lemma has_none:
  "\<not> vv_has ss v (\<lambda>vv. g vv \<noteq> None) \<Longrightarrow> g vv_default = None \<Longrightarrow> g (hm_get_or (ss_votes ss) vv_default v) = None"
  using not_has_default [of "\<lambda>vv. g vv \<noteq> None" ss v] by simp

lemma top_bound: "totals_ok ei ss \<Longrightarrow> notar_stake_of ss g \<le> top_notar_stake ss"
  unfolding totals_ok_def by blast

lemma top_attained:
  "totals_ok ei ss \<Longrightarrow> top_notar_stake ss = 0 \<or> (\<exists>g. top_notar_stake ss = vote_sum ei (notar_for g) ss)"
  unfolding totals_ok_def by metis

lemma slot_inv_skip:
  assumes fits: "ei_fits ei" and inv: "slot_inv ei ss" and v: "sv_signer s < length (validators ei)"
    and s: "sv_slot s = ss_slot ss" "length (sv_sig s) = SIG_SZ"
    and new: "\<not> vv_has ss (sv_signer s) (\<lambda>vv. vv_notar vv \<noteq> None)" "\<not> vv_has ss (sv_signer s) (\<lambda>vv. vv_skip vv \<noteq> None)"
      "\<not> vv_has ss (sv_signer s) (\<lambda>vv. vv_skip_fallback vv \<noteq> None)" "\<not> vv_has ss (sv_signer s) (\<lambda>vv. vv_finalize vv \<noteq> None)"
  shows "slot_inv ei (skip_stored ss s (stake_at ei (sv_signer s)))"
proof -
  define v where "v = sv_signer s"
  define f :: "ValidatorVotes \<Rightarrow> ValidatorVotes" where "f = (\<lambda>vv. vv\<lparr>vv_skip := Some s\<rparr>)"
  let ?vv = "hm_get_or (ss_votes ss) vv_default v"
  have wf: "hm_wf (ss_votes ss)" and tot: "totals_ok ei ss"
    using slot_inv_keys [OF inv] inv by (simp_all add: slot_inv_split)
  have none: "vv_notar ?vv = None" "vv_skip ?vv = None" "vv_skip_fallback ?vv = None" "vv_finalize ?vv = None"
    using new [THEN has_none] by (simp_all add: v_def)
  have nn: "\<not> vv_has ss v (\<lambda>vv. vv_notar vv \<noteq> None \<or> vv_skip vv \<noteq> None)" "\<not> vv_has ss v (\<lambda>vv. vv_skip vv \<noteq> None)"
    using none not_has_default [of "\<lambda>vv. vv_notar vv \<noteq> None \<or> vv_skip vv \<noteq> None" ss v]
      not_has_default [of "\<lambda>vv. vv_skip vv \<noteq> None" ss v] by simp_all
  note vlt = v [folded v_def]
  have sk: "vote_sum ei (\<lambda>vv. vv_skip vv \<noteq> None) (store_vote f v ss) = vote_sum ei (\<lambda>vv. vv_skip vv \<noteq> None) ss + stake_at ei v"
    "add64 (vote_sum ei (\<lambda>vv. vv_skip vv \<noteq> None) ss) (stake_at ei v) = vote_sum ei (\<lambda>vv. vv_skip vv \<noteq> None) ss + stake_at ei v"
    by (rule store_sum_added [where f = f, OF fits inv vlt _ nn(2)], simp, simp add: f_def)+
  have nsk: "vote_sum ei (\<lambda>vv. vv_notar vv \<noteq> None \<or> vv_skip vv \<noteq> None) (store_vote f v ss) =
      vote_sum ei (\<lambda>vv. vv_notar vv \<noteq> None \<or> vv_skip vv \<noteq> None) ss + stake_at ei v"
    "add64 (vote_sum ei (\<lambda>vv. vv_notar vv \<noteq> None \<or> vv_skip vv \<noteq> None) ss) (stake_at ei v) =
      vote_sum ei (\<lambda>vv. vv_notar vv \<noteq> None \<or> vv_skip vv \<noteq> None) ss + stake_at ei v"
    by (rule store_sum_added [where f = f, OF fits inv vlt _ nn(1)], simp, simp add: f_def)+
  have same: "vote_sum ei (notar_for g) (store_vote f v ss) = vote_sum ei (notar_for g) ss"
    "vote_sum ei (\<lambda>vv. vv_skip_fallback vv \<noteq> None) (store_vote f v ss) = vote_sum ei (\<lambda>vv. vv_skip_fallback vv \<noteq> None) ss"
    "vote_sum ei (\<lambda>vv. vv_finalize vv \<noteq> None) (store_vote f v ss) = vote_sum ei (\<lambda>vv. vv_finalize vv \<noteq> None) ss" for g
    by (rule store_sum_same [OF wf]; simp add: f_def notar_for_def)+
  have "vv_ok ei (ss_slot ss) v (f ?vv)"
    using slot_inv_vv [OF inv vlt] none s by (auto simp: f_def vv_ok_def v_def)
  then have "votes_ok ei (store_vote f v ss)"
    by (intro votes_ok_store [OF inv]) (simp_all add: f_def none)
  moreover have "totals_ok ei ((store_vote f v ss)\<lparr>notar_or_skip_stake := add64 (notar_or_skip_stake ss) (stake_at ei v),
      skip_stake := add64 (skip_stake ss) (stake_at ei v)\<rparr>)"
    using tot sk nsk same top_bound [OF tot] top_attained [OF tot] by (simp add: totals_ok_def)
  ultimately show ?thesis by (simp add: slot_inv_split skip_stored_def v_def f_def)
qed

lemma slot_inv_skip_fallback:
  assumes fits: "ei_fits ei" and inv: "slot_inv ei ss" and v: "sfv_signer s < length (validators ei)"
    and s: "sfv_slot s = ss_slot ss" "length (sfv_sig s) = SIG_SZ"
    and new: "\<not> vv_has ss (sfv_signer s) (\<lambda>vv. vv_skip vv \<noteq> None)"
      "\<not> vv_has ss (sfv_signer s) (\<lambda>vv. vv_skip_fallback vv \<noteq> None)" "\<not> vv_has ss (sfv_signer s) (\<lambda>vv. vv_finalize vv \<noteq> None)"
  shows "slot_inv ei (skip_fallback_stored ss s (stake_at ei (sfv_signer s)))"
proof -
  define v where "v = sfv_signer s"
  define f :: "ValidatorVotes \<Rightarrow> ValidatorVotes" where "f = (\<lambda>vv. vv\<lparr>vv_skip_fallback := Some s\<rparr>)"
  let ?vv = "hm_get_or (ss_votes ss) vv_default v"
  have wf: "hm_wf (ss_votes ss)" and tot: "totals_ok ei ss"
    using slot_inv_keys [OF inv] inv by (simp_all add: slot_inv_split)
  have none: "vv_skip ?vv = None" "vv_skip_fallback ?vv = None" "vv_finalize ?vv = None"
    using new [THEN has_none] by (simp_all add: v_def)
  note vlt = v [folded v_def]
  have sk: "vote_sum ei (\<lambda>vv. vv_skip_fallback vv \<noteq> None) (store_vote f v ss) =
      vote_sum ei (\<lambda>vv. vv_skip_fallback vv \<noteq> None) ss + stake_at ei v"
    "add64 (vote_sum ei (\<lambda>vv. vv_skip_fallback vv \<noteq> None) ss) (stake_at ei v) =
      vote_sum ei (\<lambda>vv. vv_skip_fallback vv \<noteq> None) ss + stake_at ei v"
    by (rule store_sum_added [where f = f, OF fits inv vlt _ new(2) [folded v_def]], simp, simp add: f_def)+
  have same: "vote_sum ei (notar_for g) (store_vote f v ss) = vote_sum ei (notar_for g) ss"
    "vote_sum ei (\<lambda>vv. vv_skip vv \<noteq> None) (store_vote f v ss) = vote_sum ei (\<lambda>vv. vv_skip vv \<noteq> None) ss"
    "vote_sum ei (\<lambda>vv. vv_notar vv \<noteq> None \<or> vv_skip vv \<noteq> None) (store_vote f v ss) =
      vote_sum ei (\<lambda>vv. vv_notar vv \<noteq> None \<or> vv_skip vv \<noteq> None) ss"
    "vote_sum ei (\<lambda>vv. vv_finalize vv \<noteq> None) (store_vote f v ss) = vote_sum ei (\<lambda>vv. vv_finalize vv \<noteq> None) ss" for g
    by (rule store_sum_same [OF wf]; simp add: f_def notar_for_def)+
  have "vv_ok ei (ss_slot ss) v (f ?vv)"
    using slot_inv_vv [OF inv vlt] none s by (auto simp: f_def vv_ok_def v_def)
  then have "votes_ok ei (store_vote f v ss)"
    by (intro votes_ok_store [OF inv]) (simp_all add: f_def none)
  moreover have "totals_ok ei ((store_vote f v ss)\<lparr>skip_fallback_stake := add64 (skip_fallback_stake ss) (stake_at ei v)\<rparr>)"
    using tot sk same top_bound [OF tot] top_attained [OF tot] by (simp add: totals_ok_def)
  ultimately show ?thesis by (simp add: slot_inv_split skip_fallback_stored_def v_def f_def)
qed

lemma slot_inv_final:
  assumes fits: "ei_fits ei" and inv: "slot_inv ei ss" and v: "fv_signer s < length (validators ei)"
    and s: "fv_slot s = ss_slot ss" "length (fv_sig s) = SIG_SZ"
    and new: "\<not> vv_has ss (fv_signer s) (\<lambda>vv. vv_skip vv \<noteq> None)"
      "\<not> vv_has ss (fv_signer s) (\<lambda>vv. vv_skip_fallback vv \<noteq> None)" "\<not> vv_has ss (fv_signer s) (\<lambda>vv. vv_finalize vv \<noteq> None)"
      "\<forall>h. hm_get (nf_votes ss) (fv_signer s, h) = None"
  shows "slot_inv ei (final_stored ss s (stake_at ei (fv_signer s)))"
proof -
  define v where "v = fv_signer s"
  define f :: "ValidatorVotes \<Rightarrow> ValidatorVotes" where "f = (\<lambda>vv. vv\<lparr>vv_finalize := Some s\<rparr>)"
  let ?vv = "hm_get_or (ss_votes ss) vv_default v"
  have wf: "hm_wf (ss_votes ss)" and tot: "totals_ok ei ss"
    using slot_inv_keys [OF inv] inv by (simp_all add: slot_inv_split)
  have none: "vv_skip ?vv = None" "vv_skip_fallback ?vv = None" "vv_finalize ?vv = None"
    using new(1-3) [THEN has_none] by (simp_all add: v_def)
  note vlt = v [folded v_def]
  have sk: "vote_sum ei (\<lambda>vv. vv_finalize vv \<noteq> None) (store_vote f v ss) =
      vote_sum ei (\<lambda>vv. vv_finalize vv \<noteq> None) ss + stake_at ei v"
    "add64 (vote_sum ei (\<lambda>vv. vv_finalize vv \<noteq> None) ss) (stake_at ei v) =
      vote_sum ei (\<lambda>vv. vv_finalize vv \<noteq> None) ss + stake_at ei v"
    by (rule store_sum_added [where f = f, OF fits inv vlt _ new(3) [folded v_def]], simp, simp add: f_def)+
  have same: "vote_sum ei (notar_for g) (store_vote f v ss) = vote_sum ei (notar_for g) ss"
    "vote_sum ei (\<lambda>vv. vv_skip vv \<noteq> None) (store_vote f v ss) = vote_sum ei (\<lambda>vv. vv_skip vv \<noteq> None) ss"
    "vote_sum ei (\<lambda>vv. vv_notar vv \<noteq> None \<or> vv_skip vv \<noteq> None) (store_vote f v ss) =
      vote_sum ei (\<lambda>vv. vv_notar vv \<noteq> None \<or> vv_skip vv \<noteq> None) ss"
    "vote_sum ei (\<lambda>vv. vv_skip_fallback vv \<noteq> None) (store_vote f v ss) = vote_sum ei (\<lambda>vv. vv_skip_fallback vv \<noteq> None) ss" for g
    by (rule store_sum_same [OF wf]; simp add: f_def notar_for_def)+
  have "vv_ok ei (ss_slot ss) v (f ?vv)"
    using slot_inv_vv [OF inv vlt] none s by (auto simp: f_def vv_ok_def v_def)
  then have "votes_ok ei (store_vote f v ss)"
    by (intro votes_ok_store [OF inv]) (simp_all add: new(4) [folded v_def])
  moreover have "totals_ok ei ((store_vote f v ss)\<lparr>finalize_stake := add64 (finalize_stake ss) (stake_at ei v)\<rparr>)"
    using tot sk same top_bound [OF tot] top_attained [OF tot] by (simp add: totals_ok_def)
  ultimately show ?thesis by (simp add: slot_inv_split final_stored_def v_def f_def)
qed

lemma slot_inv_nf:
  assumes fits: "ei_fits ei" and inv: "slot_inv ei ss" and v: "nfv_signer n < length (validators ei)"
    and n: "nfv_slot n = ss_slot ss" "length (nfv_sig n) = SIG_SZ"
    and new: "hm_get (nf_votes ss) (nfv_signer n, nfv_block_hash n) = None"
      "\<not> vv_has ss (nfv_signer n) (\<lambda>vv. vv_finalize vv \<noteq> None)"
  shows "slot_inv ei (nf_stored ss n (stake_at ei (nfv_signer n)))"
    and "add64 (nf_stake_of ss (nfv_block_hash n)) (stake_at ei (nfv_signer n)) =
         nf_stake_of ss (nfv_block_hash n) + stake_at ei (nfv_signer n)"
proof -
  let ?v = "nfv_signer n" and ?h = "nfv_block_hash n"
  let ?ss = "ss\<lparr>nf_votes := hm_insert (?v, ?h) n (nf_votes ss)\<rparr>"
  note keys = slot_inv_keys [OF inv]
  have tot: "totals_ok ei ss" and vok: "votes_ok ei ss" using inv by (simp_all add: slot_inv_split)
  note ins = nf_sum_insert [OF keys(2) new(1), of ei _ n]
  have "nf_sum ei ?h ?ss \<le> ei_stakes ei"
    by (rule nf_voters_bound(3)) (use fits keys v in \<open>auto simp: ei_fits_def hm_simps split: if_splits\<close>)
  then show ex: "add64 (nf_stake_of ss ?h) (stake_at ei ?v) = nf_stake_of ss ?h + stake_at ei ?v"
    using fits tot unfolding ins by (intro add64_exact) (simp add: ei_fits_def u64_max_def totals_ok_def)
  have "votes_ok ei ?ss"
    using vok v n new by (auto simp: votes_ok_def hm_simps nf_ok_def)
  then have "votes_ok ei (nf_stored ss n (stake_at ei ?v))"
    unfolding nf_stored_def by (simp add: votes_ok_def)
  moreover have "nf_stake_of (nf_stored ss n (stake_at ei ?v)) g = nf_sum ei g (nf_stored ss n (stake_at ei ?v))" for g
  proof -
    have "nf_sum ei g (nf_stored ss n (stake_at ei ?v)) = nf_sum ei g ?ss" by (simp add: nf_stored_def nf_sum_def)
    then show ?thesis using tot ex by (auto simp: nf_stored_def ins hm_get_or_insert totals_ok_def nf_stake_of_def)
  qed
  moreover from this have "totals_ok ei (nf_stored ss n (stake_at ei ?v))"
    using tot top_bound [OF tot] top_attained [OF tot] by (simp add: totals_ok_def) (simp add: nf_stored_def totals_ok_def)
  ultimately show "slot_inv ei (nf_stored ss n (stake_at ei ?v))" by (simp add: slot_inv_split)
qed

subsection \<open>Certificates built from the stored votes\<close>

lemma set_votes_by:
  assumes "hm_wf (ss_votes ss)"
  shows "n \<in> set (votes_by f ss) \<longleftrightarrow> (\<exists>v vv. hm_get (ss_votes ss) v = Some vv \<and> f vv = Some n)"
proof -
  have "n \<in> set (List.map_filter (\<lambda>(_, vv). f vv) m) \<longleftrightarrow> (\<exists>v vv. (v, vv) \<in> set m \<and> f vv = Some n)"
    for m :: "(nat, ValidatorVotes) hmap"
    by (induction m) (fastforce simp: List.map_filter_simps split: option.splits)+
  then show ?thesis by (simp add: votes_by_def hm_mem_get [OF assms])
qed

lemma distinct_map_filter_keys:
  assumes "hm_wf m" "\<And>v vv n. (v, vv) \<in> set m \<Longrightarrow> f vv = Some n \<Longrightarrow> sg n = v"
  shows "distinct (map sg (List.map_filter (\<lambda>(_, vv). f vv) m)) \<and>
         sg ` set (List.map_filter (\<lambda>(_, vv). f vv) m) \<subseteq> fst ` set m"
  using assms
proof (induction m)
  case (Cons p m)
  obtain v vv where p: "p = (v, vv)" by (cases p)
  have IH: "distinct (map sg (List.map_filter (\<lambda>(_, vv). f vv) m))"
    "sg ` set (List.map_filter (\<lambda>(_, vv). f vv) m) \<subseteq> fst ` set m"
    using Cons.IH Cons.prems by auto
  show ?case
  proof (cases "f vv")
    case None
    with IH show ?thesis by (auto simp: p List.map_filter_simps)
  next
    case (Some n)
    have "sg n = v" by (rule Cons.prems(2) [of v vv]) (simp_all add: p Some)
    moreover have "v \<notin> fst ` set m" using Cons.prems(1) by (simp add: p)
    ultimately show ?thesis using IH Some by (auto simp: p List.map_filter_simps)
  qed
qed (simp add: List.map_filter_simps)

lemma distinct_votes_by:
  assumes "hm_wf (ss_votes ss)" "\<And>v vv n. hm_get (ss_votes ss) v = Some vv \<Longrightarrow> f vv = Some n \<Longrightarrow> sg n = v"
  shows "distinct (map sg (votes_by f ss))"
proof -
  have sg: "sg n = v" if "(v, vv) \<in> set (ss_votes ss)" "f vv = Some n" for v vv n
    using assms(2) [OF _ that(2)] that(1) unfolding hm_mem_get [OF assms(1)] by blast
  show ?thesis
    unfolding votes_by_def by (rule conjunct1 [OF distinct_map_filter_keys [OF assms(1)]]) (erule (1) sg)
qed

lemma filter_True_all: "filter (\<lambda>_. True) xs = xs"
  by simp

lemma distinct_map_sort_key: "distinct (map sg (sort_key k xs)) \<longleftrightarrow> distinct (map sg xs)"
  by (simp add: distinct_map)

lemma slot_inv_vote:
  assumes "slot_inv ei ss" "hm_get (ss_votes ss) v = Some vv"
  shows "vv_ok ei (ss_slot ss) v vv"
  using assms by (simp add: slot_inv_def)

lemma has_iff: "vv_has ss v P \<longleftrightarrow> (\<exists>vv. hm_get (ss_votes ss) v = Some vv \<and> P vv)"
  by (auto simp: vv_has_def vv_of_def split: option.splits)

text \<open>The votes of one kind, as items for a certificate.\<close>

lemma votes_by_items:
  assumes fits: "ei_fits ei" and inv: "slot_inv ei ss"
    and ok: "\<forall>v vv n. vv_ok ei (ss_slot ss) v vv \<and> f vv = Some n \<longrightarrow>
               item_signer (it n) = v \<and> length (item_sig (it n)) = SIG_SZ"
  shows "items_ok (validators ei) (map it (sort_key k (filter Q (votes_by f ss))))"
    and "item_signer ` it ` set (sort_key k (filter Q (votes_by f ss))) =
         {v. vv_has ss v (\<lambda>vv. case f vv of None \<Rightarrow> False | Some n \<Rightarrow> Q n)}"
proof -
  note keys = slot_inv_keys [OF inv]
  let ?xs = "sort_key k (filter Q (votes_by f ss))"
  have mem: "n \<in> set ?xs \<longleftrightarrow> Q n \<and> (\<exists>v vv. hm_get (ss_votes ss) v = Some vv \<and> f vv = Some n)" for n
    by (auto simp: set_votes_by [OF keys(1)])
  have sg: "item_signer (it n) = v \<and> length (item_sig (it n)) = SIG_SZ \<and> v < length (validators ei)"
    if "hm_get (ss_votes ss) v = Some vv" "f vv = Some n" for v vv n
    using ok slot_inv_vote [OF inv that(1)] that(2) keys(3) [OF that(1)] by blast
  have "distinct (map (\<lambda>n. item_signer (it n)) (votes_by f ss))"
    by (rule distinct_votes_by [OF keys(1)]) (use sg in blast)
  then have "distinct (map (\<lambda>n. item_signer (it n)) ?xs)"
    unfolding distinct_map_sort_key by (rule distinct_map_filter)
  then show "items_ok (validators ei) (map it ?xs)"
    using fits sg by (auto simp: items_ok_def ei_fits_def comp_def set_votes_by [OF keys(1)])
  show "item_signer ` it ` set ?xs = {v. vv_has ss v (\<lambda>vv. case f vv of None \<Rightarrow> False | Some n \<Rightarrow> Q n)}"
    using sg by (auto simp: has_iff image_iff set_votes_by [OF keys(1)] split: option.splits) (metis option.inject)+
qed

lemma collect_notar_ok:
  assumes "ei_fits ei" "slot_inv ei ss"
  shows "items_ok (validators ei) (map nv_item (collect_notar ss h))"
    "nv_signer ` set (collect_notar ss h) = {v. vv_has ss v (notar_for h)}"
    "\<forall>n \<in> set (collect_notar ss h). nv_slot n = ss_slot ss \<and> nv_block_hash n = h"
proof -
  have "\<forall>v vv n. vv_ok ei (ss_slot ss) v vv \<and> vv_notar vv = Some n \<longrightarrow>
      item_signer (nv_item n) = v \<and> length (item_sig (nv_item n)) = SIG_SZ"
    by (simp add: vv_ok_def nv_item_def)
  note items = votes_by_items [OF assms this, of nv_signer "\<lambda>n. nv_block_hash n = h", folded collect_notar_def]
  show "items_ok (validators ei) (map nv_item (collect_notar ss h))" by (rule items(1))
  show "nv_signer ` set (collect_notar ss h) = {v. vv_has ss v (notar_for h)}"
    using items(2) by (simp add: image_image nv_item_def notar_for_def [abs_def])
  show "\<forall>n \<in> set (collect_notar ss h). nv_slot n = ss_slot ss \<and> nv_block_hash n = h"
    using slot_inv_vote [OF assms(2)] slot_inv_keys [OF assms(2)]
    by (auto simp: collect_notar_def set_votes_by vv_ok_def)
qed

lemma collect_skip_ok:
  assumes "ei_fits ei" "slot_inv ei ss"
  shows "items_ok (validators ei) (map sv_item (collect_skip ss))"
    "sv_signer ` set (collect_skip ss) = {v. vv_has ss v (\<lambda>vv. vv_skip vv \<noteq> None)}"
    "\<forall>n \<in> set (collect_skip ss). sv_slot n = ss_slot ss"
proof -
  have "\<forall>v vv n. vv_ok ei (ss_slot ss) v vv \<and> vv_skip vv = Some n \<longrightarrow>
      item_signer (sv_item n) = v \<and> length (item_sig (sv_item n)) = SIG_SZ"
    by (simp add: vv_ok_def sv_item_def)
  note items = votes_by_items [OF assms this, of sv_signer "\<lambda>_. True", unfolded filter_True_all, folded collect_skip_def]
  show "items_ok (validators ei) (map sv_item (collect_skip ss))" by (rule items(1))
  show "sv_signer ` set (collect_skip ss) = {v. vv_has ss v (\<lambda>vv. vv_skip vv \<noteq> None)}"
    using items(2) by (simp add: image_image sv_item_def option.case_eq_if)
  show "\<forall>n \<in> set (collect_skip ss). sv_slot n = ss_slot ss"
    using slot_inv_vote [OF assms(2)] slot_inv_keys [OF assms(2)]
    by (auto simp: collect_skip_def set_votes_by vv_ok_def)
qed

lemma collect_skip_fallback_ok:
  assumes "ei_fits ei" "slot_inv ei ss"
  shows "items_ok (validators ei) (map sfv_item (collect_skip_fallback ss))"
    "sfv_signer ` set (collect_skip_fallback ss) = {v. vv_has ss v (\<lambda>vv. vv_skip_fallback vv \<noteq> None)}"
    "\<forall>n \<in> set (collect_skip_fallback ss). sfv_slot n = ss_slot ss"
proof -
  have "\<forall>v vv n. vv_ok ei (ss_slot ss) v vv \<and> vv_skip_fallback vv = Some n \<longrightarrow>
      item_signer (sfv_item n) = v \<and> length (item_sig (sfv_item n)) = SIG_SZ"
    by (simp add: vv_ok_def sfv_item_def)
  note items = votes_by_items [OF assms this, of sfv_signer "\<lambda>_. True", unfolded filter_True_all, folded collect_skip_fallback_def]
  show "items_ok (validators ei) (map sfv_item (collect_skip_fallback ss))" by (rule items(1))
  show "sfv_signer ` set (collect_skip_fallback ss) = {v. vv_has ss v (\<lambda>vv. vv_skip_fallback vv \<noteq> None)}"
    using items(2) by (simp add: image_image sfv_item_def option.case_eq_if)
  show "\<forall>n \<in> set (collect_skip_fallback ss). sfv_slot n = ss_slot ss"
    using slot_inv_vote [OF assms(2)] slot_inv_keys [OF assms(2)]
    by (auto simp: collect_skip_fallback_def set_votes_by vv_ok_def)
qed

lemma collect_final_ok:
  assumes "ei_fits ei" "slot_inv ei ss"
  shows "items_ok (validators ei) (map fv_item (collect_final ss))"
    "fv_signer ` set (collect_final ss) = {v. vv_has ss v (\<lambda>vv. vv_finalize vv \<noteq> None)}"
    "\<forall>n \<in> set (collect_final ss). fv_slot n = ss_slot ss"
proof -
  have "\<forall>v vv n. vv_ok ei (ss_slot ss) v vv \<and> vv_finalize vv = Some n \<longrightarrow>
      item_signer (fv_item n) = v \<and> length (item_sig (fv_item n)) = SIG_SZ"
    by (simp add: vv_ok_def fv_item_def)
  note items = votes_by_items [OF assms this, of fv_signer "\<lambda>_. True", unfolded filter_True_all, folded collect_final_def]
  show "items_ok (validators ei) (map fv_item (collect_final ss))" by (rule items(1))
  show "fv_signer ` set (collect_final ss) = {v. vv_has ss v (\<lambda>vv. vv_finalize vv \<noteq> None)}"
    using items(2) by (simp add: image_image fv_item_def option.case_eq_if)
  show "\<forall>n \<in> set (collect_final ss). fv_slot n = ss_slot ss"
    using slot_inv_vote [OF assms(2)] slot_inv_keys [OF assms(2)]
    by (auto simp: collect_final_def set_votes_by vv_ok_def)
qed

lemma collect_nf_ok:
  assumes fits: "ei_fits ei" and inv: "slot_inv ei ss"
  shows "items_ok (validators ei) (map nfv_item (collect_nf ss h))"
    "nfv_signer ` set (collect_nf ss h) = {v. hm_get (nf_votes ss) (v, h) \<noteq> None}"
    "\<forall>n \<in> set (collect_nf ss h). nfv_slot n = ss_slot ss \<and> nfv_block_hash n = h"
proof -
  note keys = slot_inv_keys [OF inv]
  have nf: "nf_ok ei (ss_slot ss) k n" if "hm_get (nf_votes ss) k = Some n" for k n
    using inv that unfolding slot_inv_def by blast
  have mem: "n \<in> set (collect_nf ss h) \<longleftrightarrow> (\<exists>v. hm_get (nf_votes ss) (v, h) = Some n)" for n
    by (force simp: collect_nf_def hm_mem_get [OF keys(2), symmetric])
  have eq: "map nfv_signer (map snd (filter (\<lambda>((_, h'), _). h' = h) (nf_votes ss))) =
        map (\<lambda>((v, _), _). v) (filter (\<lambda>((_, h'), _). h' = h) (nf_votes ss))"
    using nf by (auto simp: nf_ok_def hm_mem_get [OF keys(2)])
  have "distinct (map nfv_signer (collect_nf ss h))"
    unfolding collect_nf_def distinct_map_sort_key eq
    using nf_voters_bound(1) [of ei ss h] fits keys by (simp add: ei_fits_def)
  moreover have "\<forall>n \<in> set (collect_nf ss h). nfv_signer n < length (validators ei) \<and> length (nfv_sig n) = SIG_SZ"
    using nf by (fastforce simp: mem nf_ok_def)
  ultimately show "items_ok (validators ei) (map nfv_item (collect_nf ss h))"
    using fits by (simp add: items_ok_def ei_fits_def nfv_item_def comp_def)
  show "nfv_signer ` set (collect_nf ss h) = {v. hm_get (nf_votes ss) (v, h) \<noteq> None}"
    using nf by (fastforce simp: mem nf_ok_def image_iff)
  show "\<forall>n \<in> set (collect_nf ss h). nfv_slot n = ss_slot ss \<and> nfv_block_hash n = h"
    using nf by (fastforce simp: mem nf_ok_def)
qed

subsection \<open>Adding a vote\<close>

lemma vote_sum_empty:
  assumes "hm_wf (ss_votes ss)" "{v. vv_has ss v P} = {}"
  shows "vote_sum ei P ss = 0"
proof -
  have "filter (\<lambda>(v, vv). P vv) (ss_votes ss) = []"
    using assms(2) by (auto simp: filter_empty_conv has_iff hm_mem_get [OF assms(1)])
  then show ?thesis by (simp add: vote_sum_keys)
qed

lemma collect_notar_empty:
  assumes "ei_fits ei" "slot_inv ei ss" "collect_notar ss h = []"
  shows "notar_stake_of ss h = 0"
proof -
  have "{v. vv_has ss v (notar_for h)} = {}" using collect_notar_ok(2) [OF assms(1,2), of h] assms(3) by simp
  from vote_sum_empty [OF slot_inv_keys(1) [OF assms(2)] this] show ?thesis
    using assms(2) by (simp add: slot_inv_split totals_ok_def)
qed

lemma collect_nf_empty:
  assumes "ei_fits ei" "slot_inv ei ss" "collect_nf ss h = []"
  shows "nf_stake_of ss h = 0"
proof -
  have "map (\<lambda>((v, _), _). v) (filter (\<lambda>((_, h'), _). h' = h) (nf_votes ss)) = []"
    using arg_cong [OF assms(3), of length] by (simp add: collect_nf_def)
  then show ?thesis using assms(2) by (simp add: slot_inv_split totals_ok_def nf_sum_keys)
qed

definition same_votes :: "SlotState \<Rightarrow> SlotState \<Rightarrow> bool" where
  "same_votes ss ss' \<longleftrightarrow> ss_votes ss' = ss_votes ss \<and> nf_votes ss' = nf_votes ss \<and> ss_slot ss' = ss_slot ss \<and>
     ss_certs ss' = ss_certs ss"

lemma same_votes_collect:
  "same_votes ss ss' \<Longrightarrow> collect_notar ss' = collect_notar ss \<and> collect_nf ss' = collect_nf ss \<and>
     push_nf_cert ss' = push_nf_cert ss"
  by (auto simp: same_votes_def collect_notar_def collect_nf_def votes_by_def push_nf_cert_def is_notar_fallback_def
      fun_eq_iff)

text \<open>What a certificate created for block \<open>h\<close> by a notarization or fallback vote looks like.\<close>

definition notar_cert_of :: "SlotState \<Rightarrow> BlockHash \<Rightarrow> Cert \<Rightarrow> bool" where
  "notar_cert_of ss h c \<longleftrightarrow> cert_slot c = ss_slot ss \<and> cert_block_hash c = Some h \<and>
     (\<forall>i. cert_is_signer c i \<longleftrightarrow>
        vv_has ss i (notar_for h) \<or> (cert_kind c = CERT_TYPE_NOTAR_FALLBACK \<and> hm_get (nf_votes ss) (i, h) \<noteq> None))"

lemma push_nf_ok:
  assumes "ei_fits ei" "slot_inv ei ss"
    and ne: "ei_is_quorum ei st \<Longrightarrow> collect_notar ss h \<noteq> [] \<or> collect_nf ss h \<noteq> []"
  shows "\<exists>cs. push_nf_cert ss h st ei out = Some (out\<lparr>out_certs := out_certs out @ cs\<rparr>) \<and> (\<forall>c \<in> set cs. notar_cert_of ss h c) \<and>
           map cert_kind cs = (if ei_is_quorum ei st \<and> \<not> is_notar_fallback ss h then [CERT_TYPE_NOTAR_FALLBACK] else [])"
proof (cases "ei_is_quorum ei st \<and> \<not> is_notar_fallback ss h")
  case True
  note n = collect_notar_ok [OF assms(1,2), of h] and f = collect_nf_ok [OF assms(1,2), of h]
  have "collect_notar ss h \<noteq> [] \<or> collect_nf ss h \<noteq> []" using True ne by blast
  from nf_try_new_ok [OF n(1) f(1) this n(3) f(3)] obtain c where
    c: "notar_fallback_cert_try_new (collect_notar ss h) (collect_nf ss h) (validators ei) = Some (Inr c)"
      "nfc_slot c = ss_slot ss" "nfc_block_hash c = h"
      "\<And>i. cert_is_signer (CNotarFallback c) i \<longleftrightarrow> vv_has ss i (notar_for h) \<or> hm_get (nf_votes ss) (i, h) \<noteq> None"
    unfolding n(2) f(2) by auto
  have "notar_cert_of ss h (CNotarFallback c)"
    using c(2-4) by (simp add: notar_cert_of_def CERT_TYPE_NOTAR_FALLBACK_def)
  moreover have "push_nf_cert ss h st ei out = Some (out\<lparr>out_certs := out_certs out @ [CNotarFallback c]\<rparr>)"
    using True by (simp add: push_nf_cert_def push_cert_def c(1))
  ultimately show ?thesis using True by (intro exI [of _ "[CNotarFallback c]"]) simp
next
  case False
  then have "push_nf_cert ss h st ei out = Some (out\<lparr>out_certs := out_certs out @ []\<rparr>)" by (auto simp: push_nf_cert_def)
  then show ?thesis using False by (intro exI [of _ "[]"]) simp
qed

lemma push_notar_ok:
  assumes "ei_fits ei" "slot_inv ei ss" "b \<Longrightarrow> collect_notar ss h \<noteq> []"
  shows "\<exists>cs. (if b then push_cert CNotar (notar_cert_try_new (collect_notar ss h) (validators ei)) out else Some out) =
              Some (out\<lparr>out_certs := out_certs out @ cs\<rparr>) \<and> (\<forall>c \<in> set cs. notar_cert_of ss h c) \<and>
              map cert_kind cs = (if b then [CERT_TYPE_NOTAR] else [])"
proof (cases b)
  case True
  note n = collect_notar_ok [OF assms(1,2), of h]
  from notar_try_new_ok [OF n(1) assms(3) [OF True] n(3)] obtain c where
    c: "notar_cert_try_new (collect_notar ss h) (validators ei) = Some (Inr c)" "nc_slot c = ss_slot ss"
      "nc_block_hash c = h" "\<And>i. cert_is_signer (CNotar c) i \<longleftrightarrow> vv_has ss i (notar_for h)"
    unfolding n(2) by auto
  then have "notar_cert_of ss h (CNotar c)"
    by (simp add: notar_cert_of_def CERT_TYPE_NOTAR_FALLBACK_def CERT_TYPE_NOTAR_def)
  then show ?thesis using True c(1) by (intro exI [of _ "[CNotar c]"]) (simp add: push_cert_def)
qed (intro exI [of _ "[]"], simp)

lemma push_fast_ok:
  assumes "ei_fits ei" "slot_inv ei ss" "b \<Longrightarrow> collect_notar ss h \<noteq> []"
  shows "\<exists>cs. (if b then push_cert CFastFinal (fast_final_cert_try_new (collect_notar ss h) (validators ei)) out else Some out) =
              Some (out\<lparr>out_certs := out_certs out @ cs\<rparr>) \<and> (\<forall>c \<in> set cs. notar_cert_of ss h c) \<and>
              map cert_kind cs = (if b then [CERT_TYPE_FAST_FINAL] else [])"
proof (cases b)
  case True
  note n = collect_notar_ok [OF assms(1,2), of h]
  from fast_final_try_new_ok [OF n(1) assms(3) [OF True] n(3)] obtain c where
    c: "fast_final_cert_try_new (collect_notar ss h) (validators ei) = Some (Inr c)" "ffc_slot c = ss_slot ss"
      "ffc_block_hash c = h" "\<And>i. cert_is_signer (CFastFinal c) i \<longleftrightarrow> vv_has ss i (notar_for h)"
    unfolding n(2) by auto
  then have "notar_cert_of ss h (CFastFinal c)"
    by (simp add: notar_cert_of_def CERT_TYPE_NOTAR_FALLBACK_def CERT_TYPE_FAST_FINAL_def)
  then show ?thesis using True c(1) by (intro exI [of _ "[CFastFinal c]"]) (simp add: push_cert_def)
qed (intro exI [of _ "[]"], simp)

text \<open>The kinds of the certificates a notarization vote creates, in order.\<close>

definition notar_cert_kinds :: "EpochInfo \<Rightarrow> SlotState \<Rightarrow> BlockHash \<Rightarrow> stake \<Rightarrow> nat list" where
  "notar_cert_kinds ei ss h ns =
     (if ei_is_quorum ei (nf_stake_of ss h + ns) \<and> \<not> is_notar_fallback ss h then [CERT_TYPE_NOTAR_FALLBACK] else []) @
     (if ei_is_quorum ei ns \<and> sc_notar (ss_certs ss) = None then [CERT_TYPE_NOTAR] else []) @
     (if ei_is_strong_quorum ei ns \<and> sc_fast_finalize (ss_certs ss) = None then [CERT_TYPE_FAST_FINAL] else [])"

text \<open>The updated totals of a notarization vote, before it is stored.\<close>

definition notar_counted :: "SlotState \<Rightarrow> BlockHash \<Rightarrow> stake \<Rightarrow> SlotState" where
  "notar_counted ss h st =
     (let ns = add64 (notar_stake_of ss h) st in
      ss\<lparr>notar_stake := hm_insert h ns (notar_stake ss), notar_or_skip_stake := add64 (notar_or_skip_stake ss) st,
         top_notar_stake := max (top_notar_stake ss) ns\<rparr>)"

text \<open>
  The events of a slot, with the flags that keep each of them from being raised twice. The
  outputs accumulate over the calls.
\<close>

definition events_ok :: "SlotState \<Rightarrow> SlotStateOutputs \<Rightarrow> bool" where
  "events_ok ss out \<longleftrightarrow> distinct (out_events out) \<and>
     (\<forall>b. SafeToNotar b \<in> set (out_events out) \<longrightarrow> bslot b = ss_slot ss \<and> bhash b \<in> set (sent_s2n ss)) \<and>
     (\<forall>s. SafeToSkip s \<in> set (out_events out) \<longrightarrow> sent_safe_to_skip ss)"

lemma events_ok_cong:
  "\<lbrakk>events_ok ss out; out_events out' = out_events out; ss_slot ss' = ss_slot ss; sent_s2n ss' = sent_s2n ss;
    sent_safe_to_skip ss' = sent_safe_to_skip ss\<rbrakk> \<Longrightarrow> events_ok ss' out'"
  by (simp add: events_ok_def)

lemma check_safe_to_notar_sent:
  "sent_s2n (fst (check_safe_to_notar ss h ei)) =
     (if snd (check_safe_to_notar ss h ei) = S2nSafeToNotar then List.insert h (sent_s2n ss) else sent_s2n ss)"
  "sent_safe_to_skip (fst (check_safe_to_notar ss h ei)) = sent_safe_to_skip ss"
  "ss_slot (fst (check_safe_to_notar ss h ei)) = ss_slot ss"
  by (simp_all add: check_safe_to_notar_def Let_def split: option.splits ParentStatus.splits prod.splits)

text \<open>
  What justifies a safe-to-notar event for a block: its parent is certified, the own validator voted
  to skip or for another block, and the block has 40\% of the stake, or 20\% and together with the skip
  votes 60\%. Every block marked as sent stays justified: votes are never taken back.
\<close>

definition own_voted_otherwise :: "SlotState \<Rightarrow> BlockHash \<Rightarrow> bool" where
  "own_voted_otherwise ss h = vv_has ss (own_id ss mod 2 ^ 16)
     (\<lambda>vv. vv_skip vv \<noteq> None \<or> (\<exists>n. vv_notar vv = Some n \<and> nv_block_hash n \<noteq> h))"

definition s2n_stake_ok :: "EpochInfo \<Rightarrow> stake \<Rightarrow> stake \<Rightarrow> bool" where
  "s2n_stake_ok ei ns sk \<longleftrightarrow> ei_is_weak_quorum ei ns \<or> ei_is_weakest_quorum ei ns \<and> ei_is_quorum ei (ns + sk)"

definition s2n_just :: "EpochInfo \<Rightarrow> SlotState \<Rightarrow> bool" where
  "s2n_just ei ss \<longleftrightarrow> (\<forall>h \<in> set (sent_s2n ss). hm_get (parents ss) h = Some Certified \<and>
     own_voted_otherwise ss h \<and> s2n_stake_ok ei (notar_stake_of ss h) (skip_stake ss))"

lemma s2n_stake_mono: "s2n_stake_ok ei a b \<Longrightarrow> a \<le> a' \<Longrightarrow> b \<le> b' \<Longrightarrow> s2n_stake_ok ei a' b'"
  unfolding s2n_stake_ok_def ei_quorum_defs quorum_defs by (simp add: fraction_is_met_def) (auto elim: order_trans)

lemma s2n_justI:
  assumes "s2n_just ei ss" "sent_s2n ss' = sent_s2n ss"
    and "\<And>h. hm_get (parents ss) h = Some Certified \<Longrightarrow> hm_get (parents ss') h = Some Certified"
    and "\<And>h. own_voted_otherwise ss h \<Longrightarrow> own_voted_otherwise ss' h"
    and "\<And>h. notar_stake_of ss h \<le> notar_stake_of ss' h" "skip_stake ss \<le> skip_stake ss'"
  shows "s2n_just ei ss'"
  using assms s2n_stake_mono unfolding s2n_just_def by metis

lemma s2n_just_core: "s2n_just ei ss \<Longrightarrow> same_core ss ss' \<Longrightarrow> sent_s2n ss' = sent_s2n ss \<Longrightarrow> s2n_just ei ss'"
  by (erule s2n_justI) (simp_all add: same_core_def own_voted_otherwise_def vv_has_def vv_of_def notar_stake_of_def)

lemma check_safe_to_notar_just:
  assumes "snd (check_safe_to_notar ss h ei) = S2nSafeToNotar"
  shows "hm_get (parents ss) h = Some Certified" "own_voted_otherwise ss h"
    "s2n_stake_ok ei (notar_stake_of ss h) (skip_stake ss)"
proof -
  have "ei_is_quorum ei (add64 a b) \<Longrightarrow> ei_is_quorum ei (a + b)" for a b
    unfolding ei_is_quorum_def by (rule quorum_mono) (simp_all add: add64_def)
  then show "hm_get (parents ss) h = Some Certified" "own_voted_otherwise ss h"
    "s2n_stake_ok ei (notar_stake_of ss h) (skip_stake ss)"
    using assms unfolding check_safe_to_notar_def Let_def
    by (auto simp: own_voted_otherwise_def vv_has_def s2n_stake_ok_def
        split: if_splits option.splits ParentStatus.splits prod.splits)
qed

lemma s2n_just_check:
  assumes "s2n_just ei ss"
  shows "s2n_just ei (fst (check_safe_to_notar ss h ei))"
proof -
  note core = check_safe_to_notar_core [of ss h ei]
  show ?thesis
    using assms check_safe_to_notar_just [of ss h ei] check_safe_to_notar_sent(1) [of ss h ei] core
    by (auto simp: s2n_just_def same_core_def own_voted_otherwise_def vv_has_def vv_of_def notar_stake_of_def split: if_splits)
qed

lemma s2n_just_pending: "s2n_just ei ss \<Longrightarrow> s2n_just ei (fst (pending_loop hs ei (ss, out)))"
proof (induction hs arbitrary: ss out)
  case (Cons h hs)
  obtain ss1 r where c: "check_safe_to_notar ss h ei = (ss1, r)" by fastforce
  then have "s2n_just ei ss1" using s2n_just_check [OF Cons.prems, of h] by simp
  then show ?case using Cons c by simp
qed simp

lemma s2n_just_process: "s2n_just ei ss \<Longrightarrow> s2n_just ei (fst (process_pending_safe_to_notar ss ei out))"
  unfolding process_pending_safe_to_notar_def by (rule s2n_just_pending)

lemma s2n_just_skip: "s2n_just ei ss \<Longrightarrow> s2n_just ei (fst (check_safe_to_skip ss ei out))"
  by (erule s2n_just_core [OF _ check_safe_to_skip_core(1)]) (simp add: check_safe_to_skip_def)

lemma s2n_just_store:
  assumes "s2n_just ei ss" "\<And>vv. vv_skip vv \<noteq> None \<Longrightarrow> vv_skip (f vv) \<noteq> None"
    and "\<not> vv_has ss v (\<lambda>vv. vv_notar vv \<noteq> None) \<or> (\<forall>vv. vv_notar (f vv) = vv_notar vv)"
  shows "s2n_just ei (store_vote f v ss)"
proof (rule s2n_justI [OF assms(1)])
  fix h assume voted: "own_voted_otherwise ss h"
  define P :: "ValidatorVotes \<Rightarrow> bool" where "P = (\<lambda>vv. vv_skip vv \<noteq> None \<or> (\<exists>n. vv_notar vv = Some n \<and> nv_block_hash n \<noteq> h))"
  let ?vv = "hm_get_or (ss_votes ss) vv_default v"
  have "\<not> P vv_default" by (simp add: P_def)
  note dflt = not_has_default [of P, OF this, of ss v]
  have "P (f ?vv)" if "P ?vv"
  proof (cases "vv_skip ?vv")
    case None
    then have "vv_notar ?vv \<noteq> None" using that by (auto simp: P_def)
    then have "vv_notar (f ?vv) = vv_notar ?vv"
      using assms(3) not_has_default [of "\<lambda>vv. vv_notar vv \<noteq> None" ss v] by simp
    then show ?thesis using that None by (simp add: P_def)
  next
    case (Some k)
    then show ?thesis using assms(2) [of ?vv] by (simp add: P_def)
  qed
  then show "own_voted_otherwise (store_vote f v ss) h"
    using voted dflt unfolding own_voted_otherwise_def P_def [symmetric] vv_has_store
    by (cases "own_id ss mod 2 ^ 16 = v") (simp_all add: store_vote_def)
qed (simp_all add: store_vote_def notar_stake_of_def)

lemma events_ok_s2n:
  assumes "events_ok ss out" "h \<notin> set (sent_s2n ss)" "check_safe_to_notar ss h ei = (ss', r)"
  shows "events_ok ss' (s2n_output r (block_id (ss_slot ss') h) out)"
  using assms check_safe_to_notar_sent [of ss h ei]
  by (auto simp: events_ok_def s2n_output_def block_id_def split: S2n.splits)

lemma events_ok_pending:
  "events_ok ss out \<Longrightarrow> pending_loop hs ei (ss, out) = (ss', out') \<Longrightarrow> events_ok ss' out'"
  by (induction hs arbitrary: ss out) (auto split: if_splits prod.splits dest: events_ok_s2n)

lemma events_ok_process:
  "events_ok ss out \<Longrightarrow> process_pending_safe_to_notar ss ei out = (ss', out') \<Longrightarrow> events_ok ss' out'"
  unfolding process_pending_safe_to_notar_def by (rule events_ok_pending)

lemma events_ok_skip:
  "events_ok ss out \<Longrightarrow> check_safe_to_skip ss ei out = (ss', out') \<Longrightarrow> events_ok ss' out'"
  by (auto simp: check_safe_to_skip_def events_ok_def split: if_splits)

lemma push_cert_events: "push_cert con r out = Some out' \<Longrightarrow> out_events out' = out_events out"
  by (auto simp: push_cert_def split: option.splits sum.splits)

lemma events_ok_push:
  "events_ok ss out \<Longrightarrow> push_cert con r out = Some out' \<Longrightarrow> events_ok ss out'"
  "events_ok ss out \<Longrightarrow> push_nf_cert ss' h st ei out = Some out' \<Longrightarrow> events_ok ss out'"
  by (auto simp: push_nf_cert_def elim!: events_ok_cong dest!: push_cert_events split: if_splits)

lemma count_notar_stake_split:
  "\<exists>ss1 out1. same_core (notar_counted ss h st) ss1 \<and> out_certs out1 = out_certs out \<and>
     (events_ok ss out \<longrightarrow> events_ok ss1 out1) \<and> (s2n_just ei (notar_counted ss h st) \<longrightarrow> s2n_just ei ss1) \<and>
     count_notar_stake ss h st ei out =
       do {
         out2 \<leftarrow> push_nf_cert ss1 h (add64 (nf_stake_of ss1 h) (add64 (notar_stake_of ss h) st)) ei out1;
         out3 \<leftarrow> (if ei_is_quorum ei (add64 (notar_stake_of ss h) st) \<and> sc_notar (ss_certs ss1) = None
               then push_cert CNotar (notar_cert_try_new (collect_notar ss1 h) (validators ei)) out2
               else Some out2);
         out4 \<leftarrow> (if ei_is_strong_quorum ei (add64 (notar_stake_of ss h) st) \<and> sc_fast_finalize (ss_certs ss1) = None
               then push_cert CFastFinal (fast_final_cert_try_new (collect_notar ss1 h) (validators ei)) out3
               else Some out3);
         Some (ss1, out4)
       }"
proof -
  define s0 where "s0 = notar_counted ss h st"
  obtain s1 r where c: "check_safe_to_notar s0 h ei = (s1, r)" by fastforce
  define so where "so = (if h \<notin> set (sent_s2n s0) then (s1, s2n_output r (block_id (ss_slot s1) h) out) else (s0, out))"
  obtain s2 o2 where so: "so = (s2, o2)" by fastforce
  obtain s3 o3 where k: "check_safe_to_skip s2 ei o2 = (s3, o3)" by fastforce
  have "same_core s0 s1" using check_safe_to_notar_core [of s0 h ei] c by simp
  then have "same_core s0 s2" "out_certs o2 = out_certs out" using so by (auto simp: so_def split: if_splits)
  moreover have "same_core s2 s3" "out_certs o3 = out_certs o2" using check_safe_to_skip_core [of s2 ei o2] k by simp_all
  ultimately have "same_core s0 s3" "out_certs o3 = out_certs out" by (auto intro: same_core_trans)
  moreover have "events_ok s3 o3" if ok: "events_ok ss out"
  proof -
    have ok0: "events_ok s0 out" by (rule events_ok_cong [OF ok]) (simp_all add: s0_def notar_counted_def Let_def)
    have "events_ok s2 o2" using so ok0 events_ok_s2n [OF ok0 _ c] by (auto simp: so_def split: if_splits)
    from events_ok_skip [OF this k] show ?thesis .
  qed
  moreover have "s2n_just ei s3" if just: "s2n_just ei s0"
  proof -
    have "s2n_just ei s2" using so just s2n_just_check [OF just, of h] c by (auto simp: so_def split: if_splits)
    from s2n_just_skip [OF this, of o2] k show ?thesis by simp
  qed
  moreover have "count_notar_stake ss h st ei out =
       do {
         out2 \<leftarrow> push_nf_cert s3 h (add64 (nf_stake_of s3 h) (add64 (notar_stake_of ss h) st)) ei o3;
         out3 \<leftarrow> (if ei_is_quorum ei (add64 (notar_stake_of ss h) st) \<and> sc_notar (ss_certs s3) = None
               then push_cert CNotar (notar_cert_try_new (collect_notar s3 h) (validators ei)) out2
               else Some out2);
         out4 \<leftarrow> (if ei_is_strong_quorum ei (add64 (notar_stake_of ss h) st) \<and> sc_fast_finalize (ss_certs s3) = None
               then push_cert CFastFinal (fast_final_cert_try_new (collect_notar s3 h) (validators ei)) out3
               else Some out3);
         Some (s3, out4)
       }"
    using c so k unfolding count_notar_stake_def Let_def so_def s0_def notar_counted_def notar_stake_of_def
    by (auto split: if_splits)
  ultimately show ?thesis unfolding s0_def by blast
qed

lemma count_notar_ok:
  assumes fits: "ei_fits ei" and inv: "slot_inv ei ss"
    and ns: "add64 (notar_stake_of ss h) st = notar_stake_of ss h + st" "notar_stake_of ss h + st \<le> ei_stakes ei"
    and small: "\<not> ei_is_quorum ei st"
  shows "\<exists>ss1 out1 cs. count_notar_stake ss h st ei out = Some (ss1, out1) \<and> same_core (notar_counted ss h st) ss1 \<and>
           out_certs out1 = out_certs out @ cs \<and> (\<forall>c \<in> set cs. notar_cert_of ss h c) \<and>
           map cert_kind cs = notar_cert_kinds ei ss h (notar_stake_of ss h + st)"
proof -
  obtain ss1 out1 where split: "same_core (notar_counted ss h st) ss1" "out_certs out1 = out_certs out"
    "count_notar_stake ss h st ei out =
       do {
         out2 \<leftarrow> push_nf_cert ss1 h (add64 (nf_stake_of ss1 h) (add64 (notar_stake_of ss h) st)) ei out1;
         out3 \<leftarrow> (if ei_is_quorum ei (add64 (notar_stake_of ss h) st) \<and> sc_notar (ss_certs ss1) = None
               then push_cert CNotar (notar_cert_try_new (collect_notar ss1 h) (validators ei)) out2
               else Some out2);
         out4 \<leftarrow> (if ei_is_strong_quorum ei (add64 (notar_stake_of ss h) st) \<and> sc_fast_finalize (ss_certs ss1) = None
               then push_cert CFastFinal (fast_final_cert_try_new (collect_notar ss1 h) (validators ei)) out3
               else Some out3);
         Some (ss1, out4)
       }"
    using count_notar_stake_split [of ss h st out ei] by blast
  have sv: "same_votes ss ss1" and nf: "nf_stake_of ss1 h = nf_stake_of ss h"
    using split(1) by (simp_all add: same_core_def same_votes_def notar_counted_def Let_def nf_stake_of_def)
  have same: "collect_notar ss1 = collect_notar ss" "push_nf_cert ss1 = push_nf_cert ss"
    using same_votes_collect [of ss ss1] sv by blast+
  have nfle: "nf_stake_of ss h \<le> ei_stakes ei"
    using nf_voters_bound(3) [of ei ss h] fits inv slot_inv_keys [OF inv]
    by (simp add: ei_fits_def slot_inv_split totals_ok_def)
  have sum: "add64 (nf_stake_of ss h) (notar_stake_of ss h + st) = nf_stake_of ss h + (notar_stake_of ss h + st)"
    using nfle ns(2) fits by (intro add64_exact) (simp add: ei_fits_def u64_max_def)
  have ne: "collect_notar ss h \<noteq> []" if "ei_is_quorum ei (notar_stake_of ss h + st)"
    using that small collect_notar_empty [OF fits inv, of h] by auto
  have ne2: "collect_notar ss h \<noteq> [] \<or> collect_nf ss h \<noteq> []"
    if "ei_is_quorum ei (nf_stake_of ss h + (notar_stake_of ss h + st))"
    using that small collect_notar_empty [OF fits inv, of h] collect_nf_empty [OF fits inv, of h] by auto
  from push_nf_ok [OF fits inv, where out = out1, OF ne2] obtain cs1 where
    p1: "push_nf_cert ss h (nf_stake_of ss h + (notar_stake_of ss h + st)) ei out1 = Some (out1\<lparr>out_certs := out_certs out1 @ cs1\<rparr>)"
      "\<forall>c \<in> set cs1. notar_cert_of ss h c"
      "map cert_kind cs1 = (if ei_is_quorum ei (nf_stake_of ss h + (notar_stake_of ss h + st)) \<and> \<not> is_notar_fallback ss h
         then [CERT_TYPE_NOTAR_FALLBACK] else [])" by blast
  define o2 where "o2 = out1\<lparr>out_certs := out_certs out1 @ cs1\<rparr>"
  define b where "b \<longleftrightarrow> ei_is_quorum ei (notar_stake_of ss h + st) \<and> sc_notar (ss_certs ss1) = None"
  define b' where "b' \<longleftrightarrow> ei_is_strong_quorum ei (notar_stake_of ss h + st) \<and> sc_fast_finalize (ss_certs ss1) = None"
  have bb: "b \<Longrightarrow> collect_notar ss h \<noteq> []" "b' \<Longrightarrow> collect_notar ss h \<noteq> []"
    using ne strong_quorum_quorum by (auto simp: b_def b'_def ei_quorum_defs)
  from push_notar_ok [OF fits inv, where out = o2, OF bb(1)] obtain cs2 where
    p2: "(if b then push_cert CNotar (notar_cert_try_new (collect_notar ss h) (validators ei)) o2 else Some o2) =
              Some (o2\<lparr>out_certs := out_certs o2 @ cs2\<rparr>)" "\<forall>c \<in> set cs2. notar_cert_of ss h c"
      "map cert_kind cs2 = (if b then [CERT_TYPE_NOTAR] else [])" by blast
  define o3 where "o3 = o2\<lparr>out_certs := out_certs o2 @ cs2\<rparr>"
  from push_fast_ok [OF fits inv, where out = o3, OF bb(2)] obtain cs3 where
    p3: "(if b' then push_cert CFastFinal (fast_final_cert_try_new (collect_notar ss h) (validators ei)) o3 else Some o3) =
              Some (o3\<lparr>out_certs := out_certs o3 @ cs3\<rparr>)" "\<forall>c \<in> set cs3. notar_cert_of ss h c"
      "map cert_kind cs3 = (if b' then [CERT_TYPE_FAST_FINAL] else [])" by blast
  have "count_notar_stake ss h st ei out = Some (ss1, o3\<lparr>out_certs := out_certs o3 @ cs3\<rparr>)"
    unfolding split(3) ns(1) nf sum same p1(1) o2_def [symmetric] b_def [symmetric] b'_def [symmetric]
    unfolding bind.bind_lunit p2(1) o3_def [symmetric] p3(1) by (rule refl)
  moreover have "out_certs (o3\<lparr>out_certs := out_certs o3 @ cs3\<rparr>) = out_certs out @ (cs1 @ cs2 @ cs3)"
    by (simp add: o3_def o2_def split(2))
  moreover have "ss_certs ss1 = ss_certs ss" using sv by (simp add: same_votes_def)
  then have "map cert_kind (cs1 @ cs2 @ cs3) = notar_cert_kinds ei ss h (notar_stake_of ss h + st)"
    by (simp add: p1(3) p2(3) p3(3) notar_cert_kinds_def b_def b'_def)
  moreover have "\<forall>c \<in> set (cs1 @ cs2 @ cs3). notar_cert_of ss h c" using p1(2) p2(2) p3(2) by auto
  ultimately show ?thesis using split(1) by blast
qed

lemma count_nf_ok:
  assumes fits: "ei_fits ei" and inv: "slot_inv ei ss"
    and nf: "add64 (nf_stake_of ss h) st = nf_stake_of ss h + st" "nf_stake_of ss h + st \<le> ei_stakes ei"
    and small: "\<not> ei_is_quorum ei st"
  shows "\<exists>out1 cs. count_notar_fallback_stake ss h st ei out =
             Some (ss\<lparr>nf_stake := hm_insert h (nf_stake_of ss h + st) (nf_stake ss)\<rparr>, out1) \<and>
           out_certs out1 = out_certs out @ cs \<and> (\<forall>c \<in> set cs. notar_cert_of ss h c) \<and>
           map cert_kind cs = (if ei_is_quorum ei (nf_stake_of ss h + st + notar_stake_of ss h) \<and> \<not> is_notar_fallback ss h
             then [CERT_TYPE_NOTAR_FALLBACK] else [])"
proof -
  let ?ss = "ss\<lparr>nf_stake := hm_insert h (nf_stake_of ss h + st) (nf_stake ss)\<rparr>"
  have same: "push_nf_cert ?ss = push_nf_cert ss" using same_votes_collect [of ss ?ss] by (simp add: same_votes_def)
  have "notar_stake_of ss h \<le> ei_stakes ei"
    using voters_bound(3) [of ei ss "notar_for h"] fits inv slot_inv_keys [OF inv]
    by (simp add: ei_fits_def slot_inv_split totals_ok_def)
  then have sum: "add64 (nf_stake_of ss h + st) (notar_stake_of ss h) = nf_stake_of ss h + st + notar_stake_of ss h"
    using nf(2) fits by (intro add64_exact) (simp add: ei_fits_def u64_max_def)
  have ne: "collect_notar ss h \<noteq> [] \<or> collect_nf ss h \<noteq> []"
    if "ei_is_quorum ei (nf_stake_of ss h + st + notar_stake_of ss h)"
    using that small collect_notar_empty [OF fits inv, of h] collect_nf_empty [OF fits inv, of h] by auto
  from push_nf_ok [OF fits inv, where out = out, OF ne] obtain cs where
    "push_nf_cert ss h (nf_stake_of ss h + st + notar_stake_of ss h) ei out = Some (out\<lparr>out_certs := out_certs out @ cs\<rparr>)"
    "\<forall>c \<in> set cs. notar_cert_of ss h c"
    "map cert_kind cs = (if ei_is_quorum ei (nf_stake_of ss h + st + notar_stake_of ss h) \<and> \<not> is_notar_fallback ss h
             then [CERT_TYPE_NOTAR_FALLBACK] else [])" by blast
  then show ?thesis
    using nf(1) by (simp add: count_notar_fallback_stake_def Let_def same sum nf_stake_of_def [symmetric])
qed

text \<open>Skip and finalization votes are stored before they are counted.\<close>

lemma signed_stake_voters:
  assumes fits: "ei_fits ei" and inv: "slot_inv ei ss" and signers: "\<And>i. cert_is_signer c i \<longleftrightarrow> vv_has ss i P"
  shows "signed_stake c ei = vote_sum ei P ss" "vote_sum ei P ss \<le> ei_stakes ei"
proof -
  have keys: "ei_wf ei" "hm_wf (ss_votes ss)" "\<forall>v vv. hm_get (ss_votes ss) v = Some vv \<longrightarrow> v < length (validators ei)"
    and stakes: "ei_stakes ei \<le> u64_max"
    using fits slot_inv_keys [OF inv] by (auto simp: ei_fits_def)
  note key = keys(3) [rule_format]
  have vb: "distinct (map fst (filter (\<lambda>(v, vv). P vv) (ss_votes ss)))"
    "\<forall>k \<in> set (map fst (filter (\<lambda>(v, vv). P vv) (ss_votes ss))). k < length (validators ei)"
    by (rule voters_bound(1,2) [OF keys(1,2)], erule key)+
  have mem: "k \<in> set (map fst (filter (\<lambda>(v, vv). P vv) (ss_votes ss))) \<longleftrightarrow> vv_has ss k P" for k
    by (rule voters_bound(4) [OF keys(1,2)], erule key)
  show "vote_sum ei P ss \<le> ei_stakes ei" by (rule voters_bound(3) [OF keys(1,2)], erule key)
  show "signed_stake c ei = vote_sum ei P ss"
    unfolding vote_sum_keys by (rule signed_stake_signers [OF keys(1) stakes vb]) (unfold signers mem, rule refl)
qed

lemma push_skip_ok:
  assumes fits: "ei_fits ei" and inv: "slot_inv ei ss" and ne: "{v. vv_has ss v (\<lambda>vv. vv_skip vv \<noteq> None \<or> vv_skip_fallback vv \<noteq> None)} \<noteq> {}"
  shows "\<exists>c. skip_cert_try_new (collect_skip ss) (collect_skip_fallback ss) (validators ei) = Some (Inr c) \<and>
           sc_slot c = ss_slot ss \<and> signed_stake (CSkip c) ei = skip_stake ss + skip_fallback_stake ss \<and>
           add64 (skip_stake ss) (skip_fallback_stake ss) = skip_stake ss + skip_fallback_stake ss"
proof -
  let ?P = "\<lambda>vv. vv_skip vv \<noteq> None \<or> vv_skip_fallback vv \<noteq> None"
  note a = collect_skip_ok [OF fits inv] and b = collect_skip_fallback_ok [OF fits inv]
  have U: "sv_signer ` set (collect_skip ss) \<union> sfv_signer ` set (collect_skip_fallback ss) = {v. vv_has ss v ?P}"
    unfolding a(2) b(2) by (auto simp: has_iff)
  have "collect_skip ss \<noteq> [] \<or> collect_skip_fallback ss \<noteq> []" using ne U by auto
  from skip_try_new_ok [OF a(1) b(1) this a(3) b(3)] obtain c where
    c: "skip_cert_try_new (collect_skip ss) (collect_skip_fallback ss) (validators ei) = Some (Inr c)"
      "sc_slot c = ss_slot ss" "\<And>i. cert_is_signer (CSkip c) i \<longleftrightarrow> vv_has ss i ?P"
    unfolding U by blast
  have stakes: "ei_stakes ei \<le> u64_max" using fits by (simp add: ei_fits_def)
  note wf = slot_inv_keys(1) [OF inv]
  note vb = signed_stake_voters [OF fits inv c(3)]
  have "vv_skip vv = None \<or> vv_skip_fallback vv = None" if "(v, vv) \<in> set (ss_votes ss)" for v vv
    using slot_inv_vote [OF inv, of v vv] that unfolding hm_mem_get [OF wf] vv_ok_def by argo
  then have sum: "skip_stake ss + skip_fallback_stake ss = vote_sum ei ?P ss"
    using inv vote_sum_disjoint [of ss "\<lambda>vv. vv_skip vv \<noteq> None" "\<lambda>vv. vv_skip_fallback vv \<noteq> None" ei]
    by (auto simp: slot_inv_split totals_ok_def)
  have "add64 (skip_stake ss) (skip_fallback_stake ss) = skip_stake ss + skip_fallback_stake ss"
    using sum vb(2) stakes by (intro add64_exact) (simp add: u64_max_def)
  then show ?thesis using c vb(1) sum by auto
qed

lemma push_final_ok:
  assumes fits: "ei_fits ei" and inv: "slot_inv ei ss" and ne: "{v. vv_has ss v (\<lambda>vv. vv_finalize vv \<noteq> None)} \<noteq> {}"
  shows "\<exists>c. final_cert_try_new (collect_final ss) (validators ei) = Some (Inr c) \<and>
           fc_slot c = ss_slot ss \<and> signed_stake (CFinal c) ei = finalize_stake ss"
proof -
  let ?P = "\<lambda>vv. vv_finalize vv \<noteq> None"
  note a = collect_final_ok [OF fits inv]
  have "collect_final ss \<noteq> []" using ne a(2) by auto
  from final_try_new_ok [OF a(1) this a(3)] obtain c where
    c: "final_cert_try_new (collect_final ss) (validators ei) = Some (Inr c)"
      "fc_slot c = ss_slot ss" "\<And>i. cert_is_signer (CFinal c) i \<longleftrightarrow> vv_has ss i ?P"
    unfolding a(2) by blast
  show ?thesis using c(1,2) signed_stake_voters(1) [OF fits inv c(3)] inv by (auto simp: slot_inv_split totals_ok_def)
qed

lemma count_skip_ok:
  assumes fits: "ei_fits ei"
    and S: "S = (if fb then ss\<lparr>skip_fallback_stake := add64 (skip_fallback_stake ss) st\<rparr> else ss\<lparr>skip_stake := add64 (skip_stake ss) st\<rparr>)"
    and inv: "slot_inv ei S" and ne: "{v. vv_has S v (\<lambda>vv. vv_skip vv \<noteq> None \<or> vv_skip_fallback vv \<noteq> None)} \<noteq> {}"
  shows "\<exists>ss1 out1 cs. count_skip_stake ss st fb ei out = Some (ss1, out1) \<and> same_core S ss1 \<and>
           out_certs out1 = out_certs out @ cs \<and>
           (if ei_is_quorum ei (skip_stake S + skip_fallback_stake S) \<and> sc_skip (ss_certs S) = None
            then \<exists>c. cs = [CSkip c] \<and> sc_slot c = ss_slot S \<and> cert_check_threshold (CSkip c) ei
            else cs = [])"
proof -
  obtain ss2 o2 where p: "process_pending_safe_to_notar S ei out = (ss2, o2)" by fastforce
  with process_pending_core [of S ei out] have core: "same_core S ss2" and o2: "out_certs o2 = out_certs out" by auto
  have "slot_inv ei ss2" using slot_inv_core [OF core] inv by simp
  moreover have "{v. vv_has ss2 v (\<lambda>vv. vv_skip vv \<noteq> None \<or> vv_skip_fallback vv \<noteq> None)} \<noteq> {}"
    using ne core by (simp add: vv_has_def vv_of_def same_core_def)
  ultimately obtain c where c:
    "skip_cert_try_new (collect_skip ss2) (collect_skip_fallback ss2) (validators ei) = Some (Inr c)"
    "sc_slot c = ss_slot ss2" "signed_stake (CSkip c) ei = skip_stake ss2 + skip_fallback_stake ss2"
    "add64 (skip_stake ss2) (skip_fallback_stake ss2) = skip_stake ss2 + skip_fallback_stake ss2"
    using push_skip_ok [OF fits] by blast
  have eqs: "skip_stake ss2 = skip_stake S" "skip_fallback_stake ss2 = skip_fallback_stake S" "ss_certs ss2 = ss_certs S"
    "ss_slot ss2 = ss_slot S" using core by (simp_all add: same_core_def)
  define q where "q \<longleftrightarrow> ei_is_quorum ei (skip_stake S + skip_fallback_stake S) \<and> sc_skip (ss_certs S) = None"
  define o3 where "o3 = (if q then o2\<lparr>out_certs := out_certs o2 @ [CSkip c]\<rparr> else o2)"
  have run: "count_skip_stake ss st fb ei out = Some (check_safe_to_skip ss2 ei o3)"
    by (simp add: count_skip_stake_def Let_def S [symmetric] p c(1) c(4) [unfolded eqs] eqs(1-3) q_def o3_def push_cert_def)
  have "q \<longrightarrow> cert_check_threshold (CSkip c) ei" using c(3) eqs by (simp add: q_def cert_check_threshold_def)
  then show ?thesis
    unfolding run q_def [symmetric] using check_safe_to_skip_core [of ss2 ei o3] same_core_trans [OF core] c(2) eqs(4) o2
    by (intro exI [of _ "fst (check_safe_to_skip ss2 ei o3)"] exI [of _ "snd (check_safe_to_skip ss2 ei o3)"]
        exI [of _ "if q then [CSkip c] else []"]) (auto simp: o3_def)
qed

lemma count_final_ok:
  assumes fits: "ei_fits ei"
    and S: "S = ss\<lparr>finalize_stake := add64 (finalize_stake ss) st\<rparr>"
    and inv: "slot_inv ei S" and ne: "{v. vv_has S v (\<lambda>vv. vv_finalize vv \<noteq> None)} \<noteq> {}"
  shows "\<exists>out1 cs. count_finalize_stake ss st ei out = Some (S, out1) \<and> out_certs out1 = out_certs out @ cs \<and>
           (if ei_is_quorum ei (finalize_stake S) \<and> sc_finalize (ss_certs S) = None
            then \<exists>c. cs = [CFinal c] \<and> fc_slot c = ss_slot S \<and> cert_check_threshold (CFinal c) ei
            else cs = [])"
proof -
  from push_final_ok [OF fits inv ne] obtain c where c: "final_cert_try_new (collect_final S) (validators ei) = Some (Inr c)"
    "fc_slot c = ss_slot S" "signed_stake (CFinal c) ei = finalize_stake S" by blast
  show ?thesis
    unfolding count_finalize_stake_def Let_def S [symmetric]
    using c by (simp add: push_cert_def cert_check_threshold_def)
qed

subsection \<open>A vote is added\<close>

text \<open>The slot state with the vote stored and counted.\<close>

definition vote_stored :: "SlotState \<Rightarrow> Vote \<Rightarrow> stake \<Rightarrow> SlotState" where
  "vote_stored ss vote st =
     (case vote of
        VNotar n \<Rightarrow> notar_stored ss n st
      | VNotarFallback n \<Rightarrow> nf_stored ss n st
      | VSkip s \<Rightarrow> skip_stored ss s st
      | VSkipFallback s \<Rightarrow> skip_fallback_stored ss s st
      | VFinal f \<Rightarrow> final_stored ss f st)"

text \<open>
  The guards of the pool: a vote for this slot by a validator of the epoch, not a repetition and
  not a slashable offence.
\<close>

definition vote_admitted :: "EpochInfo \<Rightarrow> SlotState \<Rightarrow> Vote \<Rightarrow> bool" where
  "vote_admitted ei ss vote \<longleftrightarrow>
     vote_signer vote < length (validators ei) \<and> vote_slot vote = ss_slot ss \<and> length (vote_sig vote) = SIG_SZ \<and>
     \<not> should_ignore_vote ss vote \<and> check_slashable_offence ss vote = None"

text \<open>The certificates a vote may create.\<close>

definition vote_certs_ok :: "EpochInfo \<Rightarrow> SlotState \<Rightarrow> Vote \<Rightarrow> Cert list \<Rightarrow> bool" where
  "vote_certs_ok ei ss vote cs =
     (let S = vote_stored ss vote (stake_at ei (vote_signer vote)) in
      case vote of
        VNotar n \<Rightarrow>
          (\<forall>c \<in> set cs. notar_cert_of ss (nv_block_hash n) c) \<and>
          map cert_kind cs = notar_cert_kinds ei ss (nv_block_hash n) (notar_stake_of S (nv_block_hash n))
      | VNotarFallback n \<Rightarrow>
          (\<forall>c \<in> set cs. notar_cert_of ss (nfv_block_hash n) c) \<and>
          map cert_kind cs =
            (if ei_is_quorum ei (nf_stake_of S (nfv_block_hash n) + notar_stake_of S (nfv_block_hash n)) \<and>
                \<not> is_notar_fallback ss (nfv_block_hash n) then [CERT_TYPE_NOTAR_FALLBACK] else [])
      | VFinal _ \<Rightarrow>
          if ei_is_quorum ei (finalize_stake S) \<and> sc_finalize (ss_certs S) = None
          then \<exists>c. cs = [CFinal c] \<and> fc_slot c = ss_slot S \<and> cert_check_threshold (CFinal c) ei
          else cs = []
      | _ \<Rightarrow>
          if ei_is_quorum ei (skip_stake S + skip_fallback_stake S) \<and> sc_skip (ss_certs S) = None
          then \<exists>c. cs = [CSkip c] \<and> sc_slot c = ss_slot S \<and> cert_check_threshold (CSkip c) ei
          else cs = [])"

lemma vv_has_disj: "vv_has ss v (\<lambda>x. P x \<or> Q x) \<longleftrightarrow> vv_has ss v P \<or> vv_has ss v Q"
  by (auto simp: vv_has_def split: option.splits)

lemma nf_votes_none:
  assumes "\<not> list_ex (\<lambda>((val, _), _). val = v) m"
  shows "\<forall>h. hm_get m (v, h) = None"
  using assms by (auto simp: list_ex_iff map_of_eq_None_iff)

lemma vote_stored_inv:
  assumes "ei_fits ei" "slot_inv ei ss" and adm: "vote_admitted ei ss vote"
  shows "slot_inv ei (vote_stored ss vote (stake_at ei (vote_signer vote)))"
proof -
  note facts = adm [unfolded vote_admitted_def check_slashable_offence_def Let_def]
  show ?thesis
  proof (cases vote)
    case (VNotar n)
    then show ?thesis using facts by (auto simp: vote_stored_def split: if_splits option.splits intro!: slot_inv_notar(1) [OF assms(1,2)])
  next
    case (VNotarFallback n)
    then show ?thesis using facts by (auto simp: vote_stored_def split: if_splits intro!: slot_inv_nf(1) [OF assms(1,2)])
  next
    case (VSkip s)
    then show ?thesis using facts
      by (auto simp: vote_stored_def vv_has_disj split: if_splits intro!: slot_inv_skip [OF assms(1,2)])
  next
    case (VSkipFallback s)
    then show ?thesis using facts
      by (auto simp: vote_stored_def vv_has_disj split: if_splits intro!: slot_inv_skip_fallback [OF assms(1,2)])
  next
    case (VFinal f)
    then show ?thesis using facts nf_votes_none [of "fv_signer f" "nf_votes ss"]
      by (auto simp: vote_stored_def vv_has_disj split: if_splits intro!: slot_inv_final [OF assms(1,2)])
  qed
qed

lemma same_core_store: "same_core s t \<Longrightarrow> same_core (store_vote f v s) (store_vote f v t)"
  by (simp add: same_core_def store_vote_def)

text \<open>The vote itself, before the pending hashes are looked at again for an own vote.\<close>

lemma add_vote_counted:
  assumes fits: "ei_fits ei" and inv: "slot_inv ei ss" and adm: "vote_admitted ei ss vote"
    and small: "\<not> ei_is_quorum ei (stake_at ei (vote_signer vote))"
  obtains ss1 out1 cs where
    "ss_add_vote ss vote (stake_at ei (vote_signer vote)) ei out =
       Some (if vote_signer vote = own_id ss1 then process_pending_safe_to_notar ss1 ei out1 else (ss1, out1))"
    "same_core (vote_stored ss vote (stake_at ei (vote_signer vote))) ss1"
    "out_certs out1 = out_certs out @ cs" "vote_certs_ok ei ss vote cs"
proof -
  let ?st = "stake_at ei (vote_signer vote)"
  let ?S = "vote_stored ss vote ?st"
  note inv' = vote_stored_inv [OF fits inv adm]
  note facts = adm [unfolded vote_admitted_def check_slashable_offence_def Let_def]
  show ?thesis
  proof (cases vote)
    case (VNotar n)
    let ?h = "nv_block_hash n"
    have exact: "add64 (notar_stake_of ss ?h) ?st = notar_stake_of ss ?h + ?st"
      using facts VNotar by (auto split: if_splits option.splits intro!: slot_inv_notar(2) [OF fits inv])
    have S: "notar_stake_of ?S ?h = add64 (notar_stake_of ss ?h) ?st"
      by (simp add: vote_stored_def VNotar notar_stored_def Let_def notar_stake_of_def hm_simps)
    have "notar_stake_of ?S ?h \<le> ei_stakes ei"
      using voters_bound(3) [of ei ?S "notar_for ?h"] fits inv' slot_inv_keys [OF inv']
      by (simp add: ei_fits_def slot_inv_split totals_ok_def)
    then have "notar_stake_of ss ?h + ?st \<le> ei_stakes ei" using exact S by simp
    from count_notar_ok [OF fits inv exact this small, of out] obtain ss1 out1 cs where
      c: "count_notar_stake ss ?h ?st ei out = Some (ss1, out1)" "same_core (notar_counted ss ?h ?st) ss1"
        "out_certs out1 = out_certs out @ cs" "\<forall>c \<in> set cs. notar_cert_of ss ?h c"
        "map cert_kind cs = notar_cert_kinds ei ss ?h (notar_stake_of ss ?h + ?st)" by blast
    then have ok: "vote_certs_ok ei ss vote cs"
      unfolding vote_certs_ok_def Let_def S [unfolded exact] using VNotar S [unfolded exact] by simp
    have "same_core ?S (store_vote (\<lambda>vv. vv\<lparr>vv_notar := Some n\<rparr>) (vote_signer vote) ss1)"
      using same_core_store [OF c(2), of "\<lambda>vv. vv\<lparr>vv_notar := Some n\<rparr>" "vote_signer vote"]
      by (simp add: vote_stored_def VNotar notar_stored_def notar_counted_def Let_def store_vote_def same_core_def)
    with c ok VNotar show ?thesis
      by (intro that [of "store_vote (\<lambda>vv. vv\<lparr>vv_notar := Some n\<rparr>) (vote_signer vote) ss1" out1 cs])
        (simp_all add: ss_add_vote_def Let_def)
  next
    case (VNotarFallback n)
    let ?h = "nfv_block_hash n"
    have exact: "add64 (nf_stake_of ss ?h) ?st = nf_stake_of ss ?h + ?st"
      using facts VNotarFallback by (auto split: if_splits intro!: slot_inv_nf(2) [OF fits inv])
    have S: "nf_stake_of ?S ?h = add64 (nf_stake_of ss ?h) ?st" "notar_stake_of ?S ?h = notar_stake_of ss ?h"
      by (simp_all add: vote_stored_def VNotarFallback nf_stored_def nf_stake_of_def notar_stake_of_def hm_simps)
    have "nf_stake_of ?S ?h \<le> ei_stakes ei"
      using nf_voters_bound(3) [of ei ?S ?h] fits inv' slot_inv_keys [OF inv']
      by (simp add: ei_fits_def slot_inv_split totals_ok_def)
    then have "nf_stake_of ss ?h + ?st \<le> ei_stakes ei" using exact S by simp
    from count_nf_ok [OF fits inv exact this small, of out] obtain out1 cs where
      c: "count_notar_fallback_stake ss ?h ?st ei out =
            Some (ss\<lparr>nf_stake := hm_insert ?h (nf_stake_of ss ?h + ?st) (nf_stake ss)\<rparr>, out1)"
        "out_certs out1 = out_certs out @ cs" "\<forall>c \<in> set cs. notar_cert_of ss ?h c"
        "map cert_kind cs = (if ei_is_quorum ei (nf_stake_of ss ?h + ?st + notar_stake_of ss ?h) \<and> \<not> is_notar_fallback ss ?h
             then [CERT_TYPE_NOTAR_FALLBACK] else [])" by blast
    then have ok: "vote_certs_ok ei ss vote cs"
      using VNotarFallback S [unfolded exact] by (simp add: vote_certs_ok_def Let_def)
    from c(1,2) [folded exact] ok show ?thesis
      by (intro that [of ?S out1 cs])
        (simp_all add: ss_add_vote_def Let_def vote_stored_def nf_stored_def VNotarFallback)
  next
    case (VSkip s)
    define s0 where "s0 = (store_vote (\<lambda>vv. vv\<lparr>vv_skip := Some s\<rparr>) (vote_signer vote) ss)
                   \<lparr>notar_or_skip_stake := add64 (notar_or_skip_stake ss) ?st\<rparr>"
    have S: "?S = (if False then s0\<lparr>skip_fallback_stake := add64 (skip_fallback_stake s0) ?st\<rparr>
                   else s0\<lparr>skip_stake := add64 (skip_stake s0) ?st\<rparr>)"
      by (simp add: vote_stored_def VSkip skip_stored_def s0_def store_vote_def)
    have "vv_has ?S (vote_signer vote) (\<lambda>vv. vv_skip vv \<noteq> None \<or> vv_skip_fallback vv \<noteq> None)"
      by (simp add: vote_stored_def VSkip skip_stored_def vv_has_store)
    then have "{v. vv_has ?S v (\<lambda>vv. vv_skip vv \<noteq> None \<or> vv_skip_fallback vv \<noteq> None)} \<noteq> {}" by blast
    from count_skip_ok [OF fits S inv' this, of out] obtain ss1 out1 cs where
      c: "count_skip_stake s0 ?st False ei out = Some (ss1, out1)" "same_core ?S ss1" "out_certs out1 = out_certs out @ cs"
        "vote_certs_ok ei ss vote cs" unfolding vote_certs_ok_def Let_def VSkip Vote.case by blast
    then show ?thesis by (intro that [of ss1 out1 cs]) (simp_all add: ss_add_vote_def VSkip s0_def)
  next
    case (VSkipFallback s)
    define s0 where "s0 = store_vote (\<lambda>vv. vv\<lparr>vv_skip_fallback := Some s\<rparr>) (vote_signer vote) ss"
    have S: "?S = (if True then s0\<lparr>skip_fallback_stake := add64 (skip_fallback_stake s0) ?st\<rparr>
                   else s0\<lparr>skip_stake := add64 (skip_stake s0) ?st\<rparr>)"
      by (simp add: vote_stored_def VSkipFallback skip_fallback_stored_def s0_def store_vote_def)
    have "vv_has ?S (vote_signer vote) (\<lambda>vv. vv_skip vv \<noteq> None \<or> vv_skip_fallback vv \<noteq> None)"
      by (simp add: vote_stored_def VSkipFallback skip_fallback_stored_def vv_has_store)
    then have "{v. vv_has ?S v (\<lambda>vv. vv_skip vv \<noteq> None \<or> vv_skip_fallback vv \<noteq> None)} \<noteq> {}" by blast
    from count_skip_ok [OF fits S inv' this, of out] obtain ss1 out1 cs where
      c: "count_skip_stake s0 ?st True ei out = Some (ss1, out1)" "same_core ?S ss1" "out_certs out1 = out_certs out @ cs"
        "vote_certs_ok ei ss vote cs" unfolding vote_certs_ok_def Let_def VSkipFallback Vote.case by blast
    then show ?thesis by (intro that [of ss1 out1 cs]) (simp_all add: ss_add_vote_def VSkipFallback s0_def)
  next
    case (VFinal f)
    define s0 where "s0 = store_vote (\<lambda>vv. vv\<lparr>vv_finalize := Some f\<rparr>) (vote_signer vote) ss"
    have S: "?S = s0\<lparr>finalize_stake := add64 (finalize_stake s0) ?st\<rparr>"
      by (simp add: vote_stored_def VFinal final_stored_def s0_def store_vote_def)
    have "vv_has ?S (vote_signer vote) (\<lambda>vv. vv_finalize vv \<noteq> None)"
      by (simp add: vote_stored_def VFinal final_stored_def vv_has_store)
    then have "{v. vv_has ?S v (\<lambda>vv. vv_finalize vv \<noteq> None)} \<noteq> {}" by blast
    from count_final_ok [OF fits S inv' this, of out] obtain out1 cs where
      c: "count_finalize_stake s0 ?st ei out = Some (?S, out1)" "out_certs out1 = out_certs out @ cs"
        "vote_certs_ok ei ss vote cs" unfolding vote_certs_ok_def Let_def VFinal Vote.case by blast
    then show ?thesis by (intro that [of ?S out1 cs]) (simp_all add: ss_add_vote_def VFinal s0_def)
  qed
qed

lemma add_vote_stored:
  assumes "ei_fits ei" "slot_inv ei ss" "vote_admitted ei ss vote" "\<not> ei_is_quorum ei (stake_at ei (vote_signer vote))"
  obtains ss1 out1 cs where "ss_add_vote ss vote (stake_at ei (vote_signer vote)) ei out = Some (ss1, out1)"
    "same_core (vote_stored ss vote (stake_at ei (vote_signer vote))) ss1" "slot_inv ei ss1"
    "out_certs out1 = out_certs out @ cs" "vote_certs_ok ei ss vote cs"
proof -
  let ?S = "vote_stored ss vote (stake_at ei (vote_signer vote))"
  from add_vote_counted [OF assms, of out] obtain ss1 out1 cs where
    a: "ss_add_vote ss vote (stake_at ei (vote_signer vote)) ei out =
       Some (if vote_signer vote = own_id ss1 then process_pending_safe_to_notar ss1 ei out1 else (ss1, out1))"
    "same_core ?S ss1" "out_certs out1 = out_certs out @ cs" "vote_certs_ok ei ss vote cs" by blast
  obtain ss2 out2 where p: "process_pending_safe_to_notar ss1 ei out1 = (ss2, out2)" by fastforce
  with process_pending_core [of ss1 ei out1] have "same_core ss1 ss2" "out_certs out2 = out_certs out1" by auto
  with a(2,3) have b: "same_core ?S ss2" "out_certs out2 = out_certs out @ cs" by (auto intro: same_core_trans)
  have inv: "slot_inv ei s" if "same_core ?S s" for s
    using vote_stored_inv [OF assms(1-3)] slot_inv_core [OF that] by simp
  show ?thesis
    using that [of ss1 out1 cs] that [of ss2 out2 cs] a(1) [unfolded p] a(2-4) b inv by (auto split: if_splits)
qed

subsection \<open>Runs of a slot\<close>

text \<open>A vote that is added leaves the state with the vote stored, whatever the stake of the voter.\<close>

lemma bind_steps:
  assumes "Some (a, b) = Option.bind f (\<lambda>x. Option.bind (g x) (\<lambda>y. Option.bind (k y) (\<lambda>z. Some (s, z))))"
  obtains x y where "s = a" "f = Some x" "g x = Some y" "k y = Some b"
  using assms [symmetric] by (auto simp: bind_eq_Some_conv)

lemma count_notar_core:
  assumes "count_notar_stake ss h st ei out = Some (ss', out')"
  shows "same_core (notar_counted ss h st) ss'"
  using count_notar_stake_split [of ss h st out ei, unfolded assms] by (elim exE conjE) (erule bind_steps, simp)

lemma count_skip_core:
  assumes "count_skip_stake ss st fb ei out = Some (ss', out')"
  shows "same_core (if fb then ss\<lparr>skip_fallback_stake := add64 (skip_fallback_stake ss) st\<rparr>
                    else ss\<lparr>skip_stake := add64 (skip_stake ss) st\<rparr>) ss'"
proof -
  define S where "S = (if fb then ss\<lparr>skip_fallback_stake := add64 (skip_fallback_stake ss) st\<rparr>
                    else ss\<lparr>skip_stake := add64 (skip_stake ss) st\<rparr>)"
  obtain s1 o1 where p: "process_pending_safe_to_notar S ei out = (s1, o1)" by fastforce
  obtain o2 where "check_safe_to_skip s1 ei o2 = (ss', out')"
    using assms by (auto simp: count_skip_stake_def Let_def S_def [symmetric] p bind_eq_Some_conv)
  then have "same_core s1 ss'" using check_safe_to_skip_core(1) [of s1 ei o2] by simp
  moreover have "same_core S s1" using process_pending_core(1) [of S ei out] p by simp
  ultimately show ?thesis unfolding S_def by (rule same_core_trans [rotated])
qed

lemma add_vote_core:
  assumes "ss_add_vote ss vote st ei out = Some (ss', out')"
  shows "same_core (vote_stored ss vote st) ss'"
proof -
  have own: "same_core t ss'"
    if "(if P then process_pending_safe_to_notar s ei o2 else (s, o2)) = (ss', out')" "same_core t s" for P o2 s t
    using that process_pending_core(1) [of s ei o2] by (auto split: if_splits intro: same_core_trans)
  show ?thesis
  proof (cases vote)
    case (VNotar n)
    have "vote_stored ss vote st = store_vote (\<lambda>vv. vv\<lparr>vv_notar := Some n\<rparr>) (nv_signer n) (notar_counted ss (nv_block_hash n) st)"
      by (simp add: vote_stored_def VNotar notar_stored_def notar_counted_def Let_def store_vote_def)
    then show ?thesis using assms
      by (auto simp: ss_add_vote_def VNotar Let_def bind_eq_Some_conv elim!: own dest!: count_notar_core intro!: same_core_store)
  next
    case (VNotarFallback n)
    then show ?thesis using assms
      by (auto simp: ss_add_vote_def bind_eq_Some_conv count_notar_fallback_stake_def Let_def vote_stored_def nf_stored_def
          nf_stake_of_def elim!: own)
  next
    case (VFinal f)
    then show ?thesis using assms
      by (auto simp: ss_add_vote_def bind_eq_Some_conv count_finalize_stake_def Let_def vote_stored_def final_stored_def
          store_vote_def elim!: own)
  next
    case (VSkip s)
    then show ?thesis using assms
      by (auto simp: ss_add_vote_def Let_def bind_eq_Some_conv vote_stored_def skip_stored_def store_vote_def elim!: own
          dest!: count_skip_core)
  next
    case (VSkipFallback s)
    then show ?thesis using assms
      by (auto simp: ss_add_vote_def Let_def bind_eq_Some_conv vote_stored_def skip_fallback_stored_def store_vote_def elim!: own
          dest!: count_skip_core)
  qed
qed

text \<open>The justification of the sent blocks through a vote: the totals only grow.\<close>

lemma s2n_just_count_notar:
  assumes "s2n_just ei (notar_counted ss h st)" "count_notar_stake ss h st ei out = Some (ss', out')"
  shows "s2n_just ei ss'"
  using count_notar_stake_split [of ss h st out ei, unfolded assms(2)] assms(1)
  by (elim exE conjE) (erule bind_steps, simp)

lemma s2n_just_count_skip:
  assumes "s2n_just ei (if fb then ss\<lparr>skip_fallback_stake := add64 (skip_fallback_stake ss) st\<rparr>
                    else ss\<lparr>skip_stake := add64 (skip_stake ss) st\<rparr>)"
    and "count_skip_stake ss st fb ei out = Some (ss', out')"
  shows "s2n_just ei ss'"
proof -
  define S where "S = (if fb then ss\<lparr>skip_fallback_stake := add64 (skip_fallback_stake ss) st\<rparr>
                    else ss\<lparr>skip_stake := add64 (skip_stake ss) st\<rparr>)"
  obtain s1 o1 where p: "process_pending_safe_to_notar S ei out = (s1, o1)" by fastforce
  obtain o2 where "check_safe_to_skip s1 ei o2 = (ss', out')"
    using assms(2) by (auto simp: count_skip_stake_def Let_def S_def [symmetric] p bind_eq_Some_conv)
  moreover have "s2n_just ei s1" using s2n_just_process [OF assms(1) [folded S_def], of out] p by simp
  ultimately show ?thesis using s2n_just_skip [of ei s1 o2] by simp
qed

lemma s2n_just_add_vote:
  assumes fits: "ei_fits ei" and inv: "slot_inv ei ss" and adm: "vote_admitted ei ss vote" and just: "s2n_just ei ss"
    and run: "ss_add_vote ss vote (stake_at ei (vote_signer vote)) ei out = Some (ss', out')"
  shows "s2n_just ei ss'"
proof -
  let ?st = "stake_at ei (vote_signer vote)"
  note facts = adm [unfolded vote_admitted_def check_slashable_offence_def Let_def]
  have own: "s2n_just ei ss'"
    if "(if P then process_pending_safe_to_notar s ei o2 else (s, o2)) = (ss', out')" "s2n_just ei s" for P o2 s
    using that s2n_just_process [of ei s o2] by (auto split: if_splits)
  show ?thesis
  proof (cases vote)
    case (VNotar n)
    have new: "nv_signer n < length (validators ei)" "nv_slot n = ss_slot ss" "length (nv_sig n) = SIG_SZ"
        "\<not> vv_has ss (nv_signer n) (\<lambda>vv. vv_notar vv \<noteq> None)" "\<not> vv_has ss (nv_signer n) (\<lambda>vv. vv_skip vv \<noteq> None)"
      using facts VNotar by (auto split: if_splits)
    have "s2n_just ei (notar_counted ss (nv_block_hash n) ?st)"
      by (rule s2n_justI [OF just])
         (use slot_inv_notar(2) [OF fits inv new] VNotar in
           \<open>auto simp: notar_counted_def Let_def own_voted_otherwise_def vv_has_def vv_of_def notar_stake_of_def hm_simps\<close>)
    note cnt = s2n_just_count_notar [OF this]
    have "s2n_just ei (store_vote (\<lambda>vv. vv\<lparr>vv_notar := Some n\<rparr>) (nv_signer n) s1)"
      if c: "count_notar_stake ss (nv_block_hash n) ?st ei out = Some (s1, o1)" for s1 o1
      by (rule s2n_just_store [OF cnt [OF c]])
         (use count_notar_core [OF c] new(4) in \<open>simp_all add: same_core_def notar_counted_def Let_def vv_has_def vv_of_def\<close>)
    then show ?thesis using run
      by (auto simp: ss_add_vote_def VNotar Let_def bind_eq_Some_conv elim!: own)
  next
    case (VNotarFallback n)
    have "s2n_just ei (s1\<lparr>nf_votes := x\<rparr>)" if "count_notar_fallback_stake ss h st ei out = Some (s1, o1)" for h st s1 o1 x
      by (rule s2n_justI [OF just], insert that)
         (auto simp: count_notar_fallback_stake_def Let_def bind_eq_Some_conv own_voted_otherwise_def vv_has_def vv_of_def)
    then show ?thesis using run VNotarFallback
      by (auto simp: ss_add_vote_def Let_def bind_eq_Some_conv elim!: own)
  next
    case (VFinal f)
    have "s2n_just ei s1" if "count_finalize_stake s st ei out = Some (s1, o1)" "s2n_just ei s" for s st s1 o1
      by (rule s2n_justI [OF that(2)], insert that(1))
         (auto simp: count_finalize_stake_def Let_def bind_eq_Some_conv own_voted_otherwise_def vv_has_def vv_of_def)
    moreover have "s2n_just ei (store_vote (\<lambda>vv. vv\<lparr>vv_finalize := Some f\<rparr>) v ss)" for v
      by (rule s2n_just_store [OF just]) simp_all
    ultimately show ?thesis using run VFinal
      by (auto simp: ss_add_vote_def Let_def bind_eq_Some_conv elim!: own)
  next
    case (VSkip s)
    let ?S = "skip_stored ss s ?st"
    have "slot_inv ei ?S" using vote_stored_inv [OF fits inv adm] by (simp add: VSkip vote_stored_def)
    moreover have "vote_sum ei (\<lambda>vv. vv_skip vv \<noteq> None) ss \<le> vote_sum ei (\<lambda>vv. vv_skip vv \<noteq> None) ?S"
      using vote_sum_store [OF slot_inv_keys(1) [OF inv], of "\<lambda>vv. vv_skip vv \<noteq> None" ei "\<lambda>vv. vv\<lparr>vv_skip := Some s\<rparr>" "sv_signer s"]
      by (simp add: skip_stored_def split: if_splits)
    ultimately have "skip_stake ss \<le> skip_stake ?S" using inv by (simp add: slot_inv_split totals_ok_def)
    then have le: "skip_stake ss \<le> add64 (skip_stake ss) ?st" by (simp add: skip_stored_def)
    have "s2n_just ei (store_vote (\<lambda>vv. vv\<lparr>vv_skip := Some s\<rparr>) v ss)" for v
      by (rule s2n_just_store [OF just]) simp_all
    then have "s2n_just ei (store_vote (\<lambda>vv. vv\<lparr>vv_skip := Some s\<rparr>) v ss
        \<lparr>notar_or_skip_stake := x, skip_stake := add64 (skip_stake ss) ?st\<rparr>)" for v x
      by (rule s2n_justI) (use le in \<open>simp_all add: own_voted_otherwise_def vv_has_def vv_of_def store_vote_def notar_stake_of_def\<close>)
    then show ?thesis using run VSkip
      by (auto simp: ss_add_vote_def Let_def bind_eq_Some_conv elim!: own dest!: s2n_just_count_skip [rotated])
  next
    case (VSkipFallback s)
    have "s2n_just ei (store_vote (\<lambda>vv. vv\<lparr>vv_skip_fallback := Some s\<rparr>) v ss)" for v
      by (rule s2n_just_store [OF just]) simp_all
    then have "s2n_just ei (store_vote (\<lambda>vv. vv\<lparr>vv_skip_fallback := Some s\<rparr>) v ss\<lparr>skip_fallback_stake := x\<rparr>)" for v x
      by (rule s2n_justI) (simp_all add: own_voted_otherwise_def vv_has_def vv_of_def)
    then show ?thesis using run VSkipFallback
      by (auto simp: ss_add_vote_def Let_def bind_eq_Some_conv elim!: own dest!: s2n_just_count_skip [rotated])
  qed
qed

lemma events_ok_count_notar:
  assumes ok: "events_ok ss out" and run: "count_notar_stake ss h st ei out = Some (ss', out')"
  shows "events_ok ss' out'"
  using count_notar_stake_split [of ss h st out ei, unfolded run] ok
  by (elim exE conjE) (erule bind_steps, erule (1) events_ok_cong [OF mp],
      auto simp: push_nf_cert_def split: if_splits dest!: push_cert_events)

lemma events_ok_add_vote:
  assumes ok: "events_ok ss out" and run: "ss_add_vote ss vote st ei out = Some (ss', out')"
  shows "events_ok ss' out'"
proof -
  have own: "events_ok ss' out'"
    if "(if P then process_pending_safe_to_notar s ei o2 else (s, o2)) = (ss', out')" "events_ok s o2" for P o2 s
    using that events_ok_process [of s o2 ei] by (auto split: if_splits)
  have keep: "events_ok (store_vote f v s) o2" if "events_ok s o2" for f v s o2
    by (rule events_ok_cong [OF that]) (simp_all add: store_vote_def)
  have skip: "events_ok s1 o1" if "count_skip_stake s st fb ei out = Some (s1, o1)" "events_ok s out" for s s1 o1 fb
  proof -
    define S where "S = (if fb then s\<lparr>skip_fallback_stake := add64 (skip_fallback_stake s) st\<rparr>
                    else s\<lparr>skip_stake := add64 (skip_stake s) st\<rparr>)"
    obtain s2 o2 where p: "process_pending_safe_to_notar S ei out = (s2, o2)" by fastforce
    have "events_ok s2 o2" by (rule events_ok_process [OF _ p], rule events_ok_cong [OF that(2)]) (simp_all add: S_def)
    with that(1) show ?thesis
      by (auto simp: count_skip_stake_def Let_def S_def [symmetric] p bind_eq_Some_conv split: if_splits
          intro: events_ok_skip dest: events_ok_push)
  qed
  show ?thesis
  proof (cases vote)
    case (VNotar n)
    then show ?thesis using run ok
      by (auto simp: ss_add_vote_def Let_def bind_eq_Some_conv elim!: own intro!: keep dest: events_ok_count_notar)
  next
    case (VNotarFallback n)
    have "events_ok s1 o1" if "count_notar_fallback_stake ss h st ei out = Some (s1, o1)" for h s1 o1
      by (rule events_ok_cong [OF ok], insert that)
        (auto simp: count_notar_fallback_stake_def Let_def bind_eq_Some_conv push_nf_cert_def
          dest!: push_cert_events split: if_splits)
    then show ?thesis using run VNotarFallback
      by (auto simp: ss_add_vote_def Let_def bind_eq_Some_conv elim!: own) (fastforce intro: events_ok_cong)
  next
    case (VFinal f)
    have "events_ok s1 o1" if "count_finalize_stake s st ei out = Some (s1, o1)" "events_ok s out" for s s1 o1
      by (rule events_ok_cong [OF that(2)], insert that(1))
        (auto simp: count_finalize_stake_def Let_def bind_eq_Some_conv dest!: push_cert_events split: if_splits)
    then show ?thesis using run keep [OF ok] VFinal
      by (auto simp: ss_add_vote_def Let_def bind_eq_Some_conv elim!: own)
  next
    case (VSkip s)
    have "events_ok (store_vote f v ss\<lparr>notar_or_skip_stake := x\<rparr>) out" for f v x
      by (rule events_ok_cong [OF ok]) (simp_all add: store_vote_def)
    then show ?thesis using run VSkip skip
      by (auto simp: ss_add_vote_def Let_def bind_eq_Some_conv elim!: own)
  next
    case (VSkipFallback s)
    then show ?thesis using run keep [OF ok] skip
      by (auto simp: ss_add_vote_def Let_def bind_eq_Some_conv elim!: own)
  qed
qed

text \<open>The calls that change a slot state, with the outputs they append to.\<close>

definition notify_output :: "NotifyParent \<Rightarrow> SlotStateOutputs \<Rightarrow> SlotStateOutputs" where
  "notify_output r out =
     (case r of
        NotifyEvent e \<Rightarrow> out\<lparr>out_events := out_events out @ [e]\<rparr>
      | NotifyRepair b \<Rightarrow> out\<lparr>out_repairs := out_repairs out @ [b]\<rparr>
      | NotifyNone \<Rightarrow> out)"

inductive slot_step :: "EpochInfo \<Rightarrow> SlotState \<times> SlotStateOutputs \<Rightarrow> SlotState \<times> SlotStateOutputs \<Rightarrow> bool"
  for ei where
  slot_vote: "\<lbrakk>vote_admitted ei ss vote; ss_add_vote ss vote (stake_at ei (vote_signer vote)) ei out = Some (ss', out')\<rbrakk>
     \<Longrightarrow> slot_step ei (ss, out) (ss', out')"
| slot_cert: "slot_step ei (ss, out) (ss_add_cert ss c, out)"
| slot_known: "slot_step ei (ss, out) (notify_parent_known ss h, out)"
| slot_certified: "notify_parent_certified ss h ei = Some (ss', r) \<Longrightarrow> slot_step ei (ss, out) (ss', notify_output r out)"

inductive_cases slot_stepE: "slot_step ei s t"

definition slot_run_inv :: "EpochInfo \<Rightarrow> SlotState \<times> SlotStateOutputs \<Rightarrow> bool" where
  "slot_run_inv ei s \<longleftrightarrow>
     ei_fits ei \<and> slot_inv ei (fst s) \<and> events_ok (fst s) (snd s) \<and> s2n_just ei (fst s)"

lemma slot_inv_parents [simp]: "slot_inv ei (ss\<lparr>parents := p\<rparr>) = slot_inv ei ss"
  by (simp add: slot_inv_def vote_sum_def nf_sum_def notar_stake_of_def nf_stake_of_def vv_has_def vv_of_def)

lemma slot_inv_certs [simp]: "slot_inv ei (ss\<lparr>ss_certs := c\<rparr>) = slot_inv ei ss"
  by (simp add: slot_inv_def vote_sum_def nf_sum_def notar_stake_of_def nf_stake_of_def vv_has_def vv_of_def)

lemma slot_inv_add_cert: "slot_inv ei ss \<Longrightarrow> slot_inv ei (ss_add_cert ss c)"
  by (cases c) simp_all

lemma events_ok_certified:
  assumes "events_ok ss out" "notify_parent_certified ss h ei = Some (ss', r)"
  shows "events_ok ss' (notify_output r out)"
proof -
  define s0 where "s0 = ss\<lparr>parents := hm_insert h Certified (parents ss)\<rparr>"
  have ok: "events_ok s0 out" by (rule events_ok_cong [OF assms(1)]) (simp_all add: s0_def)
  obtain s1 q where c: "check_safe_to_notar s0 h ei = (s1, q)" by fastforce
  show ?thesis
    using assms(2) ok events_ok_s2n [OF ok _ c] c
    by (auto simp: notify_parent_certified_def Let_def s0_def [symmetric] notify_output_def s2n_output_def
        split: if_splits S2n.splits)
qed

lemma slot_inv_certified:
  assumes "slot_inv ei ss" "notify_parent_certified ss h ei = Some (ss', r)"
  shows "slot_inv ei ss'"
proof -
  define s0 where "s0 = ss\<lparr>parents := hm_insert h Certified (parents ss)\<rparr>"
  have "slot_inv ei s0" using assms(1) by (simp add: s0_def)
  moreover have "slot_inv ei (fst (check_safe_to_notar s0 h ei)) \<longleftrightarrow> slot_inv ei s0"
    by (rule slot_inv_core [OF check_safe_to_notar_core])
  ultimately show ?thesis using assms(2)
    by (auto simp: notify_parent_certified_def Let_def s0_def [symmetric] split: if_splits prod.splits)
qed

lemma s2n_just_certified:
  assumes "s2n_just ei ss" "notify_parent_certified ss h ei = Some (ss', r)"
  shows "s2n_just ei ss'"
proof -
  define s0 where "s0 = ss\<lparr>parents := hm_insert h Certified (parents ss)\<rparr>"
  have "s2n_just ei s0"
    by (rule s2n_justI [OF assms(1)])
       (simp_all add: s0_def own_voted_otherwise_def vv_has_def vv_of_def notar_stake_of_def hm_simps)
  then show ?thesis using assms(2) s2n_just_check [of ei s0 h]
    by (auto simp: notify_parent_certified_def Let_def s0_def [symmetric] split: if_splits prod.splits)
qed

lemma s2n_just_add_cert: "s2n_just ei ss \<Longrightarrow> s2n_just ei (ss_add_cert ss c)"
  by (erule s2n_justI; cases c) (simp_all add: own_voted_otherwise_def vv_has_def vv_of_def notar_stake_of_def)

lemma s2n_just_known: "s2n_just ei ss \<Longrightarrow> s2n_just ei (notify_parent_known ss h)"
  by (erule s2n_justI)
     (auto simp: notify_parent_known_def own_voted_otherwise_def vv_has_def vv_of_def notar_stake_of_def hm_simps)

lemma slot_step_inv:
  assumes inv: "slot_run_inv ei s" and step: "slot_step ei s t"
  shows "slot_run_inv ei t"
  using step
proof cases
  case (slot_vote ss vote out ss' out')
  have "slot_inv ei (vote_stored ss vote (stake_at ei (vote_signer vote)))"
    using vote_stored_inv inv slot_vote by (simp add: slot_run_inv_def)
  moreover have "s2n_just ei ss'"
    using s2n_just_add_vote [OF _ _ slot_vote(3) _ slot_vote(4)] inv slot_vote(1) by (simp add: slot_run_inv_def)
  ultimately show ?thesis
    using slot_inv_core [OF add_vote_core [OF slot_vote(4)]] events_ok_add_vote [OF _ slot_vote(4)] inv slot_vote(1,2)
    by (simp add: slot_run_inv_def)
next
  case (slot_cert ss out c)
  then show ?thesis 
    using inv slot_inv_add_cert [of ei ss c] s2n_just_add_cert [of ei ss c]
    by (cases c) (auto simp: slot_run_inv_def elim!: events_ok_cong)
next
  case (slot_known ss out h)
  then show ?thesis using inv s2n_just_known [of ei ss h]
    by (auto simp: slot_run_inv_def) (auto simp: notify_parent_known_def elim!: events_ok_cong)
next
  case (slot_certified ss h ss' r out)
  then show ?thesis using inv slot_inv_certified events_ok_certified s2n_just_certified by (auto simp: slot_run_inv_def)
qed

interpretation slot_run: invariant_steps "slot_step ei" "slot_run_inv ei" for ei
  by unfold_locales (rule slot_step_inv)

lemma slot_state_new_inv: "slot_inv ei (slot_state_new s own)" "events_ok (slot_state_new s own) outputs_empty"
  "s2n_just ei (slot_state_new s own)"
  by (simp_all add: s2n_just_def slot_inv_split votes_ok_def totals_ok_def slot_state_new_def notar_stake_of_def nf_stake_of_def vote_sum_def
      nf_sum_def hm_get_or_def events_ok_def outputs_empty_def)

subsection \<open>Properties\<close>

text \<open>
  C4. On every run of a slot from \<open>slot_state_new\<close>, in which the pool adds votes that pass its
  guards, certificates and parent notifications in any order: the stored votes of a validator never
  contain a slashable pair, every running stake total equals the sum of the stakes of the validators
  whose votes it counts (so no total ever wraps), the stake of the best supported block is the maximum of the
  notarization totals, and no safe-to-notar or safe-to-skip event is raised twice.
\<close>

theorem slot_run_consistent:
  assumes "ei_fits ei" "(slot_step ei)\<^sup>*\<^sup>* (slot_state_new s own, outputs_empty) (ss, out)"
  shows "slot_inv ei ss \<and> distinct (out_events out)"
proof -
  have "slot_run_inv ei (slot_state_new s own, outputs_empty)"
    using assms(1) slot_state_new_inv by (simp add: slot_run_inv_def)
  from slot_run.run_inv [OF assms(2) this] show ?thesis by (simp add: slot_run_inv_def events_ok_def)
qed

definition sample_skip :: "nat \<Rightarrow> SkipVote" where
  "sample_skip i = \<lparr>sv_slot = 9, sv_sig = replicate SIG_SZ 0, sv_signer = i\<rparr>"

lemma sample_fits: "ei_fits sample_epoch"
  using sample_epoch_wf by (simp add: ei_fits_def agg_consts sample_epoch_def sample_validator_def u64_max_def)

lemma sample_stakes:
  "stake_at sample_epoch 0 = 30" "stake_at sample_epoch (Suc 0) = 30" "stake_at sample_epoch 2 = 40"
  "length (validators sample_epoch) = 3" "ei_total_stake sample_epoch = 100"
  by (simp_all add: stake_at_def sample_epoch_def sample_validator_def)

lemma sample_quorum: "ei_is_quorum sample_epoch st \<longleftrightarrow> 60 \<le> st"
  by (simp add: ei_quorum_defs quorum_defs sample_stakes)

lemma sample_skip_admitted:
  assumes "i < 3"
  shows "vote_admitted sample_epoch (slot_state_new 9 own) (VSkip (sample_skip i))"
  using assms by (simp add: vote_admitted_def sample_stakes sample_skip_def slot_state_new_def check_slashable_offence_def
      Let_def vv_has_def vv_of_def)

theorem slot_run_consistent_witness:
  "\<exists>ss out. (slot_step sample_epoch)\<^sup>*\<^sup>* (slot_state_new 9 0, outputs_empty) (ss, out) \<and> skip_stake ss = 40 \<and>
     slot_inv sample_epoch ss \<and> distinct (out_events out)"
proof -
  let ?v = "VSkip (sample_skip 2)" and ?s = "slot_state_new 9 0"
  have st: "stake_at sample_epoch (vote_signer ?v) = 40" by (simp add: sample_skip_def sample_stakes)
  have small: "\<not> ei_is_quorum sample_epoch (stake_at sample_epoch (vote_signer ?v))" unfolding st sample_quorum by simp
  have adm: "vote_admitted sample_epoch ?s ?v" by (rule sample_skip_admitted) simp
  obtain ss out cs where
    a: "ss_add_vote ?s ?v (stake_at sample_epoch (vote_signer ?v)) sample_epoch outputs_empty = Some (ss, out)"
      "same_core (vote_stored ?s ?v (stake_at sample_epoch (vote_signer ?v))) ss" "slot_inv sample_epoch ss"
      "out_certs out = out_certs outputs_empty @ cs" "vote_certs_ok sample_epoch ?s ?v cs"
    by (rule add_vote_stored [OF sample_fits slot_state_new_inv(1) adm small])
  have run: "(slot_step sample_epoch)\<^sup>*\<^sup>* (?s, outputs_empty) (ss, out)"
    by (rule r_into_rtranclp, rule slot_vote [OF adm a(1)])
  have "skip_stake ss = 40"
    using a(2) [unfolded st] by (simp add: same_core_def vote_stored_def skip_stored_def slot_state_new_def add64_def)
  with run slot_run_consistent [OF sample_fits run] show ?thesis by blast
qed

text \<open>
  C27. A vote that passes the guards, from a validator with less than 60\% of the stake, is always
  counted without a panic. The new state is the old one with the vote stored and its stake added to the
  totals, up to the safe-to-notar and safe-to-skip bookkeeping, and the
  invariant is kept. A skip or finalization vote creates a certificate exactly
  when the total including it reaches 60\% and the slot has none, and
  this certificate passes its own threshold check. A notarization or notar-fallback vote creates exactly the
  certificates whose threshold the new totals reach, signed by exactly the validators whose
  votes for the block were stored before.
\<close>

theorem add_vote_outcome:
  assumes "ei_fits ei" "slot_inv ei ss" "vote_admitted ei ss vote" "\<not> ei_is_quorum ei (stake_at ei (vote_signer vote))"
  shows "\<exists>ss' out' cs. ss_add_vote ss vote (stake_at ei (vote_signer vote)) ei out = Some (ss', out') \<and>
           same_core (vote_stored ss vote (stake_at ei (vote_signer vote))) ss' \<and> slot_inv ei ss' \<and>
           out_certs out' = out_certs out @ cs \<and> vote_certs_ok ei ss vote cs"
  by (rule add_vote_stored [OF assms, of out]) blast

theorem add_vote_outcome_witness:
  "\<exists>ss' out'. ss_add_vote (slot_state_new 9 0) (VSkip (sample_skip 1)) 30 sample_epoch outputs_empty = Some (ss', out') \<and>
     skip_stake ss' = 30 \<and> out_certs out' = []"
proof -
  let ?v = "VSkip (sample_skip 1)" and ?s = "slot_state_new 9 0"
  have st: "stake_at sample_epoch (vote_signer ?v) = 30" by (simp add: sample_skip_def sample_stakes)
  have "skip_stake (vote_stored ?s ?v 30) + skip_fallback_stake (vote_stored ?s ?v 30) = 30"
    by (simp add: vote_stored_def skip_stored_def slot_state_new_def add64_def)
  then have "vote_certs_ok sample_epoch ?s ?v cs \<Longrightarrow> cs = []" for cs
    unfolding vote_certs_ok_def Let_def st sample_quorum by simp
  moreover have "skip_stake s' = 30" if "same_core (vote_stored ?s ?v 30) s'" for s'
    using that by (simp add: same_core_def vote_stored_def skip_stored_def slot_state_new_def add64_def)
  ultimately show ?thesis
    using add_vote_outcome [OF sample_fits slot_state_new_inv(1) sample_skip_admitted [of 1], of 0 outputs_empty]
    unfolding st sample_quorum by (fastforce simp: outputs_empty_def)
qed

text \<open>
  C29. The notarization certificate created by the vote that makes a block cross 60\% is signed by the earlier voters
  only, because it is built before the vote is stored: it lacks the vote that completed the quorum and
  fails its own threshold check.
\<close>

theorem crossing_notar_cert_below_threshold:
  assumes fits: "ei_fits ei" and inv: "slot_inv ei ss" and adm: "vote_admitted ei ss (VNotar n)"
    and small: "\<not> ei_is_quorum ei (stake_at ei (nv_signer n))" and none: "sc_notar (ss_certs ss) = None"
    and before: "\<not> ei_is_quorum ei (notar_stake_of ss (nv_block_hash n))"
    and after: "ei_is_quorum ei (notar_stake_of ss (nv_block_hash n) + stake_at ei (nv_signer n))"
  shows "\<exists>ss' out' c. ss_add_vote ss (VNotar n) (stake_at ei (nv_signer n)) ei outputs_empty = Some (ss', out') \<and>
           CNotar c \<in> set (out_certs out') \<and> \<not> cert_is_signer (CNotar c) (nv_signer n) \<and>
           signed_stake (CNotar c) ei = notar_stake_of ss (nv_block_hash n) \<and> \<not> cert_check_threshold (CNotar c) ei"
proof -
  let ?h = "nv_block_hash n" and ?S = "vote_stored ss (VNotar n) (stake_at ei (nv_signer n))"
  have new: "\<not> vv_has ss (nv_signer n) (\<lambda>vv. vv_notar vv \<noteq> None)" using adm by (simp add: vote_admitted_def)
  have small': "\<not> ei_is_quorum ei (stake_at ei (vote_signer (VNotar n)))" using small by simp
  obtain ss' out' cs where
    "ss_add_vote ss (VNotar n) (stake_at ei (vote_signer (VNotar n))) ei outputs_empty = Some (ss', out')"
    "same_core (vote_stored ss (VNotar n) (stake_at ei (vote_signer (VNotar n)))) ss'" "slot_inv ei ss'"
    "out_certs out' = out_certs outputs_empty @ cs" "vote_certs_ok ei ss (VNotar n) cs"
    by (rule add_vote_stored [OF fits inv adm small'])
  then have run: "ss_add_vote ss (VNotar n) (stake_at ei (nv_signer n)) ei outputs_empty = Some (ss', out')"
    and ok: "vote_certs_ok ei ss (VNotar n) (out_certs out')" by (simp_all add: outputs_empty_def)
  have "notar_stake_of ?S ?h = notar_stake_of ss ?h + stake_at ei (nv_signer n)"
    using slot_inv_notar(2) [OF fits inv, of n] adm
    by (simp add: vote_stored_def notar_stored_def Let_def notar_stake_of_def hm_simps vote_admitted_def check_slashable_offence_def
        split: if_splits)
  with ok have kinds: "map cert_kind (out_certs out') = notar_cert_kinds ei ss ?h (notar_stake_of ss ?h + stake_at ei (nv_signer n))"
    and certs: "\<forall>c \<in> set (out_certs out'). notar_cert_of ss ?h c" by (simp_all add: vote_certs_ok_def Let_def)
  have "CERT_TYPE_NOTAR \<in> set (map cert_kind (out_certs out'))"
    unfolding kinds using after none by (simp add: notar_cert_kinds_def)
  then obtain d where d: "d \<in> set (out_certs out')" "cert_kind d = CERT_TYPE_NOTAR" by auto
  from d(2) obtain c where "d = CNotar c"
    by (cases d) (simp_all add: CERT_TYPE_NOTAR_def CERT_TYPE_NOTAR_FALLBACK_def CERT_TYPE_SKIP_def CERT_TYPE_FAST_FINAL_def
        CERT_TYPE_FINAL_def)
  with d(1) have c: "CNotar c \<in> set (out_certs out')" by simp
  with certs have signers: "cert_is_signer (CNotar c) i \<longleftrightarrow> vv_has ss i (notar_for ?h)" for i
    by (auto simp: notar_cert_of_def CERT_TYPE_NOTAR_def CERT_TYPE_NOTAR_FALLBACK_def)
  have "\<not> cert_is_signer (CNotar c) (nv_signer n)"
    using new unfolding signers by (auto simp: vv_has_def notar_for_def split: option.splits)
  moreover have "signed_stake (CNotar c) ei = notar_stake_of ss ?h"
    using signed_stake_voters(1) [OF fits inv signers] inv by (simp add: slot_inv_split totals_ok_def)
  ultimately show ?thesis using run c before by (auto simp: cert_check_threshold_def)
qed

lemma sample_notar_admitted:
  assumes "i < 3" "ss_slot ss = 9" "\<not> vv_has ss i (\<lambda>_. True)"
  shows "vote_admitted sample_epoch ss (VNotar (sample_notar i h))"
proof -
  have "vv_of ss i = None" using assms(3) by (simp add: vv_has_def split: option.splits)
  then show ?thesis
    using assms(1,2) by (simp add: vote_admitted_def sample_stakes sample_notar_def check_slashable_offence_def
      Let_def vv_has_def agg_consts)
qed

theorem crossing_notar_cert_below_threshold_witness:
  "\<exists>ss out ss' out' c. ss_add_vote (slot_state_new 9 1) (VNotar (sample_notar 0 7)) 30 sample_epoch outputs_empty = Some (ss, out) \<and>
     ss_add_vote ss (VNotar (sample_notar 2 7)) 40 sample_epoch outputs_empty = Some (ss', out') \<and>
     CNotar c \<in> set (out_certs out') \<and> \<not> cert_is_signer (CNotar c) 2 \<and> \<not> cert_check_threshold (CNotar c) sample_epoch"
proof -
  let ?v = "VNotar (sample_notar 0 7)" and ?w = "sample_notar 2 7" and ?s = "slot_state_new 9 1"
  have st: "stake_at sample_epoch (vote_signer ?v) = 30" "stake_at sample_epoch (nv_signer ?w) = 40"
    by (simp_all add: sample_notar_def sample_stakes)
  have adm: "vote_admitted sample_epoch ?s ?v"
    by (rule sample_notar_admitted) (simp_all add: slot_state_new_def vv_has_def vv_of_def)
  have small: "\<not> ei_is_quorum sample_epoch (stake_at sample_epoch (vote_signer ?v))" unfolding st sample_quorum by simp
  obtain ss out cs where
    a: "ss_add_vote ?s ?v (stake_at sample_epoch (vote_signer ?v)) sample_epoch outputs_empty = Some (ss, out)"
      "same_core (vote_stored ?s ?v (stake_at sample_epoch (vote_signer ?v))) ss" "slot_inv sample_epoch ss"
      "out_certs out = out_certs outputs_empty @ cs" "vote_certs_ok sample_epoch ?s ?v cs"
    by (rule add_vote_stored [OF sample_fits slot_state_new_inv(1) adm small])
  have s: "ss_slot ss = 9" "sc_notar (ss_certs ss) = None" "notar_stake_of ss (nv_block_hash ?w) = 30" "\<not> vv_has ss 2 (\<lambda>_. True)"
    using a(2) [unfolded st] by (simp_all add: same_core_def vote_stored_def notar_stored_def Let_def slot_state_new_def notar_stake_of_def
        hm_simps sample_notar_def vv_has_def vv_of_def add64_def store_vote_def hm_get_or_def)
  have adm2: "vote_admitted sample_epoch ss (VNotar ?w)" by (rule sample_notar_admitted) (use s in simp_all)
  have q: "\<not> ei_is_quorum sample_epoch (stake_at sample_epoch (nv_signer ?w))"
    "\<not> ei_is_quorum sample_epoch (notar_stake_of ss (nv_block_hash ?w))"
    "ei_is_quorum sample_epoch (notar_stake_of ss (nv_block_hash ?w) + stake_at sample_epoch (nv_signer ?w))"
    unfolding st s sample_quorum by simp_all
  have "nv_signer ?w = 2" by (simp add: sample_notar_def)
  with crossing_notar_cert_below_threshold [OF sample_fits a(3) adm2 q(1) s(2) q(2,3)] a(1) [unfolded st] st(2) show ?thesis by auto
qed

text \<open>
  C30. A notarization vote of a validator that holds 60\% of the stake alone panics when no vote for its block is stored:
  the certificate is built from an empty list of votes.
\<close>

theorem lone_quorum_vote_panics:
  assumes "ei_fits ei" "slot_inv ei ss" "\<forall>v. \<not> vv_has ss v (notar_for (nv_block_hash n))"
    and "\<forall>v. hm_get (nf_votes ss) (v, nv_block_hash n) = None" "\<not> is_notar_fallback ss (nv_block_hash n)"
    and "nv_signer n < length (validators ei)" and quorum: "ei_is_quorum ei (stake_at ei (nv_signer n))"
  shows "ss_add_vote ss (VNotar n) (stake_at ei (nv_signer n)) ei out = None"
proof -
  let ?h = "nv_block_hash n" and ?st = "stake_at ei (nv_signer n)"
  have empty: "collect_notar ss ?h = []" "collect_nf ss ?h = []"
    using assms(3,4) collect_notar_ok(2) [OF assms(1,2), of ?h] collect_nf_ok(2) [OF assms(1,2), of ?h] by auto
  then have zero: "notar_stake_of ss ?h = 0" "nf_stake_of ss ?h = 0"
    using collect_notar_empty collect_nf_empty assms(1,2) by auto
  have "?st \<le> ei_stakes ei"
    using stake_sum_le [of ei "[nv_signer n]"] assms(1,6) by (simp add: ei_fits_def)
  then have small: "?st < 2 ^ 64" using assms(1) by (simp add: ei_fits_def u64_max_def)
  obtain ss1 out1 where split: "same_core (notar_counted ss ?h ?st) ss1"
    "push_nf_cert ss1 ?h (add64 (nf_stake_of ss1 ?h) (add64 (notar_stake_of ss ?h) ?st)) ei out1 = None \<longrightarrow>
       count_notar_stake ss ?h ?st ei out = None"
    using count_notar_stake_split [of ss ?h ?st out ei] by fastforce
  from split(1) have "same_votes ss ss1" "nf_stake_of ss1 ?h = 0"
    using zero(2) by (simp_all add: same_core_def same_votes_def notar_counted_def Let_def nf_stake_of_def)
  with same_votes_collect have "push_nf_cert ss1 ?h (add64 (nf_stake_of ss1 ?h) (add64 (notar_stake_of ss ?h) ?st)) ei out1 = None"
    using zero small quorum assms(5) empty
    by (simp add: push_nf_cert_def push_cert_def notar_fallback_cert_try_new_def add64_def)
  with split(2) show ?thesis by (simp add: ss_add_vote_def)
qed

definition sample_pair :: EpochInfo where
  "sample_pair = \<lparr>validators = [sample_validator 0 70, sample_validator 1 30], ei_total_stake = 100\<rparr>"

theorem lone_quorum_vote_panics_witness:
  "ss_add_vote (slot_state_new 9 1) (VNotar (sample_notar 0 7)) 70 sample_pair outputs_empty = None"
proof -
  have fits: "ei_fits sample_pair"
    by (simp add: ei_fits_def ei_wf_def sample_pair_def sample_validator_def u64_max_def agg_consts less_Suc_eq nth_Cons')
  have st: "stake_at sample_pair (nv_signer (sample_notar 0 7)) = 70"
    by (simp add: stake_at_def sample_pair_def sample_validator_def sample_notar_def)
  have "ei_is_quorum sample_pair (stake_at sample_pair (nv_signer (sample_notar 0 7)))"
    unfolding st by (simp add: ei_quorum_defs quorum_defs sample_pair_def)
  then show ?thesis
    using lone_quorum_vote_panics [OF fits slot_state_new_inv(1) [of _ 9 1], of "sample_notar 0 7" outputs_empty] st
    by (simp add: slot_state_new_def vv_has_def vv_of_def is_notar_fallback_def sample_pair_def sample_notar_def)
qed

text \<open>
  C28. On every run of a slot from \<open>slot_state_new\<close>, in which the pool adds votes that pass its guards,
  certificates and parent notifications in any order, every safe-to-notar event in the outputs is for a
  block of this slot and is justified by the state reached, not only at the moment it was raised: the
  parent of the block is certified, the own validator's stored votes contain a skip vote or a
  notarization vote for another block, and the validators whose stored votes are for the block hold
  40\% of the stake, or 20\% and together with those that voted to skip 60\%.
\<close>

theorem safe_to_notar_justified:
  assumes "ei_fits ei" "(slot_step ei)\<^sup>*\<^sup>* (slot_state_new s own, outputs_empty) (ss, out)"
    and "SafeToNotar b \<in> set (out_events out)"
  shows "bslot b = ss_slot ss \<and> hm_get (parents ss) (bhash b) = Some Certified \<and>
     vv_has ss (own_id ss mod 2 ^ 16)
       (\<lambda>vv. vv_skip vv \<noteq> None \<or> (\<exists>n. vv_notar vv = Some n \<and> nv_block_hash n \<noteq> bhash b)) \<and>
     (let ns = vote_sum ei (notar_for (bhash b)) ss; sk = vote_sum ei (\<lambda>vv. vv_skip vv \<noteq> None) ss in
      ei_is_weak_quorum ei ns \<or> ei_is_weakest_quorum ei ns \<and> ei_is_quorum ei (ns + sk))"
proof -
  have "slot_run_inv ei (slot_state_new s own, outputs_empty)"
    using assms(1) slot_state_new_inv by (simp add: slot_run_inv_def)
  from slot_run.run_inv [OF assms(2) this]
  have inv: "slot_inv ei ss" "events_ok ss out" "s2n_just ei ss" by (simp_all add: slot_run_inv_def)
  have b: "bslot b = ss_slot ss" "bhash b \<in> set (sent_s2n ss)" using inv(2) assms(3) by (auto simp: events_ok_def)
  have "notar_stake_of ss (bhash b) = vote_sum ei (notar_for (bhash b)) ss"
    "skip_stake ss = vote_sum ei (\<lambda>vv. vv_skip vv \<noteq> None) ss" using inv(1) by (simp_all add: slot_inv_split totals_ok_def)
  then show ?thesis using inv(3) b by (auto simp: s2n_just_def own_voted_otherwise_def s2n_stake_ok_def Let_def)
qed

text \<open>
  The own validator 0 skips, validator 2 votes for a block, and then the parent of the block becomes known
  and certified: the event is raised.
\<close>

theorem safe_to_notar_justified_witness:
  "\<exists>ss out. (slot_step sample_epoch)\<^sup>*\<^sup>* (slot_state_new 9 0, outputs_empty) (ss, out) \<and>
     SafeToNotar (block_id 9 (replicate 32 7)) \<in> set (out_events out) \<and>
     hm_get (parents ss) (replicate 32 7) = Some Certified"
proof -
  let ?h = "replicate 32 7 :: BlockHash" and ?new = "slot_state_new 9 0"
  let ?v = "VSkip (sample_skip 0)" and ?w = "VNotar (sample_notar 2 7)"
  have st: "stake_at sample_epoch (vote_signer ?v) = 30" "stake_at sample_epoch (vote_signer ?w) = 40"
    by (simp_all add: sample_skip_def sample_notar_def sample_stakes)
  have adm: "vote_admitted sample_epoch ?new ?v" by (rule sample_skip_admitted) simp
  obtain s1 o1 cs where a: "ss_add_vote ?new ?v (stake_at sample_epoch (vote_signer ?v)) sample_epoch outputs_empty = Some (s1, o1)"
      "same_core (vote_stored ?new ?v (stake_at sample_epoch (vote_signer ?v))) s1" "slot_inv sample_epoch s1"
    by (rule add_vote_stored [OF sample_fits slot_state_new_inv(1) adm]) (simp_all add: st sample_quorum del: vote_signer.simps)
  have core1: "ss_slot s1 = 9" "own_id s1 = 0" "parents s1 = []" "nf_votes s1 = []" "notar_stake s1 = []"
    "ss_votes s1 = [(0, vv_default\<lparr>vv_skip := Some (sample_skip 0)\<rparr>)]"
    using a(2) [unfolded st] by (simp_all add: same_core_def vote_stored_def skip_stored_def slot_state_new_def store_vote_def
        hm_get_or_def sample_skip_def)
  have adm2: "vote_admitted sample_epoch s1 ?w"
    by (rule sample_notar_admitted) (simp_all add: vv_has_def vv_of_def core1)
  obtain s2 o2 cs2 where c: "ss_add_vote s1 ?w (stake_at sample_epoch (vote_signer ?w)) sample_epoch o1 = Some (s2, o2)"
      "same_core (vote_stored s1 ?w (stake_at sample_epoch (vote_signer ?w))) s2"
    by (rule add_vote_stored [OF sample_fits a(3) adm2]) (simp_all add: st sample_quorum del: vote_signer.simps)
  have core2: "ss_slot s2 = 9" "own_id s2 = 0" "parents s2 = []" "notar_stake s2 = [(?h, 40)]"
    "hm_get (ss_votes s2) 0 = Some (vv_default\<lparr>vv_skip := Some (sample_skip 0)\<rparr>)"
    using c(2) [unfolded st] by (simp_all add: same_core_def vote_stored_def notar_stored_def Let_def store_vote_def core1
        sample_notar_def notar_stake_of_def hm_get_or_def add64_def)
  have run2: "(slot_step sample_epoch)\<^sup>*\<^sup>* (?new, outputs_empty) (s2, o2)"
    using slot_vote [OF adm a(1)] slot_vote [OF adm2 c(1)] by (meson r_into_rtranclp rtranclp.rtrancl_into_rtrancl)
  have "slot_run_inv sample_epoch (s2, o2)"
    by (rule slot_run.run_inv [OF run2]) (simp add: slot_run_inv_def sample_fits slot_state_new_inv)
  then have unsent: "?h \<notin> set (sent_s2n s2)" using core2(3) by (auto simp: slot_run_inv_def s2n_just_def)
  define s3 where "s3 = notify_parent_known s2 ?h"
  define s4 where "s4 = s2\<lparr>parents := [(?h, Certified)]\<rparr>"
  have s3: "s3 = s2\<lparr>parents := [(?h, Known)]\<rparr>" by (simp add: s3_def notify_parent_known_def core2)
  have "snd (check_safe_to_notar s4 ?h sample_epoch) = S2nSafeToNotar"
    by (simp add: check_safe_to_notar_def Let_def s4_def notar_stake_of_def hm_get_or_def core2 vv_of_def
        ei_quorum_defs quorum_defs sample_stakes)
  then obtain s5 where s5: "check_safe_to_notar s4 ?h sample_epoch = (s5, S2nSafeToNotar)" by (metis prod.collapse)
  have slot5: "ss_slot s5 = 9" using check_safe_to_notar_sent(3) [of s4 ?h sample_epoch] s5 by (simp add: s4_def core2)
  have "notify_parent_certified s3 ?h sample_epoch = Some (s5, NotifyEvent (SafeToNotar (block_id 9 ?h)))"
    using unsent s5 slot5 by (simp add: notify_parent_certified_def s3 Let_def s4_def)
  from slot_certified [OF this, of o2]
  have "slot_step sample_epoch (s3, o2) (s5, o2\<lparr>out_events := out_events o2 @ [SafeToNotar (block_id 9 ?h)]\<rparr>)"
    by (simp add: notify_output_def)
  with run2 slot_known [of sample_epoch s2 o2 ?h]
  have run: "(slot_step sample_epoch)\<^sup>*\<^sup>* (?new, outputs_empty)
      (s5, o2\<lparr>out_events := out_events o2 @ [SafeToNotar (block_id 9 ?h)]\<rparr>)"
    unfolding s3_def by (meson rtranclp.rtrancl_into_rtrancl)
  from safe_to_notar_justified [OF sample_fits run, of "block_id 9 ?h"]
  have "hm_get (parents s5) ?h = Some Certified" by (simp add: block_id_def)
  with run show ?thesis by fastforce
qed

end
