(* ===== verification/Alp_Parent_Ready.thy ===== *)
theory Alp_Parent_Ready
  imports Alp_Base
begin

section \<open>Alpenglow: parents that are ready for block production\<close>

text \<open>
  \<open>karstflow-alpenglow/src/parent_ready_state.rs\<close> and \<open>parent_ready_tracker.rs\<close>: which blocks
  are valid parents at the start of each leader window. A panic (a parent added twice) and a loop
  that does not end are \<open>None\<close>. The tracker is shown to refine a specification in terms of
  the blocks that were ever certified and the slots that were ever skipped.
\<close>

subsection \<open>Definitions: \<open>parent_ready_state.rs\<close>\<close>

record ParentReadyState =
  prs_slot :: slot
  prs_skip :: bool
  notar_fallbacks :: "BlockHash list"
  ready_ids :: "BlockId list"

definition prs_new :: "slot \<Rightarrow> ParentReadyState" where
  "prs_new s = \<lparr>prs_slot = s, prs_skip = False, notar_fallbacks = [], ready_ids = []\<rparr>"

definition prs_genesis :: "slot \<Rightarrow> ParentReadyState" where
  "prs_genesis s = (let st = prs_new s in st\<lparr>notar_fallbacks := notar_fallbacks st @ [GENESIS_BLOCK_HASH]\<rparr>)"

definition prs_mark_skip :: "ParentReadyState \<Rightarrow> ParentReadyState \<times> bool" where
  "prs_mark_skip st = (if prs_skip st then (st, False) else (st\<lparr>prs_skip := True\<rparr>, True))"

definition prs_mark_notar_fallback :: "ParentReadyState \<Rightarrow> BlockHash \<Rightarrow> ParentReadyState \<times> bool" where
  "prs_mark_notar_fallback st h =
     (if h \<in> set (notar_fallbacks st) then (st, False)
      else (st\<lparr>notar_fallbacks := notar_fallbacks st @ [h]\<rparr>, True))"

definition add_to_ready :: "ParentReadyState \<Rightarrow> BlockId \<Rightarrow> ParentReadyState option" where
  "add_to_ready st b = (if b \<in> set (ready_ids st) then None else Some (st\<lparr>ready_ids := ready_ids st @ [b]\<rparr>))"

definition prs_is_ready :: "ParentReadyState \<Rightarrow> bool" where
  "prs_is_ready st \<longleftrightarrow> ready_ids st \<noteq> []"

text \<open>The order of the key \<open>(slot, hash)\<close>: hashes are compared byte by byte.\<close>

fun bytes_less :: "u8 list \<Rightarrow> u8 list \<Rightarrow> bool" where
  "bytes_less _ [] = False"
| "bytes_less [] (_ # _) = True"
| "bytes_less (a # as) (b # bs) = (a < b \<or> a = b \<and> bytes_less as bs)"

definition key_less :: "BlockId \<Rightarrow> BlockId \<Rightarrow> bool" where
  "key_less a b \<longleftrightarrow> bslot a < bslot b \<or> bslot a = bslot b \<and> bytes_less (bhash a) (bhash b)"

text \<open>\<open>min_by_key\<close> keeps the first of several minimal elements.\<close>

fun min_by_id :: "BlockId \<Rightarrow> BlockId list \<Rightarrow> BlockId" where
  "min_by_id b [] = b"
| "min_by_id b (c # cs) = min_by_id (if key_less c b then c else b) cs"

definition prs_wait_for_parent_ready :: "ParentReadyState \<Rightarrow> BlockId option" where
  "prs_wait_for_parent_ready st = (case ready_ids st of [] \<Rightarrow> None | b # bs \<Rightarrow> Some (min_by_id b bs))"

subsection \<open>Definitions: \<open>parent_ready_tracker.rs\<close>\<close>

record ParentReady =
  pr_slot :: slot
  pr_parent :: BlockId

record ParentReadyTracker =
  prt_root :: slot
  prt_states :: "(slot, ParentReadyState) hmap"

definition tracker_default :: ParentReadyTracker where
  "tracker_default = \<lparr>prt_root = 0, prt_states = [(0, prs_genesis 0)]\<rparr>"

definition tracker_new_empty :: ParentReadyTracker where
  "tracker_new_empty = \<lparr>prt_root = 0, prt_states = []\<rparr>"

text \<open>
  \<open>slot_state(s)\<close> creates a missing entry (\<open>touch_slot\<close>) and gives access to it: \<open>slot_state\<close> is
  the value that is read, \<open>put_slot\<close> writes it back.
\<close>

definition slot_state :: "ParentReadyTracker \<Rightarrow> slot \<Rightarrow> ParentReadyState" where
  "slot_state t s = hm_get_or (prt_states t) (prs_new s) s"

definition put_slot :: "slot \<Rightarrow> ParentReadyState \<Rightarrow> ParentReadyTracker \<Rightarrow> ParentReadyTracker" where
  "put_slot s st t = t\<lparr>prt_states := hm_insert s st (prt_states t)\<rparr>"

definition touch_slot :: "slot \<Rightarrow> ParentReadyTracker \<Rightarrow> ParentReadyTracker" where
  "touch_slot s t = (if hm_get (prt_states t) s = None then put_slot s (prs_new s) t else t)"

fun add_parents :: "slot \<Rightarrow> BlockId list \<Rightarrow> ParentReadyTracker \<Rightarrow> ParentReady list \<Rightarrow>
    (ParentReadyTracker \<times> ParentReady list) option" where
  "add_parents s [] t out = Some (t, out)"
| "add_parents s (p # ps) t out =
     do {
       st \<leftarrow> add_to_ready (slot_state t s) p;
       add_parents s ps (put_slot s st t) (out @ [\<lparr>pr_slot = s, pr_parent = p\<rparr>])
     }"

text \<open>
  The loop over the future slots. \<open>mark_notar_fallback\<close> runs it for the one block it marked,
  \<open>mark_skipped\<close> for the parents it gathered; the slot number wraps.
\<close>

partial_function (option) ready_loop ::
  "BlockId list \<Rightarrow> slot \<Rightarrow> ParentReadyTracker \<Rightarrow> ParentReady list \<Rightarrow> (ParentReadyTracker \<times> ParentReady list) option" where
  "ready_loop ps s t out =
     do {
       (t, out) \<leftarrow> (if is_start_of_window s then add_parents s ps t out else Some (t, out));
       let t = touch_slot s t;
       if \<not> prs_skip (slot_state t s) then Some (t, out)
       else ready_loop ps (add64 s 1) t out
     }"

declare ready_loop.simps [code]

definition mark_notar_fallback :: "ParentReadyTracker \<Rightarrow> BlockId \<Rightarrow> (ParentReadyTracker \<times> ParentReady list) option" where
  "mark_notar_fallback t b =
     (if bslot b < prt_root t then Some (t, [])
      else let (st, new) = prs_mark_notar_fallback (slot_state t (bslot b)) (bhash b);
               t = put_slot (bslot b) st t
           in if \<not> new then Some (t, []) else ready_loop [b] (add64 (bslot b) 1) t [])"

text \<open>The potential parents, going backward from the marked slot to the first slot of its window.\<close>

function back_loop :: "slot \<Rightarrow> slot \<Rightarrow> slot \<Rightarrow> ParentReadyTracker \<Rightarrow> BlockId list \<Rightarrow> ParentReadyTracker \<times> BlockId list" where
  "back_loop first marked s t potential =
     (let next = (\<lambda>t potential. if s = 0 \<or> s < first \<or> s < prt_root t then (t, potential)
                                else back_loop first marked (s - 1) t potential)
      in if s \<ge> first \<and> s \<le> marked \<and> s \<ge> prt_root t
         then let t = touch_slot s t;
                  st = slot_state t s;
                  potential = (if s \<noteq> marked then potential @ map (block_id s) (notar_fallbacks st) else potential)
              in if \<not> prs_skip st then (t, potential) else next t (potential @ ready_ids st)
         else next t potential)"
  by pat_completeness auto
termination by (relation "measure (\<lambda>(_, _, s, _). s)") auto

declare back_loop.simps [simp del]

definition mark_skipped :: "ParentReadyTracker \<Rightarrow> slot \<Rightarrow> (ParentReadyTracker \<times> ParentReady list) option" where
  "mark_skipped t marked =
     (if marked < prt_root t then Some (t, [])
      else let (st, new) = prs_mark_skip (slot_state t marked);
               t = put_slot marked st t
           in if \<not> new then Some (t, [])
              else let (t, potential) = back_loop (first_slot_in_window marked) marked marked t []
                   in ready_loop potential (add64 marked 1) t [])"

fun consider_ready :: "ParentReady list \<Rightarrow> ParentReady option \<Rightarrow> ParentReady option" where
  "consider_ready [] best = best"
| "consider_ready (pr # v) best =
     consider_ready v (if (case best of Some b \<Rightarrow> pr_slot pr > pr_slot b | None \<Rightarrow> True) then Some pr else best)"

fun fin_blocks :: "BlockId list \<Rightarrow> ParentReadyTracker \<Rightarrow> ParentReady option \<Rightarrow>
    (ParentReadyTracker \<times> ParentReady option) option" where
  "fin_blocks [] t best = Some (t, best)"
| "fin_blocks (f # fs) t best = do { (t, v) \<leftarrow> mark_notar_fallback t f; fin_blocks fs t (consider_ready v best) }"

fun fin_skips :: "slot list \<Rightarrow> ParentReadyTracker \<Rightarrow> ParentReady option \<Rightarrow>
    (ParentReadyTracker \<times> ParentReady option) option" where
  "fin_skips [] t best = Some (t, best)"
| "fin_skips (s # ss) t best = do { (t, v) \<leftarrow> mark_skipped t s; fin_skips ss t (consider_ready v best) }"

definition handle_finalization ::
  "ParentReadyTracker \<Rightarrow> BlockId option \<Rightarrow> BlockId list \<Rightarrow> slot list \<Rightarrow> (ParentReadyTracker \<times> ParentReady option) option" where
  "handle_finalization t finalized implicitly_finalized implicitly_skipped =
     do {
       (t, best) \<leftarrow> (case finalized of Some f \<Rightarrow> fin_blocks [f] t None | None \<Rightarrow> Some (t, None));
       (t, best) \<leftarrow> fin_blocks implicitly_finalized t best;
       fin_skips implicitly_skipped t best
     }"

definition parents_ready :: "ParentReadyTracker \<Rightarrow> slot \<Rightarrow> BlockId list" where
  "parents_ready t s = (case hm_get (prt_states t) s of Some st \<Rightarrow> ready_ids st | None \<Rightarrow> [])"

definition wait_for_parent_ready :: "ParentReadyTracker \<Rightarrow> slot \<Rightarrow> ParentReadyTracker \<times> BlockId option" where
  "wait_for_parent_ready t s = (touch_slot s t, prs_wait_for_parent_ready (slot_state t s))"

definition prt_prune :: "ParentReadyTracker \<Rightarrow> slot \<Rightarrow> ParentReadyTracker" where
  "prt_prune t new_root = t\<lparr>prt_root := new_root, prt_states := hm_retain (\<lambda>s _. s \<ge> new_root) (prt_states t)\<rparr>"

subsection \<open>The tracker as a function of the slot\<close>

named_theorems prt_simps

lemma slot_state_put [prt_simps]: "slot_state (put_slot s st t) k = (if k = s then st else slot_state t k)"
  by (simp add: slot_state_def put_slot_def hm_simps)

lemma prt_root_put [simp]: "prt_root (put_slot s st t) = prt_root t"
  by (simp add: put_slot_def)

lemma slot_state_touch [simp]: "slot_state (touch_slot s t) = slot_state t"
  by (auto simp: touch_slot_def prt_simps fun_eq_iff) (simp add: slot_state_def hm_get_or_def)

lemma prt_root_touch [simp]: "prt_root (touch_slot s t) = prt_root t"
  by (simp add: touch_slot_def)

lemma parents_ready_state: "parents_ready t s = ready_ids (slot_state t s)"
  by (simp add: parents_ready_def slot_state_def hm_get_or_def prs_new_def split: option.splits)

lemma slot_state_prune [prt_simps]: "r \<le> s \<Longrightarrow> slot_state (prt_prune t r) s = slot_state t s"
  by (simp add: slot_state_def prt_prune_def hm_get_or_def hm_simps)

lemma prt_root_prune [simp]: "prt_root (prt_prune t r) = r"
  by (simp add: prt_prune_def)

lemma add_parents_ok:
  assumes "distinct ps" "set ps \<inter> set (ready_ids (slot_state t s)) = {}"
  shows "\<exists>t'. add_parents s ps t out = Some (t', out @ map (\<lambda>p. \<lparr>pr_slot = s, pr_parent = p\<rparr>) ps) \<and> prt_root t' = prt_root t \<and>
           slot_state t' = (slot_state t)(s := slot_state t s\<lparr>ready_ids := ready_ids (slot_state t s) @ ps\<rparr>)"
  using assms
proof (induction ps arbitrary: t out)
  case (Cons p ps)
  let ?st = "slot_state t s\<lparr>ready_ids := ready_ids (slot_state t s) @ [p]\<rparr>"
  have "\<exists>t'. add_parents s ps (put_slot s ?st t) (out @ [\<lparr>pr_slot = s, pr_parent = p\<rparr>]) =
      Some (t', (out @ [\<lparr>pr_slot = s, pr_parent = p\<rparr>]) @ map (\<lambda>p. \<lparr>pr_slot = s, pr_parent = p\<rparr>) ps) \<and>
      prt_root t' = prt_root (put_slot s ?st t) \<and>
      slot_state t' = (slot_state (put_slot s ?st t))(s := slot_state (put_slot s ?st t) s
        \<lparr>ready_ids := ready_ids (slot_state (put_slot s ?st t) s) @ ps\<rparr>)"
    using Cons.prems by (intro Cons.IH) (auto simp: prt_simps)
  then show ?case using Cons.prems by (auto simp: add_to_ready_def prt_simps fun_eq_iff)
qed (simp add: fun_upd_idem)

text \<open>The forward loop ends at the first slot that is not skipped and reaches every window start up to it.\<close>

definition reached :: "ParentReadyTracker \<Rightarrow> slot \<Rightarrow> slot \<Rightarrow> bool" where
  "reached t s k \<longleftrightarrow> is_start_of_window k \<and> s \<le> k \<and> (\<forall>j. s \<le> j \<and> j < k \<longrightarrow> prs_skip (slot_state t j))"

lemma reached_step:
  "reached t s k \<longleftrightarrow> k = s \<and> is_start_of_window s \<or> prs_skip (slot_state t s) \<and> reached t (Suc s) k"
proof (cases "k = s")
  case False
  then show ?thesis
    by (auto simp: reached_def) (metis Suc_le_eq le_neq_implies_less)+
qed (auto simp: reached_def)

lemma ready_loop_ok:
  assumes "\<forall>k \<ge> s. prs_skip (slot_state t k) \<longrightarrow> k < u64_max" "s \<le> u64_max" "distinct ps"
    and "\<forall>k \<ge> s. set ps \<inter> set (ready_ids (slot_state t k)) = {}"
  shows "\<exists>t' new. ready_loop ps s t out = Some (t', out @ new) \<and> prt_root t' = prt_root t \<and>
      (\<forall>k. slot_state t' k =
         (if reached t s k then slot_state t k\<lparr>ready_ids := ready_ids (slot_state t k) @ ps\<rparr> else slot_state t k)) \<and>
      (\<forall>k b. \<lparr>pr_slot = k, pr_parent = b\<rparr> \<in> set new \<longleftrightarrow> reached t s k \<and> b \<in> set ps)"
  using assms
proof (induction "u64_max - s" arbitrary: s t out rule: less_induct)
  case less
  let ?add = "\<lambda>p. \<lparr>pr_slot = s, pr_parent = p\<rparr>"
  define here where "here = (if is_start_of_window s then map ?add ps else [])"
  define st where "st = (if is_start_of_window s then slot_state t s\<lparr>ready_ids := ready_ids (slot_state t s) @ ps\<rparr> else slot_state t s)"
  obtain t1 where t1: "(if is_start_of_window s then add_parents s ps t out else Some (t, out)) = Some (t1, out @ here)"
    "prt_root t1 = prt_root t" "slot_state t1 = (slot_state t)(s := st)"
    using add_parents_ok [of ps t s out] less.prems(3,4) by (cases "is_start_of_window s") (auto simp: here_def st_def)
  have skip: "prs_skip (slot_state t1 k) = prs_skip (slot_state t k)" for k by (simp add: t1(3) st_def)
  have run: "ready_loop ps s t out =
      (if \<not> prs_skip (slot_state t s) then Some (touch_slot s t1, out @ here) else ready_loop ps (add64 s 1) (touch_slot s t1) (out @ here))"
    by (subst ready_loop.simps) (simp add: t1(1) skip)
  have in_here: "\<lparr>pr_slot = k, pr_parent = b\<rparr> \<in> set here \<longleftrightarrow> k = s \<and> is_start_of_window s \<and> b \<in> set ps" for k b
    by (auto simp: here_def)
  show ?case
  proof (cases "prs_skip (slot_state t s)")
    case False
    then have "reached t s k \<longleftrightarrow> k = s \<and> is_start_of_window s" for k by (subst reached_step) simp
    then show ?thesis using False run t1(2,3) in_here
      by (intro exI [of _ "touch_slot s t1"] exI [of _ here]) (auto simp: st_def)
  next
    case True
    then have s: "s < u64_max" using less.prems(1) by simp
    then have add: "add64 s 1 = Suc s" by (simp add: add64_def u64_max_def)
    have reach: "reached (touch_slot s t1) (Suc s) k \<longleftrightarrow> reached t (Suc s) k" for k by (simp add: reached_def skip)
    have other: "slot_state (touch_slot s t1) k = slot_state t k" if "Suc s \<le> k" for k using that by (simp add: t1(3))
    have "u64_max - Suc s < u64_max - s" "Suc s \<le> u64_max" using s by simp_all
    moreover have "\<forall>k \<ge> Suc s. prs_skip (slot_state (touch_slot s t1) k) \<longrightarrow> k < u64_max"
      "\<forall>k \<ge> Suc s. set ps \<inter> set (ready_ids (slot_state (touch_slot s t1) k)) = {}"
      using less.prems(1,4) other by auto
    ultimately obtain t' new where
      ih: "ready_loop ps (Suc s) (touch_slot s t1) (out @ here) = Some (t', (out @ here) @ new)" "prt_root t' = prt_root (touch_slot s t1)"
        "\<forall>k. slot_state t' k = (if reached t (Suc s) k then slot_state (touch_slot s t1) k
             \<lparr>ready_ids := ready_ids (slot_state (touch_slot s t1) k) @ ps\<rparr> else slot_state (touch_slot s t1) k)"
        "\<forall>k b. \<lparr>pr_slot = k, pr_parent = b\<rparr> \<in> set new \<longleftrightarrow> reached t (Suc s) k \<and> b \<in> set ps"
      using less.hyps [of "Suc s" "touch_slot s t1" "out @ here"] less.prems(3) unfolding reach by blast
    have ge: "reached t (Suc s) k \<Longrightarrow> Suc s \<le> k" for k by (simp add: reached_def)
    have eq: "reached t s k \<longleftrightarrow> k = s \<and> is_start_of_window s \<or> reached t (Suc s) k" for k
      using True by (subst reached_step) simp
    have "slot_state t' k = (if reached t s k then slot_state t k\<lparr>ready_ids := ready_ids (slot_state t k) @ ps\<rparr> else slot_state t k)" for k
      using ih(3) ge [of k] unfolding eq by (cases "k = s") (auto simp: t1(3) st_def)
    moreover have "ready_loop ps s t out = Some (t', out @ (here @ new))" using run [unfolded add] True ih(1) by simp
    moreover have "\<lparr>pr_slot = k, pr_parent = b\<rparr> \<in> set (here @ new) \<longleftrightarrow> reached t s k \<and> b \<in> set ps" for k b
      using ih(4) in_here unfolding eq by auto
    ultimately show ?thesis using ih(2) t1(2) by (intro exI [of _ t'] exI [of _ "here @ new"]) simp
  qed
qed

subsection \<open>Specification\<close>

text \<open>
  The abstract state is the set of certified blocks and the set of skipped slots. A block can be
  the parent at slot \<open>s\<close> if it is certified and every slot between is skipped.
\<close>

definition linked :: "slot set \<Rightarrow> slot \<Rightarrow> slot \<Rightarrow> bool" where
  "linked SK a b \<longleftrightarrow> a < b \<and> (\<forall>k. a < k \<and> k < b \<longrightarrow> k \<in> SK)"

definition valid_parent :: "BlockId set \<Rightarrow> slot set \<Rightarrow> slot \<Rightarrow> BlockId \<Rightarrow> bool" where
  "valid_parent NF SK s b \<longleftrightarrow> b \<in> NF \<and> linked SK (bslot b) s"

text \<open>
  The tracker implements it from its root on: the skip flags and the certified blocks of each
  slot are exact, and the parents of a window start are valid and, from the root on, complete.
\<close>

definition slot_ok :: "slot \<Rightarrow> BlockId set \<Rightarrow> slot set \<Rightarrow> slot \<Rightarrow> ParentReadyState \<Rightarrow> bool" where
  "slot_ok r NF SK s st \<longleftrightarrow>
     (prs_skip st \<longleftrightarrow> s \<in> SK) \<and> distinct (notar_fallbacks st) \<and> (\<forall>h. h \<in> set (notar_fallbacks st) \<longleftrightarrow> block_id s h \<in> NF) \<and>
     distinct (ready_ids st) \<and> (\<forall>b. b \<in> set (ready_ids st) \<longrightarrow> is_start_of_window s \<and> valid_parent NF SK s b) \<and>
     (\<forall>b. is_start_of_window s \<and> r \<le> bslot b \<and> valid_parent NF SK s b \<longrightarrow> b \<in> set (ready_ids st))"

definition tracker_ok :: "ParentReadyTracker \<Rightarrow> BlockId set \<Rightarrow> slot set \<Rightarrow> bool" where
  "tracker_ok t NF SK \<longleftrightarrow> SK \<subseteq> {..<u64_max} \<and> (\<forall>s \<ge> prt_root t. slot_ok (prt_root t) NF SK s (slot_state t s))"

text \<open>What an operation reports is exactly what became ready.\<close>

definition reports :: "ParentReadyTracker \<Rightarrow> ParentReady list \<Rightarrow> ParentReadyTracker \<Rightarrow> bool" where
  "reports t out t' \<longleftrightarrow>
     (\<forall>s b. \<lparr>pr_slot = s, pr_parent = b\<rparr> \<in> set out \<longleftrightarrow> b \<in> set (parents_ready t' s) \<and> b \<notin> set (parents_ready t s)) \<and>
     (\<forall>s b. b \<in> set (parents_ready t s) \<longrightarrow> b \<in> set (parents_ready t' s))"

lemma valid_parent_mono: "NF \<subseteq> NF' \<Longrightarrow> SK \<subseteq> SK' \<Longrightarrow> valid_parent NF SK s b \<Longrightarrow> valid_parent NF' SK' s b"
  by (auto simp: valid_parent_def linked_def)

lemma valid_parent_insert: "valid_parent (insert b NF) SK k c \<longleftrightarrow> valid_parent NF SK k c \<or> c = b \<and> linked SK (bslot b) k"
  by (auto simp: valid_parent_def)

lemma slot_okD:
  assumes "slot_ok r NF SK s st"
  shows "prs_skip st \<longleftrightarrow> s \<in> SK" "distinct (notar_fallbacks st)" "h \<in> set (notar_fallbacks st) \<longleftrightarrow> block_id s h \<in> NF"
    "distinct (ready_ids st)" "b \<in> set (ready_ids st) \<Longrightarrow> is_start_of_window s" "b \<in> set (ready_ids st) \<Longrightarrow> valid_parent NF SK s b"
    "is_start_of_window s \<Longrightarrow> r \<le> bslot b \<Longrightarrow> valid_parent NF SK s b \<Longrightarrow> b \<in> set (ready_ids st)"
  using assms unfolding slot_ok_def by blast+

lemma slot_okI:
  assumes "prs_skip st \<longleftrightarrow> s \<in> SK" "distinct (notar_fallbacks st)" "\<And>h. h \<in> set (notar_fallbacks st) \<longleftrightarrow> block_id s h \<in> NF"
    "distinct (ready_ids st)" "\<And>b. b \<in> set (ready_ids st) \<Longrightarrow> is_start_of_window s \<and> valid_parent NF SK s b"
    "\<And>b. is_start_of_window s \<Longrightarrow> r \<le> bslot b \<Longrightarrow> valid_parent NF SK s b \<Longrightarrow> b \<in> set (ready_ids st)"
  shows "slot_ok r NF SK s st"
  using assms unfolding slot_ok_def by blast

lemma slot_ok_old_block:
  assumes "slot_ok r NF SK k st" "bslot b < r" "r \<le> k"
  shows "slot_ok r (insert b NF) SK k st"
proof (rule slot_okI)
  note d = slot_okD [OF assms(1)]
  fix h c
  have "block_id k h \<noteq> b" using assms(2,3) by auto
  then show "h \<in> set (notar_fallbacks st) \<longleftrightarrow> block_id k h \<in> insert b NF" using d(3) [of h] by simp
  show "is_start_of_window k \<and> valid_parent (insert b NF) SK k c" if "c \<in> set (ready_ids st)"
    using d(5,6) [OF that] by (simp add: valid_parent_insert)
  show "c \<in> set (ready_ids st)" if "is_start_of_window k" "r \<le> bslot c" "valid_parent (insert b NF) SK k c"
    using that d(7) [of c] assms(2) by (auto simp: valid_parent_insert)
qed (rule slot_okD [OF assms(1)])+

lemma slot_ok_new_block:
  assumes ok: "slot_ok r NF SK k st" and new: "b \<notin> NF"
    and st': "prs_skip st' = prs_skip st" "notar_fallbacks st' = notar_fallbacks st @ (if k = bslot b then [bhash b] else [])"
      "ready_ids st' = ready_ids st @ (if is_start_of_window k \<and> linked SK (bslot b) k then [b] else [])"
  shows "slot_ok r (insert b NF) SK k st'"
proof (rule slot_okI)
  note d = slot_okD [OF ok]
  show "prs_skip st' \<longleftrightarrow> k \<in> SK" using d(1) st'(1) by simp
  have "k = bslot b \<Longrightarrow> bhash b \<notin> set (notar_fallbacks st)" using d(3) [of "bhash b"] new by simp
  then show "distinct (notar_fallbacks st')" using d(2) by (simp add: st'(2))
  show "distinct (ready_ids st')" using d(4) d(6) [of b] new by (auto simp: st'(3) valid_parent_def)
  fix h c
  have "block_id k h = b \<longleftrightarrow> k = bslot b \<and> h = bhash b" by auto
  then show "h \<in> set (notar_fallbacks st') \<longleftrightarrow> block_id k h \<in> insert b NF" using d(3) [of h] by (auto simp: st'(2))
  show "is_start_of_window k \<and> valid_parent (insert b NF) SK k c" if "c \<in> set (ready_ids st')"
    using that d(5,6) [of c] by (auto simp: st'(3) valid_parent_insert split: if_splits)
  show "c \<in> set (ready_ids st')" if "is_start_of_window k" "r \<le> bslot c" "valid_parent (insert b NF) SK k c"
    using that d(7) [of c] by (auto simp: st'(3) valid_parent_insert)
qed

lemma tracker_slot: "tracker_ok t NF SK \<Longrightarrow> prt_root t \<le> k \<Longrightarrow> slot_ok (prt_root t) NF SK k (slot_state t k)"
  by (simp add: tracker_ok_def)

lemma tracker_skip: "tracker_ok t NF SK \<Longrightarrow> prt_root t \<le> k \<Longrightarrow> prs_skip (slot_state t k) \<longleftrightarrow> k \<in> SK"
  using slot_okD(1) [OF tracker_slot] by blast

lemma tracker_ready:
  "tracker_ok t NF SK \<Longrightarrow> prt_root t \<le> k \<Longrightarrow> b \<in> set (ready_ids (slot_state t k)) \<Longrightarrow> is_start_of_window k \<and> valid_parent NF SK k b"
  using slot_okD(5,6) [OF tracker_slot] by blast

lemma mark_notar_fallback_new:
  assumes ok: "tracker_ok t NF SK" and slot: "bslot b < u64_max" and new: "prt_root t \<le> bslot b" "b \<notin> NF"
  shows "\<exists>t' out. mark_notar_fallback t b = Some (t', out) \<and> prt_root t' = prt_root t \<and>
           tracker_ok t' (insert b NF) SK \<and> reports t out t'"
proof -
  let ?r = "prt_root t" and ?s = "bslot b"
  define t1 where "t1 = put_slot ?s (slot_state t ?s\<lparr>notar_fallbacks := notar_fallbacks (slot_state t ?s) @ [bhash b]\<rparr>) t"
  have fresh: "bhash b \<notin> set (notar_fallbacks (slot_state t ?s))"
    using slot_okD(3) [OF tracker_slot [OF ok new(1)], of "bhash b"] new(2) by simp
  have t1: "prs_skip (slot_state t1 k) = prs_skip (slot_state t k)" "ready_ids (slot_state t1 k) = ready_ids (slot_state t k)"
    "notar_fallbacks (slot_state t1 k) = notar_fallbacks (slot_state t k) @ (if k = ?s then [bhash b] else [])" for k
    by (simp_all add: t1_def prt_simps)
  have "SK \<subseteq> {..<u64_max}" using ok by (simp add: tracker_ok_def)
  then have "\<forall>k \<ge> Suc ?s. prs_skip (slot_state t1 k) \<longrightarrow> k < u64_max"
    using tracker_skip [OF ok] new(1) by (auto simp: t1)
  moreover have nb: "b \<notin> set (ready_ids (slot_state t k))" if "?r \<le> k" for k
    using tracker_ready [OF ok that, of b] new(2) by (auto simp: valid_parent_def)
  then have "\<forall>k \<ge> Suc ?s. set [b] \<inter> set (ready_ids (slot_state t1 k)) = {}" using new(1) by (simp add: t1)
  moreover have "Suc ?s \<le> u64_max" "distinct [b]" using slot by simp_all
  ultimately obtain t' out where run: "ready_loop [b] (Suc ?s) t1 [] = Some (t', [] @ out)" "prt_root t' = prt_root t1"
    "\<forall>k. slot_state t' k = (if reached t1 (Suc ?s) k then slot_state t1 k\<lparr>ready_ids := ready_ids (slot_state t1 k) @ [b]\<rparr> else slot_state t1 k)"
    "\<forall>k c. \<lparr>pr_slot = k, pr_parent = c\<rparr> \<in> set out \<longleftrightarrow> reached t1 (Suc ?s) k \<and> c \<in> set [b]"
    using ready_loop_ok [of "Suc ?s" t1 "[b]" "[]"] by blast
  have reach: "reached t1 (Suc ?s) k \<longleftrightarrow> is_start_of_window k \<and> linked SK ?s k" for k
    using tracker_skip [OF ok] new(1) unfolding reached_def linked_def t1 Suc_le_eq by (meson le_trans less_imp_le)
  have "slot_ok ?r (insert b NF) SK k (slot_state t' k)" if "?r \<le> k" for k
    by (rule slot_ok_new_block [OF tracker_slot [OF ok that] new(2)]) (simp_all add: run(3) t1 reach)
  moreover have root: "prt_root t' = ?r" using run(2) by (simp add: t1_def)
  moreover have "reports t out t'"
  proof -
    have ready: "set (parents_ready t' k) = set (parents_ready t k) \<union> (if is_start_of_window k \<and> linked SK ?s k then {b} else {})" for k
      using run(3) by (simp add: parents_ready_state t1 reach)
    have "linked SK ?s k \<Longrightarrow> b \<notin> set (parents_ready t k)" for k
      using nb [of k] new(1) by (simp add: parents_ready_state linked_def)
    then show ?thesis using run(4) unfolding reports_def ready reach by (auto split: if_splits)
  qed
  moreover have "mark_notar_fallback t b = Some (t', out)"
  proof -
    have "add64 ?s 1 = Suc ?s" using slot by (simp add: add64_def u64_max_def)
    then show ?thesis using new(1) fresh run(1)
      by (simp add: mark_notar_fallback_def prs_mark_notar_fallback_def t1_def del: One_nat_def)
  qed
  ultimately show ?thesis using ok by (auto simp: tracker_ok_def)
qed

lemma mark_notar_fallback_ok:
  assumes ok: "tracker_ok t NF SK" and slot: "bslot b < u64_max"
  shows "\<exists>t' out. mark_notar_fallback t b = Some (t', out) \<and> prt_root t' = prt_root t \<and>
           tracker_ok t' (insert b NF) SK \<and> reports t out t'"
proof (cases "bslot b < prt_root t")
  case True
  then have "tracker_ok t (insert b NF) SK" using ok by (simp add: tracker_ok_def slot_ok_old_block)
  then show ?thesis using True by (simp add: mark_notar_fallback_def reports_def)
next
  case root: False
  show ?thesis
  proof (cases "b \<in> NF")
    case True
    then have mem: "bhash b \<in> set (notar_fallbacks (slot_state t (bslot b)))"
      using slot_okD(3) [OF tracker_slot [OF ok, of "bslot b"], of "bhash b"] root by simp
    have same: "slot_state (put_slot (bslot b) (slot_state t (bslot b)) t) = slot_state t" by (auto simp: prt_simps)
    have "insert b NF = NF" using True by auto
    then show ?thesis using root ok mem same
      by (simp add: mark_notar_fallback_def prs_mark_notar_fallback_def tracker_ok_def reports_def parents_ready_state)
  qed (use mark_notar_fallback_new [OF ok slot] root in auto)
qed

lemma window_start_unique:
  assumes "first_slot_in_window m < s" "s \<le> m"
  shows "\<not> is_start_of_window s"
proof
  assume "is_start_of_window s"
  then obtain q where q: "s = 4 * q" by (auto simp: is_start_of_window_def SLOTS_PER_WINDOW_def)
  have "m div 4 * 4 < 4 * q" "4 * q \<le> m" using assms q by (simp_all add: first_slot_in_window_def SLOTS_PER_WINDOW_def)
  then show False by presburger
qed

lemma linked_extend:
  assumes "linked SK a s" "s = m \<or> s \<in> SK" "s \<le> m" "\<forall>k. s < k \<and> k < m \<longrightarrow> k \<in> SK"
  shows "linked SK a m"
proof -
  have "k \<in> SK" if "a < k" "k < m" for k
    using that assms by (cases k s rule: linorder_cases) (auto simp: linked_def)
  then show ?thesis using assms(1,3) by (auto simp: linked_def)
qed

lemma linked_restrict: "linked SK a m \<Longrightarrow> a < s \<Longrightarrow> s \<le> m \<Longrightarrow> linked SK a s"
  by (auto simp: linked_def)

text \<open>The backward loop gathers the valid parents of the marked slot.\<close>

lemma slot_blocks:
  assumes "slot_ok r NF SK s st" "s < m" "\<forall>k. s < k \<and> k < m \<longrightarrow> k \<in> SK"
  shows "distinct (map (block_id s) (notar_fallbacks st))"
    "b \<in> set (map (block_id s) (notar_fallbacks st)) \<longleftrightarrow> bslot b = s \<and> valid_parent NF SK m b"
proof -
  note d = slot_okD [OF assms(1)]
  show "distinct (map (block_id s) (notar_fallbacks st))"
    using d(2) by (auto simp: distinct_map inj_on_def dest: arg_cong [of _ _ bhash])
  show "b \<in> set (map (block_id s) (notar_fallbacks st)) \<longleftrightarrow> bslot b = s \<and> valid_parent NF SK m b"
  proof (cases "bslot b = s")
    case True
    then have "b = block_id s (bhash b)" by simp
    then have "b \<in> block_id s ` set (notar_fallbacks st) \<longleftrightarrow> bhash b \<in> set (notar_fallbacks st)"
      by (metis bslot_block_id(2) image_iff)
    then show ?thesis using True d(3) [of "bhash b"] assms(2,3) by (auto simp: valid_parent_def linked_def)
  qed auto
qed

lemma back_loop_ok:
  assumes ok: "tracker_ok t0 NF SK" and first: "first = first_slot_in_window m" and "prt_root t0 \<le> m"
    and t: "prt_root t = prt_root t0" "slot_state t = (slot_state t0)(m := slot_state t0 m\<lparr>prs_skip := True\<rparr>)"
    and s: "s \<le> m" "\<forall>k. s < k \<and> k < m \<longrightarrow> k \<in> SK"
  shows "\<exists>t' new. back_loop first m s t pot = (t', pot @ new) \<and> slot_state t' = slot_state t \<and> prt_root t' = prt_root t \<and>
           distinct new \<and> (s < first \<longrightarrow> new = []) \<and> (\<forall>b \<in> set new. bslot b \<le> s \<and> valid_parent NF SK m b) \<and>
           (\<forall>b. first \<le> s \<and> prt_root t \<le> bslot b \<and> bslot b \<le> s \<and> valid_parent NF SK m b \<longrightarrow> b \<in> set new)"
  using t s
proof (induction s arbitrary: t pot rule: less_induct)
  case (less s)
  let ?r = "prt_root t"
  show ?case
  proof (cases "first \<le> s \<and> ?r \<le> s")
    case False
    then have "back_loop first m s t pot = (t, pot)" by (subst back_loop.simps) auto
    then show ?thesis using False by (intro exI [of _ t] exI [of _ "[]"]) auto
  next
    case range: True
    define st where "st = slot_state t s"
    define here where "here = (if s \<noteq> m then map (block_id s) (notar_fallbacks st) else [])"
    have "prt_root t0 \<le> s" using range less.prems(1) by simp
    note d = slot_okD [OF tracker_slot [OF ok this]]
    have st: "notar_fallbacks st = notar_fallbacks (slot_state t0 s)" "ready_ids st = ready_ids (slot_state t0 s)"
      "prs_skip st \<longleftrightarrow> s = m \<or> s \<in> SK"
      using d(1) by (simp_all add: st_def less.prems(2))
    have here: "distinct here" "b \<in> set here \<longleftrightarrow> bslot b = s \<and> valid_parent NF SK m b" for b
      using slot_blocks [OF tracker_slot [OF ok \<open>prt_root t0 \<le> s\<close>], of m] less.prems(3,4)
      by (cases "s = m"; auto simp: here_def st(1) valid_parent_def linked_def)+
    note dh = here(1) and inh = here(2)
    have run: "back_loop first m s t pot =
        (if \<not> prs_skip st then (touch_slot s t, pot @ here)
         else if s = 0 then (touch_slot s t, pot @ here @ ready_ids st)
         else back_loop first m (s - 1) (touch_slot s t) (pot @ here @ ready_ids st))"
      using range less.prems(3) by (subst back_loop.simps) (auto simp: Let_def st_def here_def)
    show ?thesis
    proof (cases "prs_skip st")
      case False
      have "b \<in> set here" if "bslot b \<le> s" "valid_parent NF SK m b" for b
        using that False inh [of b] st(3) less.prems(3) by (auto simp: valid_parent_def linked_def le_less)
      then show ?thesis using run False dh inh range by (intro exI [of _ "touch_slot s t"] exI [of _ here]) auto
    next
      case skip: True
      then have sk: "s = m \<or> s \<in> SK" using st(3) by simp
      have rd: "bslot b < s \<and> valid_parent NF SK m b" if "b \<in> set (ready_ids st)" for b
        using d(6) [of b] that sk less.prems(3,4) linked_extend [of SK "bslot b" s m] by (auto simp: st(2) valid_parent_def linked_def)
      have rdc: "b \<in> set (ready_ids st)" if "s = first" "?r \<le> bslot b" "bslot b < s" "valid_parent NF SK m b" for b
      proof -
        have "is_start_of_window s" using that(1) first by (simp add: is_start_of_window_def first_slot_in_window_def)
        moreover have "valid_parent NF SK s b" using that(3,4) linked_restrict less.prems(3) by (auto simp: valid_parent_def)
        ultimately show ?thesis using d(7) that(2) less.prems(1) by (simp add: st(2))
      qed
      have nrd: "ready_ids st = []" if "s \<noteq> first"
        using d(5) window_start_unique [of m s] that range less.prems(3) first by (cases "ready_ids st") (auto simp: st(2))
      have "b \<notin> set (ready_ids st)" if "b \<in> set here" for b using rd [of b] inh [of b] that by auto
      then have dr: "distinct (here @ ready_ids st)" using dh d(4) by (auto simp: st(2))
      show ?thesis
      proof (cases "s = 0")
        case True
        then have "ready_ids st = []" using rd by (cases "ready_ids st") auto
        then have "back_loop first m s t pot = (touch_slot s t, pot @ here)" using run skip True by simp
        moreover have "\<not> s < first" using range by simp
        ultimately show ?thesis using dh inh True by (intro exI [of _ "touch_slot s t"] exI [of _ here]) simp
      next
        case s0: False
        have "\<forall>k. s - 1 < k \<and> k < m \<longrightarrow> k \<in> SK"
        proof (intro allI impI)
          fix k assume "s - 1 < k \<and> k < m"
          then consider "k = s" "s < m" | "s < k" "k < m" by linarith
          then show "k \<in> SK" using sk less.prems(4) by cases auto
        qed
        moreover have "s - 1 < s" "s - 1 \<le> m" using s0 less.prems(3) by auto
        ultimately obtain t' new where
          ih: "back_loop first m (s - 1) (touch_slot s t) (pot @ here @ ready_ids st) = (t', (pot @ here @ ready_ids st) @ new)"
            "slot_state t' = slot_state (touch_slot s t)" "prt_root t' = prt_root (touch_slot s t)" "distinct new"
            "s - 1 < first \<longrightarrow> new = []" "\<forall>b \<in> set new. bslot b \<le> s - 1 \<and> valid_parent NF SK m b"
            "\<forall>b. first \<le> s - 1 \<and> prt_root (touch_slot s t) \<le> bslot b \<and> bslot b \<le> s - 1 \<and> valid_parent NF SK m b \<longrightarrow> b \<in> set new"
          using less.IH [of "s - 1" "touch_slot s t" "pot @ here @ ready_ids st"] less.prems(1,2) by auto
        have "distinct (here @ ready_ids st @ new)"
          using dr ih(4-6) nrd inh s0 by (cases "s = first") auto
        moreover have "bslot b \<le> s \<and> valid_parent NF SK m b" if "b \<in> set (here @ ready_ids st @ new)" for b
          using that inh [of b] rd [of b] ih(6) by auto
        moreover have "b \<in> set (here @ ready_ids st @ new)" if "?r \<le> bslot b" "bslot b \<le> s" "valid_parent NF SK m b" for b
        proof -
          note le = that(2)
          consider "bslot b = s" | "bslot b < s" "s = first" | "bslot b \<le> s - 1" "first \<le> s - 1" using le range s0 by linarith
          then show ?thesis
          proof cases
            case 1
            then show ?thesis using inh [of b] that(3) by simp
          next
            case 2
            then show ?thesis using rdc [of b] that by simp
          next
            case 3
            then show ?thesis using ih(7) [rule_format, of b] that by simp
          qed
        qed
        moreover have "back_loop first m s t pot = (t', pot @ here @ ready_ids st @ new)" "slot_state t' = slot_state t" "prt_root t' = ?r"
          using run skip s0 ih(1-3) by simp_all
        moreover have "\<not> s < first" using range by simp
        ultimately show ?thesis by blast
      qed
    qed
  qed
qed

lemma valid_parent_skip:
  assumes "valid_parent NF (insert m SK) k b"
  shows "valid_parent NF SK k b \<or> valid_parent NF SK m b \<and> linked SK m k"
proof (cases "bslot b < m \<and> m < k")
  case True
  have "k' = m \<or> k' \<in> SK" if "bslot b < k'" "k' < k" for k' using assms that by (auto simp: valid_parent_def linked_def)
  with True have "k' \<in> SK" if "bslot b < k' \<and> k' < m \<or> m < k' \<and> k' < k" for k' using that by (metis less_irrefl less_trans)
  then show ?thesis using True assms by (auto simp: valid_parent_def linked_def)
next
  case False
  then have "k' \<noteq> m" if "bslot b < k' \<and> k' < k" for k' using that by auto
  then show ?thesis using assms by (auto simp: valid_parent_def linked_def)
qed

lemma slot_ok_new_skip:
  assumes ok: "slot_ok r NF SK k st"
    and P: "distinct P" "\<forall>b \<in> set P. valid_parent NF SK m b" "\<forall>b. r \<le> bslot b \<and> valid_parent NF SK m b \<longrightarrow> b \<in> set P"
    and m: "m \<notin> SK"
    and st': "prs_skip st' \<longleftrightarrow> k = m \<or> prs_skip st" "notar_fallbacks st' = notar_fallbacks st"
      "ready_ids st' = ready_ids st @ (if is_start_of_window k \<and> linked SK m k then P else [])"
  shows "slot_ok r NF (insert m SK) k st'"
proof (rule slot_okI)
  note d = slot_okD [OF ok]
  show "prs_skip st' \<longleftrightarrow> k \<in> insert m SK" using d(1) by (simp add: st'(1))
  show "distinct (notar_fallbacks st')" using d(2) by (simp add: st'(2))
  have "b \<notin> set P" if "b \<in> set (ready_ids st)" "linked SK m k" for b
  proof
    assume "b \<in> set P"
    then have "bslot b < m" using P(2) by (auto simp: valid_parent_def linked_def)
    then show False using d(6) [OF that(1)] that(2) m by (auto simp: valid_parent_def linked_def)
  qed
  then show "distinct (ready_ids st')" using d(4) P(1) by (auto simp: st'(3))
  fix h b
  show "h \<in> set (notar_fallbacks st') \<longleftrightarrow> block_id k h \<in> NF" using d(3) [of h] by (simp add: st'(2))
  show "is_start_of_window k \<and> valid_parent NF (insert m SK) k b" if "b \<in> set (ready_ids st')"
  proof (cases "b \<in> set (ready_ids st)")
    case True
    then show ?thesis using d(5,6) [of b] valid_parent_mono [of NF NF SK "insert m SK"] by auto
  next
    case False
    then have b: "is_start_of_window k" "linked SK m k" "b \<in> set P" using that by (auto simp: st'(3) split: if_splits)
    then have "linked SK (bslot b) m" "b \<in> NF" using P(2) by (auto simp: valid_parent_def)
    moreover have "k' \<in> insert m SK" if "bslot b < k'" "k' < k" for k'
      using that calculation(1) b(2) by (cases k' m rule: linorder_cases) (auto simp: linked_def)
    ultimately show ?thesis using b by (auto simp: valid_parent_def linked_def)
  qed
  show "b \<in> set (ready_ids st')" if "is_start_of_window k" "r \<le> bslot b" "valid_parent NF (insert m SK) k b"
    using that d(7) [of b] valid_parent_skip [OF that(3)] P(3) by (auto simp: st'(3))
qed

lemma slot_ok_old_skip:
  assumes "slot_ok r NF SK k st" "m < r" "r \<le> k"
  shows "slot_ok r NF (insert m SK) k st"
proof (rule slot_okI)
  note d = slot_okD [OF assms(1)]
  show "prs_skip st \<longleftrightarrow> k \<in> insert m SK" using d(1) assms(2,3) by auto
  fix h b
  show "is_start_of_window k \<and> valid_parent NF (insert m SK) k b" if "b \<in> set (ready_ids st)"
    using d(5,6) [OF that] valid_parent_mono [of NF NF SK "insert m SK"] by auto
  show "b \<in> set (ready_ids st)" if "is_start_of_window k" "r \<le> bslot b" "valid_parent NF (insert m SK) k b"
    using valid_parent_skip [OF that(3)] d(7) [OF that(1,2)] that(2) assms(2) by (auto simp: valid_parent_def linked_def)
qed (rule slot_okD [OF assms(1)])+

lemma mark_skipped_new:
  assumes ok: "tracker_ok t NF SK" and slot: "m < u64_max" and new: "prt_root t \<le> m" "m \<notin> SK"
  shows "\<exists>t' out. mark_skipped t m = Some (t', out) \<and> prt_root t' = prt_root t \<and> tracker_ok t' NF (insert m SK) \<and> reports t out t'"
proof -
  let ?r = "prt_root t"
  define t1 where "t1 = put_slot m (slot_state t m\<lparr>prs_skip := True\<rparr>) t"
  have t1: "prt_root t1 = ?r" "slot_state t1 = (slot_state t)(m := slot_state t m\<lparr>prs_skip := True\<rparr>)"
    by (auto simp: t1_def prt_simps)
  have fresh: "\<not> prs_skip (slot_state t m)" using tracker_skip [OF ok new(1)] new(2) by simp
  have first: "first_slot_in_window m \<le> m" using window_bounds(1) slot by simp
  have "\<forall>k. m < k \<and> k < m \<longrightarrow> k \<in> SK" by auto
  from back_loop_ok [OF ok refl new(1) t1 order_refl this, of "[]"] obtain t2 P where
    bk: "back_loop (first_slot_in_window m) m m t1 [] = (t2, [] @ P)" "slot_state t2 = slot_state t1" "prt_root t2 = prt_root t1"
    and P: "distinct P" "\<forall>b \<in> set P. bslot b \<le> m \<and> valid_parent NF SK m b"
      "\<forall>b. first_slot_in_window m \<le> m \<and> prt_root t1 \<le> bslot b \<and> bslot b \<le> m \<and> valid_parent NF SK m b \<longrightarrow> b \<in> set P"
    by blast
  have lt: "bslot b < m" if "valid_parent NF SK m b" for b using that by (simp add: valid_parent_def linked_def)
  have "b \<in> set P" if "?r \<le> bslot b" "valid_parent NF SK m b" for b
    using P(3) [rule_format, of b] that lt [OF that(2)] first t1(1) by simp
  then have P: "distinct P" "\<forall>b \<in> set P. valid_parent NF SK m b" "\<forall>b. ?r \<le> bslot b \<and> valid_parent NF SK m b \<longrightarrow> b \<in> set P"
    using P(1,2) by blast+
  have same: "ready_ids (slot_state t2 k) = ready_ids (slot_state t k)" "notar_fallbacks (slot_state t2 k) = notar_fallbacks (slot_state t k)"
    "prs_skip (slot_state t2 k) \<longleftrightarrow> k = m \<or> prs_skip (slot_state t k)" for k
    by (simp_all add: bk(2) t1(2))
  have sk: "prs_skip (slot_state t k) \<longleftrightarrow> k \<in> SK" if "m \<le> k" for k using tracker_skip [OF ok, of k] that new(1) by simp
  have "SK \<subseteq> {..<u64_max}" using ok by (simp add: tracker_ok_def)
  then have "\<forall>k \<ge> Suc m. prs_skip (slot_state t2 k) \<longrightarrow> k < u64_max" using sk by (auto simp: same)
  moreover have disj: "b \<notin> set (ready_ids (slot_state t k))" if "Suc m \<le> k" "b \<in> set P" for k b
  proof
    assume "b \<in> set (ready_ids (slot_state t k))"
    then have "linked SK (bslot b) k" using tracker_ready [OF ok, of k b] that(1) new(1) by (simp add: valid_parent_def)
    moreover have "bslot b < m" using P(2) that(2) by (auto simp: valid_parent_def linked_def)
    ultimately show False using that(1) new(2) by (auto simp: linked_def)
  qed
  then have "\<forall>k \<ge> Suc m. set P \<inter> set (ready_ids (slot_state t2 k)) = {}" by (auto simp: same)
  moreover have "Suc m \<le> u64_max" using slot by simp
  ultimately obtain t' out where run: "ready_loop P (Suc m) t2 [] = Some (t', [] @ out)" "prt_root t' = prt_root t2"
    "\<forall>k. slot_state t' k = (if reached t2 (Suc m) k then slot_state t2 k\<lparr>ready_ids := ready_ids (slot_state t2 k) @ P\<rparr> else slot_state t2 k)"
    "\<forall>k c. \<lparr>pr_slot = k, pr_parent = c\<rparr> \<in> set out \<longleftrightarrow> reached t2 (Suc m) k \<and> c \<in> set P"
    using ready_loop_ok [of "Suc m" t2 P "[]"] P(1) by blast
  have reach: "reached t2 (Suc m) k \<longleftrightarrow> is_start_of_window k \<and> linked SK m k" for k
    using sk by (auto simp: reached_def linked_def same Suc_le_eq)
  have "slot_ok ?r NF (insert m SK) k (slot_state t' k)" if "?r \<le> k" for k
    by (rule slot_ok_new_skip [OF tracker_slot [OF ok that] P new(2)]) (simp_all add: run(3) reach same)
  moreover have "reports t out t'"
  proof -
    have ready: "set (parents_ready t' k) = set (parents_ready t k) \<union> (if is_start_of_window k \<and> linked SK m k then set P else {})" for k
      using run(3) by (simp add: parents_ready_state same reach)
    have "linked SK m k \<Longrightarrow> b \<in> set P \<Longrightarrow> b \<notin> set (parents_ready t k)" for k b
      using disj [of k b] by (simp add: parents_ready_state linked_def)
    then show ?thesis using run(4) unfolding reports_def ready reach by (auto split: if_splits)
  qed
  moreover have "mark_skipped t m = Some (t', out)"
  proof -
    have "add64 m 1 = Suc m" using slot by (simp add: add64_def u64_max_def)
    then show ?thesis using new(1) fresh run(1) bk(1)
      by (simp add: mark_skipped_def prs_mark_skip_def t1_def del: One_nat_def)
  qed
  ultimately show ?thesis using ok run(2) bk(3) t1(1) slot by (auto simp: tracker_ok_def)
qed

lemma mark_skipped_ok:
  assumes ok: "tracker_ok t NF SK" and slot: "m < u64_max"
  shows "\<exists>t' out. mark_skipped t m = Some (t', out) \<and> prt_root t' = prt_root t \<and> tracker_ok t' NF (insert m SK) \<and> reports t out t'"
proof (cases "m < prt_root t")
  case True
  then have "tracker_ok t NF (insert m SK)" using ok slot by (simp add: tracker_ok_def slot_ok_old_skip)
  then show ?thesis using True by (simp add: mark_skipped_def reports_def)
next
  case root: False
  show ?thesis
  proof (cases "m \<in> SK")
    case True
    then have skip: "prs_skip (slot_state t m)" using tracker_skip [OF ok, of m] root by simp
    have same: "slot_state (put_slot m (slot_state t m) t) = slot_state t" by (auto simp: prt_simps)
    have "insert m SK = SK" using True by auto
    then show ?thesis using root ok skip same
      by (simp add: mark_skipped_def prs_mark_skip_def tracker_ok_def reports_def parents_ready_state)
  qed (use mark_skipped_new [OF ok slot] root in auto)
qed

lemma fin_blocks_ok:
  assumes "tracker_ok t NF SK" "\<forall>b \<in> set bs. bslot b < u64_max"
  shows "\<exists>t' best'. fin_blocks bs t best = Some (t', best') \<and> prt_root t' = prt_root t \<and> tracker_ok t' (set bs \<union> NF) SK"
  using assms
proof (induction bs arbitrary: t NF best)
  case (Cons b bs)
  from mark_notar_fallback_ok [OF Cons.prems(1), of b] Cons.prems(2) obtain t1 out where
    t1: "mark_notar_fallback t b = Some (t1, out)" "prt_root t1 = prt_root t" "tracker_ok t1 (insert b NF) SK" by auto
  from Cons.IH [OF t1(3), of "consider_ready out best"] Cons.prems(2) show ?case using t1(1,2) by auto
qed simp

lemma fin_skips_ok:
  assumes "tracker_ok t NF SK" "\<forall>s \<in> set ss. s < u64_max"
  shows "\<exists>t' best'. fin_skips ss t best = Some (t', best') \<and> prt_root t' = prt_root t \<and> tracker_ok t' NF (set ss \<union> SK)"
  using assms
proof (induction ss arbitrary: t SK best)
  case (Cons s ss)
  from mark_skipped_ok [OF Cons.prems(1), of s] Cons.prems(2) obtain t1 out where
    t1: "mark_skipped t s = Some (t1, out)" "prt_root t1 = prt_root t" "tracker_ok t1 NF (insert s SK)" by auto
  from Cons.IH [OF t1(3), of "consider_ready out best"] Cons.prems(2) show ?case using t1(1,2) by auto
qed simp

lemma handle_finalization_ok:
  assumes "tracker_ok t NF SK" "\<forall>b \<in> set_option fin \<union> set bs. bslot b < u64_max" "\<forall>s \<in> set ss. s < u64_max"
  shows "\<exists>t' best. handle_finalization t fin bs ss = Some (t', best) \<and> prt_root t' = prt_root t \<and>
           tracker_ok t' (set_option fin \<union> set bs \<union> NF) (set ss \<union> SK)"
proof -
  define l where "l = (case fin of Some f \<Rightarrow> [f] | None \<Rightarrow> [])"
  have l: "set l = set_option fin" by (auto simp: l_def split: option.splits)
  have "\<forall>b \<in> set l. bslot b < u64_max" using assms(2) l by auto
  from fin_blocks_ok [OF assms(1) this, of None] obtain t1 b1 where
    t1: "fin_blocks l t None = Some (t1, b1)" "prt_root t1 = prt_root t" "tracker_ok t1 (set_option fin \<union> NF) SK" unfolding l by auto
  have "\<forall>b \<in> set bs. bslot b < u64_max" using assms(2) by auto
  from fin_blocks_ok [OF t1(3) this, of b1] obtain t2 b2 where
    t2: "fin_blocks bs t1 b1 = Some (t2, b2)" "prt_root t2 = prt_root t1" "tracker_ok t2 (set bs \<union> (set_option fin \<union> NF)) SK" by auto
  from fin_skips_ok [OF t2(3) assms(3), of b2] obtain t3 b3 where
    t3: "fin_skips ss t2 b2 = Some (t3, b3)" "prt_root t3 = prt_root t2"
      "tracker_ok t3 (set bs \<union> (set_option fin \<union> NF)) (set ss \<union> SK)" by auto
  have "(case fin of Some f \<Rightarrow> fin_blocks [f] t None | None \<Rightarrow> Some (t, None)) = fin_blocks l t None"
    by (simp add: l_def split: option.splits)
  then have "handle_finalization t fin bs ss = Some (t3, b3)" by (simp add: handle_finalization_def t1(1) t2(1) t3(1))
  then show ?thesis using t1(2) t2(2) t3(2,3) by (auto simp: Un_ac)
qed

lemma slot_ok_root:
  assumes ok: "slot_ok r NF SK s st" and "r \<le> r'"
  shows "slot_ok r' NF SK s st"
proof (rule slot_okI)
  fix b
  show "is_start_of_window s \<and> valid_parent NF SK s b" if "b \<in> set (ready_ids st)" using slot_okD(5,6) [OF ok that] by simp
  show "b \<in> set (ready_ids st)" if "is_start_of_window s" "r' \<le> bslot b" "valid_parent NF SK s b"
    using slot_okD(7) [OF ok that(1) _ that(3)] that(2) assms(2) by simp
qed (rule slot_okD [OF ok])+

lemma prune_ok:
  assumes ok: "tracker_ok t NF SK" and r: "prt_root t \<le> r"
  shows "tracker_ok (prt_prune t r) NF SK"
proof -
  have "slot_ok r NF SK s (slot_state (prt_prune t r) s)" if "r \<le> s" for s
    unfolding slot_state_prune [OF that] using slot_ok_root [OF tracker_slot [OF ok le_trans [OF r that]] r] .
  then show ?thesis using ok by (simp add: tracker_ok_def)
qed

lemma tracker_default_ok: "tracker_ok tracker_default {block_id_genesis 0} {}"
proof -
  have st: "slot_state tracker_default s = (if s = 0 then prs_genesis 0 else prs_new s)" for s
    by (simp add: slot_state_def tracker_default_def hm_get_or_def)
  have no: "\<not> valid_parent {block_id_genesis 0} {} s b" if "is_start_of_window s" for s b
  proof
    assume v: "valid_parent {block_id_genesis 0} {} s b"
    then have "0 < s" "\<forall>k. 0 < k \<longrightarrow> \<not> k < s" by (auto simp: valid_parent_def linked_def block_id_genesis_def)
    then have "0 < s" "\<not> 1 < s" by simp_all
    then have "s = 1" by simp
    then show False using that by (simp add: is_start_of_window_def SLOTS_PER_WINDOW_def)
  qed
  have "slot_ok 0 {block_id_genesis 0} {} s (slot_state tracker_default s)" for s
  proof (rule slot_okI)
    have rd: "ready_ids (slot_state tracker_default s) = []" by (simp add: st prs_genesis_def prs_new_def)
    fix h b
    show "prs_skip (slot_state tracker_default s) \<longleftrightarrow> s \<in> {}" "distinct (notar_fallbacks (slot_state tracker_default s))"
      by (simp_all add: st prs_genesis_def prs_new_def)
    show "h \<in> set (notar_fallbacks (slot_state tracker_default s)) \<longleftrightarrow> block_id s h \<in> {block_id_genesis 0}"
      by (simp add: st prs_genesis_def prs_new_def block_id_genesis_def block_id_def)
    show "distinct (ready_ids (slot_state tracker_default s))" by (simp add: rd)
    show "is_start_of_window s \<and> valid_parent {block_id_genesis 0} {} s b" if "b \<in> set (ready_ids (slot_state tracker_default s))"
      using that by (simp add: rd)
    show "b \<in> set (ready_ids (slot_state tracker_default s))" if "is_start_of_window s" "valid_parent {block_id_genesis 0} {} s b"
      using no that by blast
  qed
  then show ?thesis by (simp add: tracker_ok_def tracker_default_def)
qed

subsection \<open>Sequences of operations\<close>

datatype tracker_op =
    NotarOp BlockId
  | SkipOp slot
  | FinalOp "BlockId option" "BlockId list" "slot list"
  | WaitOp slot
  | PruneOp slot

fun tracker_exec :: "tracker_op \<Rightarrow> ParentReadyTracker \<Rightarrow> ParentReadyTracker option" where
  "tracker_exec (NotarOp b) t = map_option fst (mark_notar_fallback t b)"
| "tracker_exec (SkipOp s) t = map_option fst (mark_skipped t s)"
| "tracker_exec (FinalOp f bs ss) t = map_option fst (handle_finalization t f bs ss)"
| "tracker_exec (WaitOp s) t = Some (fst (wait_for_parent_ready t s))"
| "tracker_exec (PruneOp r) t = Some (prt_prune t r)"

fun tracker_run :: "tracker_op list \<Rightarrow> ParentReadyTracker \<Rightarrow> ParentReadyTracker option" where
  "tracker_run [] t = Some t"
| "tracker_run (x # xs) t = do { t' \<leftarrow> tracker_exec x t; tracker_run xs t' }"

text \<open>The abstract operations, and what the callers guarantee: slots below the last one, and a root that only grows.\<close>

fun op_certifies :: "tracker_op \<Rightarrow> BlockId set" where
  "op_certifies (NotarOp b) = {b}"
| "op_certifies (FinalOp f bs ss) = set_option f \<union> set bs"
| "op_certifies _ = {}"

fun op_skips :: "tracker_op \<Rightarrow> slot set" where
  "op_skips (SkipOp s) = {s}"
| "op_skips (FinalOp f bs ss) = set ss"
| "op_skips _ = {}"

fun ops_ok :: "slot \<Rightarrow> tracker_op list \<Rightarrow> bool" where
  "ops_ok r [] = True"
| "ops_ok r (PruneOp r' # xs) = (r \<le> r' \<and> ops_ok r' xs)"
| "ops_ok r (x # xs) = ((\<forall>b \<in> op_certifies x. bslot b < u64_max) \<and> (\<forall>s \<in> op_skips x. s < u64_max) \<and> ops_ok r xs)"

fun ops_root :: "slot \<Rightarrow> tracker_op list \<Rightarrow> slot" where
  "ops_root r [] = r"
| "ops_root r (PruneOp r' # xs) = ops_root r' xs"
| "ops_root r (x # xs) = ops_root r xs"

lemma tracker_exec_ok:
  assumes ok: "tracker_ok t NF SK" and ops: "ops_ok (prt_root t) (x # xs)"
  shows "\<exists>t'. tracker_exec x t = Some t' \<and> tracker_ok t' (op_certifies x \<union> NF) (op_skips x \<union> SK) \<and> ops_ok (prt_root t') xs \<and>
           ops_root (prt_root t') xs = ops_root (prt_root t) (x # xs)"
proof (cases x)
  case (NotarOp b)
  then show ?thesis using mark_notar_fallback_ok [OF ok, of b] ops by auto
next
  case (SkipOp s)
  then show ?thesis using mark_skipped_ok [OF ok, of s] ops by auto
next
  case (FinalOp f bs ss)
  then show ?thesis using handle_finalization_ok [OF ok, of f bs ss] ops by (auto simp: Un_assoc)
next
  case (WaitOp s)
  then show ?thesis using ok ops by (simp add: wait_for_parent_ready_def tracker_ok_def)
next
  case (PruneOp r)
  then show ?thesis using prune_ok [OF ok, of r] ops by simp
qed

lemma tracker_run_ok:
  assumes "tracker_ok t NF SK" "ops_ok (prt_root t) xs"
  shows "\<exists>t'. tracker_run xs t = Some t' \<and> prt_root t' = ops_root (prt_root t) xs \<and> tracker_ok t' (\<Union>(op_certifies ` set xs) \<union> NF) (\<Union>(op_skips ` set xs) \<union> SK)"
  using assms
proof (induction xs arbitrary: t NF SK)
  case (Cons x xs)
  from tracker_exec_ok [OF Cons.prems] obtain t1 where
    t1: "tracker_exec x t = Some t1" "tracker_ok t1 (op_certifies x \<union> NF) (op_skips x \<union> SK)" "ops_ok (prt_root t1) xs"
      "ops_root (prt_root t1) xs = ops_root (prt_root t) (x # xs)" by blast
  from Cons.IH [OF t1(2,3)] show ?case using t1(1,4) by (auto simp: Un_ac)
qed simp

lemma bytes_less_trans: "bytes_less a b \<Longrightarrow> bytes_less b c \<Longrightarrow> bytes_less a c"
proof (induction a b arbitrary: c rule: bytes_less.induct)
  case (2 b bs)
  then show ?case by (cases c) auto
next
  case (3 a as b bs)
  then show ?case by (cases c) (auto dest: less_trans)
qed simp

lemma key_less_trans: "key_less a b \<Longrightarrow> key_less b c \<Longrightarrow> key_less a c"
  by (auto simp: key_less_def dest: bytes_less_trans)

lemma bytes_less_total: "\<not> bytes_less a b \<Longrightarrow> a = b \<or> bytes_less b a"
proof (induction a arbitrary: b)
  case Nil
  then show ?case by (cases b) auto
next
  case (Cons x a)
  then show ?case by (cases b) auto
qed

lemma key_less_total: "\<not> key_less a b \<Longrightarrow> a = b \<or> key_less b a"
  using bytes_less_total [of "bhash a" "bhash b"] by (cases a; cases b) (auto simp: key_less_def)

lemma min_by_id_ok: "min_by_id b bs \<in> set (b # bs) \<and> (\<forall>c \<in> set (b # bs). \<not> key_less c (min_by_id b bs))"
proof (induction bs arbitrary: b)
  case Nil
  have "\<not> bytes_less h h" for h by (induction h) auto
  then show ?case by (simp add: key_less_def)
next
  case (Cons c cs)
  let ?m = "min_by_id (if key_less c b then c else b) cs"
  from Cons [of "if key_less c b then c else b"] have m: "?m \<in> set (b # c # cs)" "\<forall>x \<in> set cs. \<not> key_less x ?m"
    "\<not> key_less (if key_less c b then c else b) ?m" by (auto split: if_splits)
  have "\<not> key_less b ?m" "\<not> key_less c ?m"
    using m(3) key_less_trans [of c b ?m] key_less_trans [of b c ?m] key_less_trans [of c ?m b] key_less_trans [of ?m c b] key_less_trans [of ?m b c]
      key_less_total [of b ?m] by (auto split: if_splits)
  with m(1,2) show ?case by simp
qed

subsection \<open>Properties\<close>

text \<open>
  C5. The tracker refines its specification. Every sequence of operations from the genesis state, with
  slots below \<open>u64::MAX\<close> and a root that only grows, runs to the end: no parent is ever added
  twice, which would panic, and the forward loop always stops. Afterwards the ready parents of
  a window start from the root on are valid (certified, with every slot between skipped), and every valid
  parent from the root on is among them, once.
\<close>

theorem parent_ready_refines:
  assumes "ops_ok 0 ops"
  shows "\<exists>t. tracker_run ops tracker_default = Some t \<and> prt_root t = ops_root 0 ops \<and>
     (\<forall>s b. prt_root t \<le> s \<longrightarrow> distinct (parents_ready t s) \<and>
        (let v = valid_parent (\<Union>(op_certifies ` set ops) \<union> {block_id_genesis 0}) (\<Union>(op_skips ` set ops)) s b in
         (b \<in> set (parents_ready t s) \<longrightarrow> is_start_of_window s \<and> v) \<and>
         (is_start_of_window s \<and> v \<and> prt_root t \<le> bslot b \<longrightarrow> b \<in> set (parents_ready t s))))"
proof -
  have root: "prt_root tracker_default = 0" by (simp add: tracker_default_def)
  from tracker_run_ok [OF tracker_default_ok, unfolded root, OF assms] obtain t where
    t: "tracker_run ops tracker_default = Some t" "prt_root t = ops_root 0 ops"
      "tracker_ok t (\<Union>(op_certifies ` set ops) \<union> {block_id_genesis 0}) (\<Union>(op_skips ` set ops))" by auto
  note d = slot_okD(4-7) [OF tracker_slot [OF t(3)]]
  show ?thesis unfolding Let_def parents_ready_state using t(1,2) d by blast
qed

theorem parent_ready_refines_witness:
  "\<exists>t. tracker_run [SkipOp 3, SkipOp 1, SkipOp 2] tracker_default = Some t \<and> parents_ready t 4 = [block_id_genesis 0]"
proof -
  let ?ops = "[SkipOp 3, SkipOp 1, SkipOp 2]"
  have "ops_ok 0 ?ops" by (simp add: u64_max_def)
  from parent_ready_refines [OF this] obtain t where t: "tracker_run ?ops tracker_default = Some t" "prt_root t = ops_root 0 ?ops"
    "\<forall>s b. prt_root t \<le> s \<longrightarrow> distinct (parents_ready t s) \<and>
        (let v = valid_parent (\<Union>(op_certifies ` set ?ops) \<union> {block_id_genesis 0}) (\<Union>(op_skips ` set ?ops)) s b in
         (b \<in> set (parents_ready t s) \<longrightarrow> is_start_of_window s \<and> v) \<and>
         (is_start_of_window s \<and> v \<and> prt_root t \<le> bslot b \<longrightarrow> b \<in> set (parents_ready t s)))" by blast
  have sets: "\<Union>(op_certifies ` set ?ops) \<union> {block_id_genesis 0} = {block_id_genesis 0}" "\<Union>(op_skips ` set ?ops) = {3, 1, 2}" by auto
  have "is_start_of_window 4" by (simp add: is_start_of_window_def SLOTS_PER_WINDOW_def)
  with t(2) t(3) [rule_format, of 4, unfolded sets Let_def]
  have t4: "distinct (parents_ready t 4)" "b \<in> set (parents_ready t 4) \<longleftrightarrow> valid_parent {block_id_genesis 0} {3, 1, 2} 4 b" for b
    by auto
  have "valid_parent {block_id_genesis 0} {3, 1, 2} 4 b \<longleftrightarrow> b = block_id_genesis 0" for b
    by (auto simp: valid_parent_def linked_def block_id_genesis_def)
  then have "set (parents_ready t 4) = {block_id_genesis 0}" using t4(2) by auto
  then have "parents_ready t 4 = [block_id_genesis 0]"
    using t4(1) by (cases "parents_ready t 4") (auto simp: insert_eq_iff subset_singleton_iff dest: equalityD1)
  with t(1) show ?thesis by blast
qed

text \<open>
  C35. Marking a block as certified or a slot as skipped returns in every reachable state, and the list it returns
  contains exactly the parents that became ready, none of which was ready before; no parent is lost.
\<close>

theorem marking_reports_new_parents:
  assumes "ops_ok 0 ops" "tracker_run ops tracker_default = Some t" "bslot b < u64_max" "m < u64_max"
  shows "(\<exists>t' out. mark_notar_fallback t b = Some (t', out) \<and> reports t out t') \<and>
         (\<exists>t' out. mark_skipped t m = Some (t', out) \<and> reports t out t')"
proof -
  have root: "prt_root tracker_default = 0" by (simp add: tracker_default_def)
  from tracker_run_ok [OF tracker_default_ok, unfolded root, OF assms(1)] assms(2) obtain NF SK where "tracker_ok t NF SK" by auto
  then show ?thesis using mark_notar_fallback_ok mark_skipped_ok assms(3,4) by metis
qed

theorem marking_reports_new_parents_witness:
  "\<exists>t' out. mark_skipped tracker_default 3 = Some (t', out) \<and> reports tracker_default out t'"
  using marking_reports_new_parents [of "[]" tracker_default "block_id_genesis 0" 3]
  by (simp add: u64_max_def block_id_genesis_def)

text \<open>
  \<open>wait_for_parent_ready\<close> answers exactly when the slot has a ready parent, with a ready parent
  whose slot and hash are minimal, and changes no state that can be observed.
\<close>

lemma wait_for_parent_ready_minimal:
  "(snd (wait_for_parent_ready t s) = None \<longleftrightarrow> parents_ready t s = []) \<and>
   (\<forall>b. snd (wait_for_parent_ready t s) = Some b \<longrightarrow>
      b \<in> set (parents_ready t s) \<and> (\<forall>c \<in> set (parents_ready t s). \<not> key_less c b)) \<and>
   slot_state (fst (wait_for_parent_ready t s)) = slot_state t"
  using min_by_id_ok by (auto simp: wait_for_parent_ready_def prs_wait_for_parent_ready_def parents_ready_state split: list.splits)

end
