(* ===== verification/Alp_Finality.thy ===== *)
theory Alp_Finality
  imports Alp_Base
begin

section \<open>Alpenglow: finality\<close>

text \<open>
  \<open>karstflow-alpenglow/src/finality_tracker.rs\<close>: the finality status of each slot, the parent
  edges, and the two watermarks. A panic (a failed assertion, or a ``consensus safety violation'')
  is \<open>None\<close>. Both maps of the code are association lists.
\<close>

subsection \<open>Definitions\<close>

datatype FinStatus = Notarized | FinalPendingNotar | Finalized | ImplicitlyFinalized | ImplicitlySkipped

record FinalizationEvent =
  ev_finalized :: "BlockId option"
  implicitly_finalized :: "BlockId list"
  implicitly_skipped :: "slot list"

definition ev_default :: FinalizationEvent where
  "ev_default = \<lparr>ev_finalized = None, implicitly_finalized = [], implicitly_skipped = []\<rparr>"

record FinalityTracker =
  ft_status :: "(slot, FinStatus \<times> BlockHash) hmap"
  ft_parents :: "(BlockId, BlockId) hmap"
  highest_finalized_slot :: slot
  first_unpruned_slot :: slot

definition finality_default :: FinalityTracker where
  "finality_default =
     \<lparr>ft_status = [(0, (Notarized, GENESIS_BLOCK_HASH))], ft_parents = [], highest_finalized_slot = 0, first_unpruned_slot = 0\<rparr>"

definition status_insert ::
  "FinalityTracker \<Rightarrow> slot \<Rightarrow> FinStatus \<Rightarrow> BlockHash \<Rightarrow> FinalityTracker \<times> (FinStatus \<times> BlockHash) option" where
  "status_insert t s st h = (t\<lparr>ft_status := hm_insert s (st, h) (ft_status t)\<rparr>, hm_get (ft_status t) s)"

definition status_of :: "FinalityTracker \<Rightarrow> slot \<Rightarrow> (FinStatus \<times> BlockHash) option" where
  "status_of t s = hm_get (ft_status t) s"

definition has_parent :: "FinalityTracker \<Rightarrow> BlockId \<Rightarrow> bool" where
  "has_parent t b = (hm_get (ft_parents t) b \<noteq> None)"

text \<open>The inner loop over the slots between an ancestor and its child; \<open>False\<close> is the early return.\<close>

fun skip_slots :: "slot list \<Rightarrow> FinalityTracker \<Rightarrow> FinalizationEvent \<Rightarrow> (bool \<times> FinalityTracker \<times> FinalizationEvent) option" where
  "skip_slots [] t ev = Some (True, t, ev)"
| "skip_slots (s # ss) t ev =
     (let (t, old) = status_insert t s ImplicitlySkipped GENESIS_BLOCK_HASH;
          ev' = ev\<lparr>implicitly_skipped := implicitly_skipped ev @ [s]\<rparr>
      in case old of
           None \<Rightarrow> skip_slots ss t ev'
         | Some (ImplicitlySkipped, _) \<Rightarrow> Some (False, t, ev)
         | Some (Notarized, _) \<Rightarrow> skip_slots ss t ev'
         | Some _ \<Rightarrow> None)"

text \<open>The assertion at the head of the loop bounds the number of iterations.\<close>

function handle_implicitly_finalized ::
  "slot \<Rightarrow> BlockId \<Rightarrow> FinalityTracker \<Rightarrow> FinalizationEvent \<Rightarrow> (FinalityTracker \<times> FinalizationEvent) option" where
  "handle_implicitly_finalized source_slot cur t ev =
     (if \<not> source_slot > bslot cur then None
      else if bslot cur < first_unpruned_slot t then Some (t, ev)
      else case skip_slots [bslot cur + 1..<source_slot] t ev of
             None \<Rightarrow> None
           | Some (False, t, ev) \<Rightarrow> Some (t, ev)
           | Some (True, t, ev) \<Rightarrow>
               (let (t', old) = status_insert t (bslot cur) ImplicitlyFinalized (bhash cur);
                    ev' = ev\<lparr>implicitly_finalized := implicitly_finalized ev @ [cur]\<rparr>;
                    up = (case hm_get (ft_parents t') cur of
                            None \<Rightarrow> Some (t', ev')
                          | Some parent \<Rightarrow> handle_implicitly_finalized (bslot cur) parent t' ev')
                in case old of
                     None \<Rightarrow> up
                   | Some (old_status, old_hash) \<Rightarrow>
                       (case old_status of
                          Finalized \<Rightarrow> if old_hash = bhash cur then Some (fst (status_insert t' (bslot cur) old_status old_hash), ev) else None
                        | ImplicitlyFinalized \<Rightarrow>
                            if old_hash = bhash cur then Some (fst (status_insert t' (bslot cur) old_status old_hash), ev) else None
                        | Notarized \<Rightarrow> if old_hash = bhash cur then up else None
                        | FinalPendingNotar \<Rightarrow> up
                        | ImplicitlySkipped \<Rightarrow> None)))"
  by pat_completeness auto
termination by (relation "measure (\<lambda>(s, _). s)") auto

declare handle_implicitly_finalized.simps [simp del]

fun decided :: "FinStatus \<Rightarrow> bool" where
  "decided Finalized = True"
| "decided ImplicitlyFinalized = True"
| "decided ImplicitlySkipped = True"
| "decided _ = False"

partial_function (option) prune_loop :: "slot \<Rightarrow> FinalityTracker \<Rightarrow> FinalityTracker option" where
  "prune_loop next t =
     (case hm_get (ft_status t) next of
        None \<Rightarrow> Some t
      | Some sh \<Rightarrow> if \<not> decided (fst sh) then Some t else prune_loop (add64 next 1) (t\<lparr>first_unpruned_slot := next\<rparr>))"

declare prune_loop.simps [code]

definition ft_prune :: "FinalityTracker \<Rightarrow> FinalityTracker option" where
  "ft_prune t =
     do {
       t \<leftarrow> prune_loop (add64 (first_unpruned_slot t) 1) t;
       let root = first_unpruned_slot t;
       Some (t\<lparr>ft_status := hm_retain (\<lambda>s _. s \<ge> root) (ft_status t),
               ft_parents := hm_retain (\<lambda>k _. bslot k \<ge> root) (ft_parents t)\<rparr>)
     }"

definition handle_finalized_block ::
  "FinalityTracker \<Rightarrow> BlockId \<Rightarrow> FinalizationEvent \<Rightarrow> (FinalityTracker \<times> FinalizationEvent) option" where
  "handle_finalized_block t finalized ev =
     do {
       let ev = ev\<lparr>ev_finalized := Some finalized\<rparr>;
       let t = t\<lparr>highest_finalized_slot := max (highest_finalized_slot t) (bslot finalized)\<rparr>;
       (t, ev) \<leftarrow> (case hm_get (ft_parents t) finalized of
                   Some parent \<Rightarrow> handle_implicitly_finalized (bslot finalized) parent t ev
                 | None \<Rightarrow> Some (t, ev));
       t \<leftarrow> ft_prune t;
       Some (t, ev)
     }"

definition add_parent :: "FinalityTracker \<Rightarrow> BlockId \<Rightarrow> BlockId \<Rightarrow> (FinalityTracker \<times> FinalizationEvent) option" where
  "add_parent t block parent =
     (if \<not> bslot block > bslot parent then None
      else if bslot block < first_unpruned_slot t then Some (t, ev_default)
      else case hm_get (ft_parents t) block of
             Some existing \<Rightarrow> if existing = parent then Some (t, ev_default) else None
           | None \<Rightarrow>
               (let t = t\<lparr>ft_parents := hm_insert block parent (ft_parents t)\<rparr>
                in case hm_get (ft_status t) (bslot block) of
                     Some (status, hash) \<Rightarrow>
                       if (status = Finalized \<or> status = ImplicitlyFinalized) \<and> hash = bhash block
                       then do {
                         (t, ev) \<leftarrow> handle_implicitly_finalized (bslot block) parent t ev_default;
                         t \<leftarrow> ft_prune t;
                         Some (t, ev)
                       }
                       else Some (t, ev_default)
                   | None \<Rightarrow> Some (t, ev_default)))"

definition mark_fast_finalized :: "FinalityTracker \<Rightarrow> BlockId \<Rightarrow> (FinalityTracker \<times> FinalizationEvent) option" where
  "mark_fast_finalized t block =
     (if bslot block < first_unpruned_slot t then Some (t, ev_default)
      else let (t, old) = status_insert t (bslot block) Finalized (bhash block)
           in case old of
                None \<Rightarrow> handle_finalized_block t block ev_default
              | Some (old_status, old_hash) \<Rightarrow>
                  (case old_status of
                     Finalized \<Rightarrow> if old_hash = bhash block then Some (t, ev_default) else None
                   | ImplicitlyFinalized \<Rightarrow> if old_hash = bhash block then Some (t, ev_default) else None
                   | Notarized \<Rightarrow> if old_hash = bhash block then handle_finalized_block t block ev_default else None
                   | FinalPendingNotar \<Rightarrow> handle_finalized_block t block ev_default
                   | ImplicitlySkipped \<Rightarrow> None))"

definition mark_notarized :: "FinalityTracker \<Rightarrow> BlockId \<Rightarrow> (FinalityTracker \<times> FinalizationEvent) option" where
  "mark_notarized t block =
     (if bslot block < first_unpruned_slot t then Some (t, ev_default)
      else let (t, old) = status_insert t (bslot block) Notarized (bhash block)
           in case old of
                None \<Rightarrow> Some (t, ev_default)
              | Some (old_status, old_hash) \<Rightarrow>
                  (case old_status of
                     ImplicitlySkipped \<Rightarrow> Some (t, ev_default)
                   | FinalPendingNotar \<Rightarrow>
                       handle_finalized_block (fst (status_insert t (bslot block) Finalized (bhash block))) block ev_default
                   | _ \<Rightarrow> if old_hash = bhash block then Some (t, ev_default) else None))"

definition mark_finalized :: "FinalityTracker \<Rightarrow> slot \<Rightarrow> (FinalityTracker \<times> FinalizationEvent) option" where
  "mark_finalized t s =
     (if s < first_unpruned_slot t then Some (t, ev_default)
      else let (t, old) = status_insert t s FinalPendingNotar GENESIS_BLOCK_HASH
           in case old of
                None \<Rightarrow> Some (t, ev_default)
              | Some (old_status, old_hash) \<Rightarrow>
                  (case old_status of
                     Notarized \<Rightarrow>
                       handle_finalized_block (fst (status_insert t s Finalized old_hash)) (block_id s old_hash) ev_default
                   | ImplicitlySkipped \<Rightarrow> None
                   | _ \<Rightarrow> Some (t, ev_default)))"

subsection \<open>Frame\<close>

lemma status_insert_simps [simp]:
  "ft_parents (fst (status_insert t s st h)) = ft_parents t"
  "highest_finalized_slot (fst (status_insert t s st h)) = highest_finalized_slot t"
  "first_unpruned_slot (fst (status_insert t s st h)) = first_unpruned_slot t"
  "snd (status_insert t s st h) = status_of t s"
  "status_of (fst (status_insert t s st h)) k = (if k = s then Some (st, h) else status_of t k)"
  by (simp_all add: status_insert_def status_of_def hm_simps)

text \<open>A slot with a decided status.\<close>

definition slot_decided :: "FinalityTracker \<Rightarrow> slot \<Rightarrow> bool" where
  "slot_decided t k = (case status_of t k of None \<Rightarrow> False | Some sh \<Rightarrow> decided (fst sh))"

definition keys_fit :: "FinalityTracker \<Rightarrow> bool" where
  "keys_fit t \<longleftrightarrow> (\<forall>k. status_of t k \<noteq> None \<longrightarrow> k < u64_max)"

lemma prune_loop_ok:
  assumes "keys_fit t" "next \<le> u64_max"
  shows "\<exists>n. prune_loop next t = Some (t\<lparr>first_unpruned_slot := n\<rparr>) \<and>
           (n = first_unpruned_slot t \<and> \<not> slot_decided t next \<or>
            next \<le> n \<and> n < u64_max \<and> (\<forall>k. next \<le> k \<and> k \<le> n \<longrightarrow> slot_decided t k) \<and> \<not> slot_decided t (Suc n))"
  using assms
proof (induction "u64_max - next" arbitrary: "next" t rule: less_induct)
  case less
  show ?case
  proof (cases "slot_decided t next")
    case False
    then have "prune_loop next t = Some t"
      by (subst prune_loop.simps) (auto simp: slot_decided_def status_of_def split: option.splits)
    then show ?thesis using False by (intro exI [of _ "first_unpruned_slot t"]) simp
  next
    case True
    let ?t = "t\<lparr>first_unpruned_slot := next\<rparr>"
    have same: "status_of ?t k = status_of t k" "slot_decided ?t k = slot_decided t k" for k
      by (simp_all add: status_of_def slot_decided_def)
    have lt: "next < u64_max" using True less.prems(1) by (auto simp: slot_decided_def keys_fit_def split: option.splits)
    then have add: "add64 next 1 = Suc next" by (simp add: add64_def u64_max_def)
    have run: "prune_loop next t = prune_loop (Suc next) ?t"
      using True by (subst prune_loop.simps) (auto simp: slot_decided_def status_of_def add [symmetric] split: option.splits)
    have fit: "keys_fit ?t" using less.prems(1) by (simp add: keys_fit_def same)
    have "u64_max - Suc next < u64_max - next" "Suc next \<le> u64_max" using lt by simp_all
    from less.hyps [OF this(1) fit this(2), unfolded same] obtain n where
      n: "prune_loop (Suc next) ?t = Some (?t\<lparr>first_unpruned_slot := n\<rparr>)"
        "n = next \<and> \<not> slot_decided t (Suc next) \<or>
         Suc next \<le> n \<and> n < u64_max \<and> (\<forall>k. Suc next \<le> k \<and> k \<le> n \<longrightarrow> slot_decided t k) \<and> \<not> slot_decided t (Suc n)"
      by auto
    have "slot_decided t k" if "next \<le> k" "k \<le> n" for k
      using that n(2) True by (cases "k = next") auto
    then show ?thesis using run n lt by auto
  qed
qed

text \<open>Pruning always ends, with the watermark below the first slot that is not decided.\<close>

definition pruned :: "FinalityTracker \<Rightarrow> FinalityTracker \<Rightarrow> bool" where
  "pruned t t' \<longleftrightarrow>
     (let n = first_unpruned_slot t' in
      first_unpruned_slot t \<le> n \<and> (\<forall>k. first_unpruned_slot t < k \<and> k \<le> n \<longrightarrow> slot_decided t k) \<and> \<not> slot_decided t (Suc n) \<and>
      (n < u64_max) \<and>
      highest_finalized_slot t' = highest_finalized_slot t \<and>
      (\<forall>k. status_of t' k = (if n \<le> k then status_of t k else None)) \<and>
      (\<forall>b. hm_get (ft_parents t') b = (if n \<le> bslot b then hm_get (ft_parents t) b else None)))"

lemma ft_prune_ok:
  assumes "keys_fit t" "first_unpruned_slot t < u64_max"
  shows "\<exists>t'. ft_prune t = Some t' \<and> pruned t t'"
proof -
  have add: "add64 (first_unpruned_slot t) 1 = Suc (first_unpruned_slot t)" using assms(2) by (simp add: add64_def u64_max_def)
  from prune_loop_ok [OF assms(1), of "Suc (first_unpruned_slot t)"] assms(2) obtain n where
    n: "prune_loop (Suc (first_unpruned_slot t)) t = Some (t\<lparr>first_unpruned_slot := n\<rparr>)"
      "n = first_unpruned_slot t \<and> \<not> slot_decided t (Suc (first_unpruned_slot t)) \<or>
       Suc (first_unpruned_slot t) \<le> n \<and> n < u64_max \<and> (\<forall>k. Suc (first_unpruned_slot t) \<le> k \<and> k \<le> n \<longrightarrow> slot_decided t k) \<and>
       \<not> slot_decided t (Suc n)" by auto
  let ?t = "t\<lparr>first_unpruned_slot := n, ft_status := hm_retain (\<lambda>s _. s \<ge> n) (ft_status t),
               ft_parents := hm_retain (\<lambda>k _. bslot k \<ge> n) (ft_parents t)\<rparr>"
  have "ft_prune t = Some ?t" by (simp only: ft_prune_def add n(1) bind.bind_lunit Let_def) simp
  moreover have "pruned t ?t" using n(2) assms(2) by (auto simp: pruned_def status_of_def hm_simps)
  ultimately show ?thesis by blast
qed

subsection \<open>The walk through the ancestors\<close>

text \<open>
  What a walk reports: ancestors and skipped slots below its start that were not decided before;
  afterwards they have the reported status, and no other status has changed.
\<close>

definition skips_genesis :: "FinalityTracker \<Rightarrow> bool" where
  "skips_genesis t \<longleftrightarrow> (\<forall>k h. status_of t k = Some (ImplicitlySkipped, h) \<longrightarrow> h = GENESIS_BLOCK_HASH)"

definition walked :: "FinalityTracker \<Rightarrow> slot \<Rightarrow> BlockId list \<Rightarrow> slot list \<Rightarrow> FinalityTracker \<Rightarrow> bool" where
  "walked t src A S t' \<longleftrightarrow>
     ft_parents t' = ft_parents t \<and> highest_finalized_slot t' = highest_finalized_slot t \<and>
     first_unpruned_slot t' = first_unpruned_slot t \<and>
     distinct (map bslot A @ S) \<and>
     (\<forall>k \<in> set (map bslot A @ S). first_unpruned_slot t \<le> k \<and> k < src \<and> \<not> slot_decided t k) \<and>
     (\<forall>a \<in> set A. status_of t' (bslot a) = Some (ImplicitlyFinalized, bhash a)) \<and>
     (\<forall>s \<in> set S. status_of t' s = Some (ImplicitlySkipped, GENESIS_BLOCK_HASH)) \<and>
     (\<forall>k. k \<notin> set (map bslot A @ S) \<longrightarrow> status_of t' k = status_of t k)"

definition with_events :: "FinalizationEvent \<Rightarrow> BlockId list \<Rightarrow> slot list \<Rightarrow> FinalizationEvent" where
  "with_events ev A S =
     ev\<lparr>implicitly_finalized := implicitly_finalized ev @ A, implicitly_skipped := implicitly_skipped ev @ S\<rparr>"

lemma walked_refl: "walked t src [] [] t"
  by (simp add: walked_def)

lemma walked_genesis:
  assumes "walked t src A S t'" "skips_genesis t"
  shows "skips_genesis t'"
  unfolding skips_genesis_def
proof (intro allI impI)
  fix k h
  assume k: "status_of t' k = Some (ImplicitlySkipped, h)"
  note w = assms(1) [unfolded walked_def]
  consider "k \<in> set S" | a where "a \<in> set A" "k = bslot a" | "k \<notin> set (map bslot A @ S)" by auto
  then show "h = GENESIS_BLOCK_HASH"
  proof cases
    case 1
    then show ?thesis using w k by auto
  next
    case 2
    then have "status_of t' k = Some (ImplicitlyFinalized, bhash a)" using w by blast
    then show ?thesis using k by simp
  next
    case 3
    then have "status_of t k = Some (ImplicitlySkipped, h)" using w k by auto
    then show ?thesis using assms(2) by (simp add: skips_genesis_def)
  qed
qed

lemma walked_skip:
  assumes "skips_genesis t" "sorted_wrt (<) ss" "\<forall>s \<in> set ss. first_unpruned_slot t \<le> s \<and> s < src"
    and "skip_slots ss t ev = Some (go, t', ev')"
  shows "\<exists>S. ev' = with_events ev [] S \<and> walked t src [] S t' \<and> (go \<longrightarrow> S = ss) \<and> set S \<subseteq> set ss"
  using assms
proof (induction ss arbitrary: t ev)
  case Nil
  then show ?case by (auto simp: with_events_def walked_refl)
next
  case (Cons s ss)
  define t1 where "t1 = fst (status_insert t s ImplicitlySkipped GENESIS_BLOCK_HASH)"
  define ev1 where "ev1 = ev\<lparr>implicitly_skipped := implicitly_skipped ev @ [s]\<rparr>"
  have run: "skip_slots (s # ss) t ev =
      (case status_of t s of
           None \<Rightarrow> skip_slots ss t1 ev1
         | Some (ImplicitlySkipped, _) \<Rightarrow> Some (False, t1, ev)
         | Some (Notarized, _) \<Rightarrow> skip_slots ss t1 ev1
         | Some _ \<Rightarrow> None)"
    unfolding t1_def ev1_def by (simp add: split_beta Let_def)
  have st1: "status_of t1 k = (if k = s then Some (ImplicitlySkipped, GENESIS_BLOCK_HASH) else status_of t k)" for k
    by (simp add: t1_def)
  have fr: "ft_parents t1 = ft_parents t" "highest_finalized_slot t1 = highest_finalized_slot t" "first_unpruned_slot t1 = first_unpruned_slot t"
    by (simp_all add: t1_def)
  show ?case
  proof (cases "slot_decided t s")
    case True
    then obtain h where h: "status_of t s = Some (ImplicitlySkipped, h)" and r: "go = False" "t' = t1" "ev' = ev"
      using Cons.prems(4) run by (auto simp: slot_decided_def split: option.splits prod.splits FinStatus.splits)
    have "h = GENESIS_BLOCK_HASH" using Cons.prems(1) h by (simp add: skips_genesis_def)
    then have "walked t src [] [] t1" using h by (auto simp: walked_def fr st1)
    then show ?thesis using r by (intro exI [of _ "[]"]) (simp add: with_events_def)
  next
    case False
    then have r: "skip_slots ss t1 ev1 = Some (go, t', ev')"
      using Cons.prems(4) run by (auto simp: slot_decided_def split: option.splits prod.splits FinStatus.splits)
    have "skips_genesis t1" using Cons.prems(1) by (auto simp: skips_genesis_def st1 split: if_splits)
    from Cons.IH [OF this _ _ r] Cons.prems(2,3) fr obtain S where
      S: "ev' = with_events ev1 [] S" "walked t1 src [] S t'" "go \<longrightarrow> S = ss" "set S \<subseteq> set ss" by auto
    have ns: "s \<notin> set S" using Cons.prems(2) S(4) by auto
    have dec: "\<not> slot_decided t k" if "k \<in> set S" for k
    proof -
      have "k \<noteq> s" "\<not> slot_decided t1 k" using that ns S(2) by (auto simp: walked_def)
      then show ?thesis by (simp add: slot_decided_def st1)
    qed
    have "status_of t' s = Some (ImplicitlySkipped, GENESIS_BLOCK_HASH)" using S(2) ns by (simp add: walked_def st1)
    moreover have "s < src" "first_unpruned_slot t \<le> s" using Cons.prems(3) by auto
    ultimately have "walked t src [] (s # S) t'"
      using S(2) ns False dec by (auto simp: walked_def fr st1)
    moreover have "ev' = with_events ev [] (s # S)" using S(1) by (simp add: with_events_def ev1_def)
    ultimately show ?thesis using S(3,4) by (intro exI [of _ "s # S"]) auto
  qed
qed

lemma walkedD:
  assumes "walked t src A S t'"
  shows "ft_parents t' = ft_parents t" "highest_finalized_slot t' = highest_finalized_slot t"
    "first_unpruned_slot t' = first_unpruned_slot t" "distinct (map bslot A @ S)"
    "k \<in> set (map bslot A @ S) \<Longrightarrow> first_unpruned_slot t \<le> k \<and> k < src \<and> \<not> slot_decided t k"
    "a \<in> set A \<Longrightarrow> status_of t' (bslot a) = Some (ImplicitlyFinalized, bhash a)"
    "s \<in> set S \<Longrightarrow> status_of t' s = Some (ImplicitlySkipped, GENESIS_BLOCK_HASH)"
    "k \<notin> set (map bslot A @ S) \<Longrightarrow> status_of t' k = status_of t k"
  using assms unfolding walked_def by blast+

lemma walkedI:
  assumes "ft_parents t' = ft_parents t" "highest_finalized_slot t' = highest_finalized_slot t"
    "first_unpruned_slot t' = first_unpruned_slot t" "distinct (map bslot A @ S)"
    "\<And>k. k \<in> set (map bslot A @ S) \<Longrightarrow> first_unpruned_slot t \<le> k \<and> k < src \<and> \<not> slot_decided t k"
    "\<And>a. a \<in> set A \<Longrightarrow> status_of t' (bslot a) = Some (ImplicitlyFinalized, bhash a)"
    "\<And>s. s \<in> set S \<Longrightarrow> status_of t' s = Some (ImplicitlySkipped, GENESIS_BLOCK_HASH)"
    "\<And>k. k \<notin> set (map bslot A @ S) \<Longrightarrow> status_of t' k = status_of t k"
  shows "walked t src A S t'"
  using assms unfolding walked_def by blast

lemma walked_up:
  assumes skip: "walked t src [] S t1" and above: "\<forall>s \<in> set S. c < s" and c: "c = bslot cur" "c < src" "first_unpruned_slot t \<le> c"
    and old: "\<not> slot_decided t1 c" and t2: "t2 = fst (status_insert t1 c ImplicitlyFinalized (bhash cur))"
    and up: "walked t2 c A S' t3"
  shows "walked t src (cur # A) (S @ S') t3"
proof (rule walkedI)
  note s = walkedD [OF skip] and u = walkedD [OF up]
  have st2: "status_of t2 k = (if k = c then Some (ImplicitlyFinalized, bhash cur) else status_of t1 k)" for k by (simp add: t2)
  have fr: "ft_parents t2 = ft_parents t1" "highest_finalized_slot t2 = highest_finalized_slot t1"
    "first_unpruned_slot t2 = first_unpruned_slot t1" by (simp_all add: t2)
  show "ft_parents t3 = ft_parents t" "highest_finalized_slot t3 = highest_finalized_slot t"
    "first_unpruned_slot t3 = first_unpruned_slot t" using s(1-3) u(1-3) fr by simp_all
  have below: "k < c" if "k \<in> set (map bslot A @ S')" for k using u(5) [OF that] by simp
  then have disj: "set S \<inter> set (map bslot A @ S') = {}" using above by fastforce
  show "distinct (map bslot (cur # A) @ (S @ S'))"
    using s(4) u(4) below [of c] above disj c(1) by auto
  have dec: "slot_decided t2 k = slot_decided t k" if "k < c" for k
  proof -
    have "k \<notin> set S" using that above by auto
    then show ?thesis using that s(8) [of k] by (simp add: slot_decided_def st2)
  qed
  have decc: "\<not> slot_decided t c" using old s(8) [of c] above by (auto simp: slot_decided_def)
  fix k x a
  show "first_unpruned_slot t \<le> k \<and> k < src \<and> \<not> slot_decided t k" if "k \<in> set (map bslot (cur # A) @ (S @ S'))"
  proof -
    note mem = that
    consider "k = c" | "k \<in> set S" | "k \<in> set (map bslot A @ S')" using mem c(1) by auto
    then show ?thesis
    proof cases
      case 1
      then show ?thesis using decc c by simp
    next
      case 2
      then show ?thesis using s(5) [of k] by simp
    next
      case 3
      then show ?thesis using u(5) [OF 3] dec [of k] below [OF 3] c(2) s(3) fr(3) by simp
    qed
  qed
  show "status_of t3 (bslot a) = Some (ImplicitlyFinalized, bhash a)" if "a \<in> set (cur # A)"
  proof (cases "a \<in> set A")
    case False
    then have "a = cur" using that by simp
    moreover have "c \<notin> set (map bslot A @ S')" using below [of c] by auto
    ultimately show ?thesis using u(8) [of c] c(1) by (simp add: st2)
  qed (rule u(6))
  show "status_of t3 x = Some (ImplicitlySkipped, GENESIS_BLOCK_HASH)" if "x \<in> set (S @ S')"
  proof (cases "x \<in> set S'")
    case False
    then have x: "x \<in> set S" "c < x" using that above by auto
    then have "x \<notin> set (map bslot A @ S')" using below [of x] by auto
    then show ?thesis using u(8) [of x] s(7) [of x] x by (simp add: st2)
  qed (rule u(7))
  show "status_of t3 k = status_of t k" if "k \<notin> set (map bslot (cur # A) @ (S @ S'))"
    using that u(8) [of k] s(8) [of k] c(1) by (simp add: st2)
qed

text \<open>The reported ancestors are a path of recorded parents.\<close>

fun parent_path :: "(BlockId, BlockId) hmap \<Rightarrow> BlockId list \<Rightarrow> bool" where
  "parent_path ps (a # b # bs) = (hm_get ps a = Some b \<and> parent_path ps (b # bs))"
| "parent_path ps _ = True"

text \<open>One iteration, once the slots between have been skipped.\<close>

definition walk_on :: "BlockId \<Rightarrow> FinalityTracker \<Rightarrow> FinalizationEvent \<Rightarrow> (FinalityTracker \<times> FinalizationEvent) option" where
  "walk_on cur t ev =
     (let t' = fst (status_insert t (bslot cur) ImplicitlyFinalized (bhash cur));
          ev' = ev\<lparr>implicitly_finalized := implicitly_finalized ev @ [cur]\<rparr>
      in case hm_get (ft_parents t) cur of
           None \<Rightarrow> Some (t', ev')
         | Some parent \<Rightarrow> handle_implicitly_finalized (bslot cur) parent t' ev')"

lemma walk_step:
  assumes "bslot cur < src" "\<not> bslot cur < first_unpruned_slot t" "skip_slots [bslot cur + 1..<src] t ev = Some (True, t1, ev1)"
  shows "handle_implicitly_finalized src cur t ev =
     (case status_of t1 (bslot cur) of
        None \<Rightarrow> walk_on cur t1 ev1
      | Some (st, h) \<Rightarrow>
          if st = ImplicitlySkipped \<or> st \<noteq> FinalPendingNotar \<and> h \<noteq> bhash cur then None
          else if st = Notarized \<or> st = FinalPendingNotar then walk_on cur t1 ev1
          else Some (fst (status_insert (fst (status_insert t1 (bslot cur) ImplicitlyFinalized (bhash cur))) (bslot cur) st h), ev1))"
  using assms
  by (subst handle_implicitly_finalized.simps)
     (simp add: walk_on_def Let_def split_beta split: option.split prod.split FinStatus.split)

lemma walk_spec:
  assumes "handle_implicitly_finalized src cur t ev = Some (t', ev')" "skips_genesis t"
  shows "\<exists>A S. ev' = with_events ev A S \<and> walked t src A S t' \<and> parent_path (ft_parents t) A \<and> (A \<noteq> [] \<longrightarrow> hd A = cur)"
  using assms
proof (induction src arbitrary: cur t ev rule: less_induct)
  case (less src)
  let ?c = "bslot cur"
  note run = less.prems(1) and gen = less.prems(2)
  have src: "?c < src" using run by (subst (asm) handle_implicitly_finalized.simps) (auto split: if_splits)
  show ?case
  proof (cases "?c < first_unpruned_slot t")
    case True
    then have "handle_implicitly_finalized src cur t ev = Some (t, ev)" using src by (subst handle_implicitly_finalized.simps) simp
    then have "t' = t" "ev' = ev" using run by simp_all
    then show ?thesis by (intro exI [of _ "[]"]) (simp add: with_events_def walked_refl)
  next
    case unpruned: False
    then obtain go t1 ev1 where skip: "skip_slots [?c + 1..<src] t ev = Some (go, t1, ev1)"
      using run src by (subst (asm) handle_implicitly_finalized.simps) (auto split: option.splits)
    have "\<forall>s \<in> set [?c + 1..<src]. first_unpruned_slot t \<le> s \<and> s < src" using unpruned by auto
    from walked_skip [OF gen _ this skip] obtain S where
      S: "ev1 = with_events ev [] S" "walked t src [] S t1" "set S \<subseteq> set [?c + 1..<src]" by auto
    show ?thesis
    proof (cases go)
      case False
      then have "handle_implicitly_finalized src cur t ev = Some (t1, ev1)"
        using src unpruned skip by (subst handle_implicitly_finalized.simps) simp
      then have "t' = t1" "ev' = ev1" using run by simp_all
      then show ?thesis using S by (intro exI [of _ "[]"] exI [of _ S]) simp
    next
      case True
      note step = walk_step [OF src unpruned skip [unfolded eqTrueI [OF True]]]
      show ?thesis
      proof (cases "slot_decided t1 ?c")
        case True
        then obtain st h where old: "status_of t1 ?c = Some (st, h)" "ev' = ev1"
          "t' = fst (status_insert (fst (status_insert t1 ?c ImplicitlyFinalized (bhash cur))) ?c st h)"
          using run unfolding step by (auto simp: slot_decided_def split: option.splits if_splits)
        have "walked t src [] S t'"
          by (rule walkedI) (use walkedD [OF S(2)] old(1) in \<open>auto simp: old(3)\<close>)
        then show ?thesis using S(1) old(2) by (intro exI [of _ "[]"] exI [of _ S]) simp
      next
        case False
        then have on: "walk_on cur t1 ev1 = Some (t', ev')"
          using run unfolding step by (auto simp: slot_decided_def split: option.splits if_splits; case_tac a; simp)
        define t2 where "t2 = fst (status_insert t1 ?c ImplicitlyFinalized (bhash cur))"
        define ev2 where "ev2 = ev1\<lparr>implicitly_finalized := implicitly_finalized ev1 @ [cur]\<rparr>"
        have above: "\<forall>s \<in> set S. ?c < s" using S(3) by auto
        have le: "first_unpruned_slot t \<le> ?c" using unpruned by simp
        note up = walked_up [OF S(2) above refl src le False t2_def]
        have par: "ft_parents t1 = ft_parents t" "ft_parents t2 = ft_parents t" using walkedD(1) [OF S(2)] by (simp_all add: t2_def)
        show ?thesis
        proof (cases "hm_get (ft_parents t) cur")
          case None
          then have "t' = t2" "ev' = ev2" using on by (simp_all add: walk_on_def par t2_def ev2_def Let_def)
          then show ?thesis using up [OF walked_refl] S(1)
            by (intro exI [of _ "[cur]"] exI [of _ S]) (simp add: ev2_def with_events_def)
        next
          case (Some p)
          then have on: "handle_implicitly_finalized ?c p t2 ev2 = Some (t', ev')"
            using on by (simp add: walk_on_def par t2_def ev2_def Let_def)
          have "skips_genesis t2" using walked_genesis [OF S(2) gen] by (simp add: skips_genesis_def t2_def)
          from less.IH [OF src on this] obtain A S' where
            ih: "ev' = with_events ev2 A S'" "walked t2 ?c A S' t'" "parent_path (ft_parents t2) A" "A \<noteq> [] \<longrightarrow> hd A = p" by blast
          have "parent_path (ft_parents t) (cur # A)" using ih(3,4) Some par by (cases A) auto
          then show ?thesis using up [OF ih(2)] ih(1) S(1)
            by (intro exI [of _ "cur # A"] exI [of _ "S @ S'"]) (simp add: ev2_def with_events_def)
        qed
      qed
    qed
  qed
qed

subsection \<open>Invariant\<close>

definition fin_inv :: "FinalityTracker \<Rightarrow> bool" where
  "fin_inv t \<longleftrightarrow> skips_genesis t \<and> keys_fit t \<and> first_unpruned_slot t < u64_max \<and>
     (\<forall>k. status_of t k \<noteq> None \<longrightarrow> first_unpruned_slot t \<le> k) \<and>
     (\<forall>b p. hm_get (ft_parents t) b = Some p \<longrightarrow> bslot p < bslot b \<and> first_unpruned_slot t \<le> bslot b)"

lemma fin_inv_insert:
  assumes "fin_inv t" "first_unpruned_slot t \<le> s" "s < u64_max" "st = ImplicitlySkipped \<longrightarrow> h = GENESIS_BLOCK_HASH"
  shows "fin_inv (fst (status_insert t s st h))"
  using assms by (auto simp: fin_inv_def skips_genesis_def keys_fit_def)

lemma fin_inv_highest [simp]: "fin_inv (t\<lparr>highest_finalized_slot := h\<rparr>) = fin_inv t"
  by (simp add: fin_inv_def skips_genesis_def keys_fit_def status_of_def)

lemma fin_inv_walked:
  assumes inv: "fin_inv t" and w: "walked t src A S t'" and "src \<le> u64_max"
  shows "fin_inv t'"
proof -
  note d = walkedD [OF w]
  have st: "first_unpruned_slot t \<le> k \<and> k < u64_max" if "status_of t' k \<noteq> None" for k
  proof (cases "k \<in> set (map bslot A @ S)")
    case True
    then show ?thesis using d(5) [OF True] assms(3) by simp
  next
    case False
    then show ?thesis using d(8) [OF False] that inv unfolding fin_inv_def keys_fit_def by metis
  qed
  have "skips_genesis t'" using walked_genesis [OF w] inv by (simp add: fin_inv_def)
  then show ?thesis using st inv d(1-3) by (simp add: fin_inv_def keys_fit_def)
qed

lemma fin_inv_pruned:
  assumes "fin_inv t" "pruned t t'"
  shows "fin_inv t'"
  using assms by (auto simp: fin_inv_def pruned_def Let_def skips_genesis_def keys_fit_def split: if_splits)

lemma walk_then_prune:
  assumes inv: "fin_inv t" and b: "b \<le> u64_max" and run: "do { (t, ev) \<leftarrow> handle_implicitly_finalized b p t ev; t \<leftarrow> ft_prune t; Some (t, ev) } = Some (t', ev')"
  shows "\<exists>A S t1. ev' = with_events ev A S \<and> walked t b A S t1 \<and> pruned t1 t' \<and> parent_path (ft_parents t) A \<and>
           (A \<noteq> [] \<longrightarrow> hd A = p) \<and> fin_inv t'"
proof -
  from run obtain t1 where r: "handle_implicitly_finalized b p t ev = Some (t1, ev')" "ft_prune t1 = Some t'"
    by (auto simp: bind_eq_Some_conv)
  have "skips_genesis t" using inv by (simp add: fin_inv_def)
  from walk_spec [OF r(1) this] obtain A S where
    w: "ev' = with_events ev A S" "walked t b A S t1" "parent_path (ft_parents t) A" "A \<noteq> [] \<longrightarrow> hd A = p" by blast
  have i1: "fin_inv t1" by (rule fin_inv_walked [OF inv w(2) b])
  then have "pruned t1 t'" using ft_prune_ok [of t1] r(2) by (auto simp: fin_inv_def)
  then show ?thesis using w fin_inv_pruned [OF i1] by blast
qed

lemma finalized_block_spec:
  assumes inv: "fin_inv t" and b: "bslot b \<le> u64_max" and run: "handle_finalized_block t b ev = Some (t', ev')"
  shows "\<exists>A S t1. ev' = with_events (ev\<lparr>ev_finalized := Some b\<rparr>) A S \<and>
           walked (t\<lparr>highest_finalized_slot := max (highest_finalized_slot t) (bslot b)\<rparr>) (bslot b) A S t1 \<and> pruned t1 t' \<and>
           parent_path (ft_parents t) (b # A) \<and> fin_inv t'"
proof -
  let ?t = "t\<lparr>highest_finalized_slot := max (highest_finalized_slot t) (bslot b)\<rparr>" and ?ev = "ev\<lparr>ev_finalized := Some b\<rparr>"
  have inv': "fin_inv ?t" using inv by simp
  show ?thesis
  proof (cases "hm_get (ft_parents t) b")
    case None
    then have "ev' = ?ev" "ft_prune ?t = Some t'" using run by (auto simp: handle_finalized_block_def Let_def bind_eq_Some_conv)
    moreover have "pruned ?t t'" using ft_prune_ok [of ?t] inv' calculation(2) by (auto simp: fin_inv_def)
    ultimately show ?thesis using fin_inv_pruned [OF inv'] walked_refl
      by (intro exI [of _ "[]"] exI [of _ ?t]) (simp add: with_events_def)
  next
    case (Some p)
    then have "do { (t, ev) \<leftarrow> handle_implicitly_finalized (bslot b) p ?t ?ev; t \<leftarrow> ft_prune t; Some (t, ev) } = Some (t', ev')"
      using run by (simp add: handle_finalized_block_def Let_def)
    from walk_then_prune [OF inv' b this] obtain A S t1 where
      w: "ev' = with_events ?ev A S" "walked ?t (bslot b) A S t1" "pruned t1 t'" "parent_path (ft_parents ?t) A" "A \<noteq> [] \<longrightarrow> hd A = p"
        "fin_inv t'" by blast
    have "parent_path (ft_parents t) (b # A)" using w(4,5) Some by (cases A) auto
    then show ?thesis using w by blast
  qed
qed

text \<open>What every public operation keeps, and what bounds its event.\<close>

definition fin_next :: "FinalityTracker \<Rightarrow> FinalizationEvent \<Rightarrow> FinalityTracker \<Rightarrow> bool" where
  "fin_next t ev t' \<longleftrightarrow>
     fin_inv t' \<and> first_unpruned_slot t \<le> first_unpruned_slot t' \<and>
     (\<forall>b \<in> set_option (ev_finalized ev) \<union> set (implicitly_finalized ev). bslot b < u64_max) \<and>
     (\<forall>s \<in> set (implicitly_skipped ev). s < u64_max)"

lemma fin_next_default: "fin_inv t' \<Longrightarrow> first_unpruned_slot t \<le> first_unpruned_slot t' \<Longrightarrow> fin_next t ev_default t'"
  by (simp add: fin_next_def ev_default_def)

lemma fin_next_walked:
  assumes "fin_inv t'" "pruned t1 t'" "walked t0 src A S t1" "first_unpruned_slot t0 = first_unpruned_slot t" "src \<le> u64_max"
    and "\<forall>b. ev_finalized ev = Some b \<longrightarrow> bslot b < u64_max"
  shows "fin_next t (with_events (ev_default\<lparr>ev_finalized := ev_finalized ev\<rparr>) A S) t'"
proof -
  have "k < u64_max" if "k \<in> set (map bslot A @ S)" for k using walkedD(5) [OF assms(3) that] assms(5) by simp
  moreover have "first_unpruned_slot t \<le> first_unpruned_slot t'"
    using assms(2,4) walkedD(3) [OF assms(3)] by (simp add: pruned_def Let_def)
  ultimately show ?thesis using assms(1,6) by (auto simp: fin_next_def with_events_def ev_default_def)
qed

lemma add_parent_next:
  assumes inv: "fin_inv t" and b: "bslot b < u64_max" and run: "add_parent t b p = Some (t', ev)"
  shows "fin_next t ev t'"
proof -
  let ?t = "t\<lparr>ft_parents := hm_insert b p (ft_parents t)\<rparr>"
  have inv': "fin_inv ?t" if "bslot p < bslot b" "\<not> bslot b < first_unpruned_slot t"
    using inv that by (auto simp: fin_inv_def skips_genesis_def keys_fit_def status_of_def hm_simps split: if_splits)
  have "fin_next t ev t'" if r: "do { (t, ev) \<leftarrow> handle_implicitly_finalized (bslot b) p ?t ev_default; t \<leftarrow> ft_prune t; Some (t, ev) } = Some (t', ev)"
    "bslot p < bslot b" "\<not> bslot b < first_unpruned_slot t"
  proof -
    from walk_then_prune [OF inv' [OF r(2,3)] _ r(1)] b obtain A S t1 where
      w: "ev = with_events ev_default A S" "walked ?t (bslot b) A S t1" "pruned t1 t'" "fin_inv t'" by auto
    from fin_next_walked [OF w(4,3,2), of t ev_default] b show ?thesis unfolding w(1) by (simp add: ev_default_def)
  qed
  moreover have "fin_next t ev_default t" using inv by (rule fin_next_default) simp
  moreover have "fin_next t ev_default ?t" if "bslot p < bslot b" "\<not> bslot b < first_unpruned_slot t"
    using inv' [OF that] by (rule fin_next_default) simp
  ultimately show ?thesis
    using run unfolding add_parent_def Let_def by (auto split: if_splits option.splits prod.splits)
qed

lemma finalized_next:
  assumes inv: "fin_inv t" and b: "bslot b < u64_max" "\<not> bslot b < first_unpruned_slot t"
    and run: "handle_finalized_block (fst (status_insert t (bslot b) Finalized (bhash b))) b ev_default = Some (t', ev)"
  shows "fin_next t ev t'"
proof -
  have "fin_inv (fst (status_insert t (bslot b) Finalized (bhash b)))" using fin_inv_insert [OF inv _ b(1)] b(2) by simp
  from finalized_block_spec [OF this _ run] b(1) obtain A S t0 t1 where
    w: "ev = with_events (ev_default\<lparr>ev_finalized := Some b\<rparr>) A S" "walked t0 (bslot b) A S t1" "pruned t1 t'" "fin_inv t'"
      "first_unpruned_slot t0 = first_unpruned_slot t" by fastforce
  from fin_next_walked [OF w(4,3,2,5), of "ev_default\<lparr>ev_finalized := Some b\<rparr>"] b(1) show ?thesis unfolding w(1) by simp
qed

lemma inserted_next:
  assumes "fin_inv t" "\<not> s < first_unpruned_slot t" "s < u64_max" "st \<noteq> ImplicitlySkipped"
  shows "fin_inv (fst (status_insert t s st h))" "fin_next t ev_default (fst (status_insert t s st h))"
  using fin_inv_insert [OF assms(1), of s st h] assms(2-4) by (simp_all add: fin_next_default)

lemma mark_fast_finalized_next:
  assumes inv: "fin_inv t" and b: "bslot b < u64_max" and run: "mark_fast_finalized t b = Some (t', ev)"
  shows "fin_next t ev t'"
  using run fin_next_default [OF inv] inserted_next(2) [OF inv _ b] finalized_next [OF inv b] unfolding mark_fast_finalized_def
  by (auto simp: Let_def split_beta split: if_splits option.splits prod.splits FinStatus.splits)

lemma mark_notarized_next:
  assumes inv: "fin_inv t" and b: "bslot b < u64_max" and run: "mark_notarized t b = Some (t', ev)"
  shows "fin_next t ev t'"
proof -
  let ?t = "fst (status_insert t (bslot b) Notarized (bhash b))"
  have "fin_next t ev t'" if "\<not> bslot b < first_unpruned_slot t"
    "handle_finalized_block (fst (status_insert ?t (bslot b) Finalized (bhash b))) b ev_default = Some (t', ev)"
    using finalized_next [OF inserted_next(1) [OF inv that(1) b] b _ that(2)] that(1) by (simp add: fin_next_def)
  then show ?thesis
    using run fin_next_default [OF inv] inserted_next(2) [OF inv _ b] unfolding mark_notarized_def
    by (auto simp: Let_def split_beta split: if_splits option.splits prod.splits FinStatus.splits)
qed

lemma mark_finalized_next:
  assumes inv: "fin_inv t" and s: "s < u64_max" and run: "mark_finalized t s = Some (t', ev)"
  shows "fin_next t ev t'"
proof -
  let ?t = "fst (status_insert t s FinalPendingNotar GENESIS_BLOCK_HASH)"
  have "fin_next t ev t'" if "\<not> s < first_unpruned_slot t"
    "handle_finalized_block (fst (status_insert ?t s Finalized h)) (block_id s h) ev_default = Some (t', ev)" for h
    using finalized_next [OF inserted_next(1) [OF inv that(1) s, of FinalPendingNotar], of "block_id s h"] s that by (simp add: fin_next_def)
  then show ?thesis
    using run fin_next_default [OF inv] inserted_next(2) [OF inv _ s] unfolding mark_finalized_def
    by (auto simp: Let_def split_beta split: if_splits option.splits prod.splits FinStatus.splits)
qed

lemma fin_nextD: "fin_next t ev t' \<Longrightarrow> fin_inv t'"
  by (simp add: fin_next_def)

lemmas fin_nexts = add_parent_next mark_fast_finalized_next mark_notarized_next mark_finalized_next

text \<open>The public operations.\<close>

inductive fin_step :: "FinalityTracker \<Rightarrow> FinalityTracker \<Rightarrow> bool" where
  step_parent: "bslot block < u64_max \<Longrightarrow> add_parent t block parent = Some (t', ev) \<Longrightarrow> fin_step t t'"
| step_fast: "bslot block < u64_max \<Longrightarrow> mark_fast_finalized t block = Some (t', ev) \<Longrightarrow> fin_step t t'"
| step_notarized: "bslot block < u64_max \<Longrightarrow> mark_notarized t block = Some (t', ev) \<Longrightarrow> fin_step t t'"
| step_finalized: "s < u64_max \<Longrightarrow> mark_finalized t s = Some (t', ev) \<Longrightarrow> fin_step t t'"

lemma fin_step_inv:
  assumes "fin_inv t" "fin_step t t'"
  shows "fin_inv t'"
  using assms(2) by cases (blast intro: fin_nextD fin_nexts [OF assms(1)])+

interpretation fin_run: invariant_steps fin_step fin_inv
  by unfold_locales (rule fin_step_inv)

lemma finality_default_inv: "fin_inv finality_default"
  by (auto simp: fin_inv_def finality_default_def skips_genesis_def keys_fit_def status_of_def u64_max_def split: if_splits)

lemmas fin_reachable_inv = fin_run.run_inv [OF _ finality_default_inv]

subsection \<open>A chain that reaches the watermark\<close>

lemma skip_slots_all:
  assumes "distinct ss" "\<forall>s \<in> set ss. case status_of t s of None \<Rightarrow> True | Some sh \<Rightarrow> fst sh = Notarized"
  shows "\<exists>t1 ev1. skip_slots ss t ev = Some (True, t1, ev1)"
  using assms
proof (induction ss arbitrary: t ev)
  case (Cons s ss)
  let ?t = "fst (status_insert t s ImplicitlySkipped GENESIS_BLOCK_HASH)"
  have "\<forall>k \<in> set ss. case status_of ?t k of None \<Rightarrow> True | Some sh \<Rightarrow> fst sh = Notarized" using Cons.prems by auto
  from Cons.IH [OF _ this] Cons.prems have "\<exists>t1 ev1. skip_slots ss ?t ev' = Some (True, t1, ev1)" for ev' by simp
  then show ?case using Cons.prems(2) by (auto simp: Let_def split_beta split: option.splits prod.splits FinStatus.splits)
qed simp

text \<open>The statuses that a chain of ancestors can be walked over.\<close>

definition fits_chain :: "BlockId list \<Rightarrow> FinalityTracker \<Rightarrow> slot \<Rightarrow> bool" where
  "fits_chain C t k =
     (case status_of t k of
        None \<Rightarrow> True
      | Some (st, h) \<Rightarrow>
          (if k = first_unpruned_slot t then st \<noteq> ImplicitlySkipped \<and> (st = FinalPendingNotar \<or> h = bhash (last C))
           else case find (\<lambda>a. bslot a = k) C of
                  None \<Rightarrow> st = Notarized
                | Some a \<Rightarrow> st = FinalPendingNotar \<or> st = Notarized \<and> h = bhash a))"

lemma path_down:
  assumes "\<forall>b p. hm_get ps b = Some p \<longrightarrow> bslot p < bslot b" "parent_path ps (c # A)" "a \<in> set A"
  shows "bslot a < bslot c"
  using assms
proof (induction A arbitrary: c)
  case (Cons x A)
  then have "bslot x < bslot c" by simp
  then show ?case using Cons.IH [of x] Cons.prems by fastforce
qed simp

definition chain_status :: "BlockId list \<Rightarrow> slot \<Rightarrow> FinStatus \<times> BlockHash" where
  "chain_status C k =
     (case find (\<lambda>a. bslot a = k) C of
        None \<Rightarrow> (ImplicitlySkipped, GENESIS_BLOCK_HASH)
      | Some a \<Rightarrow> (ImplicitlyFinalized, bhash a))"

lemma find_slot_None: "(\<And>a. a \<in> set C \<Longrightarrow> bslot a \<noteq> k) \<Longrightarrow> find (\<lambda>a. bslot a = k) C = None"
  by (auto simp: find_None_iff)

text \<open>The slots between the head of the chain and its child are skipped, and the walk goes on.\<close>

lemma chain_skip:
  assumes gen: "skips_genesis t" and top: "\<forall>a \<in> set C. bslot a \<le> bslot cur"
    and lt: "bslot cur < src" and ge: "first_unpruned_slot t \<le> bslot cur"
    and fits: "\<forall>k. first_unpruned_slot t \<le> k \<and> k < src \<longrightarrow> fits_chain C t k"
  shows "\<exists>t1 ev1. skip_slots [bslot cur + 1..<src] t ev = Some (True, t1, ev1) \<and> walked t src [] [bslot cur + 1..<src] t1"
proof -
  have "\<forall>s \<in> set [bslot cur + 1..<src]. case status_of t s of None \<Rightarrow> True | Some sh \<Rightarrow> fst sh = Notarized"
  proof
    fix s assume s: "s \<in> set [bslot cur + 1..<src]"
    then have "find (\<lambda>a. bslot a = s) C = None" using top by (intro find_slot_None) auto
    moreover have "fits_chain C t s" "s \<noteq> first_unpruned_slot t" using fits s ge by auto
    ultimately show "case status_of t s of None \<Rightarrow> True | Some sh \<Rightarrow> fst sh = Notarized"
      by (auto simp: fits_chain_def split: option.splits)
  qed
  from skip_slots_all [OF _ this, of ev] obtain t1 ev1 where skip: "skip_slots [bslot cur + 1..<src] t ev = Some (True, t1, ev1)"
    by auto
  have "\<forall>s \<in> set [bslot cur + 1..<src]. first_unpruned_slot t \<le> s \<and> s < src" using ge by auto
  from walked_skip [OF gen _ this skip] skip show ?thesis by auto
qed

lemma walk_live:
  assumes "\<forall>b p. hm_get (ft_parents t) b = Some p \<longrightarrow> bslot p < bslot b" "skips_genesis t"
    and "parent_path (ft_parents t) (cur # A)" "bslot (last (cur # A)) = first_unpruned_slot t" "bslot cur < src"
    and "\<forall>k. first_unpruned_slot t \<le> k \<and> k < src \<longrightarrow> fits_chain (cur # A) t k"
  shows "\<exists>t' ev'. handle_implicitly_finalized src cur t ev = Some (t', ev') \<and>
           (\<forall>k. first_unpruned_slot t < k \<and> k < src \<longrightarrow> status_of t' k = Some (chain_status (cur # A) k))"
  using assms
proof (induction A arbitrary: cur src t ev)
  case Nil
  let ?c = "bslot cur"
  have fu: "first_unpruned_slot t = ?c" using Nil.prems(4) by simp
  from chain_skip [OF Nil.prems(2), of "[cur]" cur src ev] Nil.prems(5,6) fu obtain t1 ev1 where
    skip: "skip_slots [?c + 1..<src] t ev = Some (True, t1, ev1)" and w: "walked t src [] [?c + 1..<src] t1" by auto
  note d = walkedD [OF w]
  have step: "\<exists>t' ev'. handle_implicitly_finalized src cur t ev = Some (t', ev') \<and> (\<forall>k. ?c < k \<longrightarrow> status_of t' k = status_of t1 k)"
  proof -
    have old: "status_of t1 ?c = status_of t ?c" using d(8) [of ?c] by simp
    have "fits_chain [cur] t ?c" using Nil.prems(5,6) fu by auto
    then have ok: "case status_of t1 ?c of None \<Rightarrow> True | Some (st, h) \<Rightarrow> st \<noteq> ImplicitlySkipped \<and> (st = FinalPendingNotar \<or> h = bhash cur)"
      by (simp add: fits_chain_def fu old split: option.splits prod.splits)
    have "\<exists>t' ev'. walk_on cur t1 ev1 = Some (t', ev') \<and> (\<forall>k. ?c < k \<longrightarrow> status_of t' k = status_of t1 k)"
    proof (cases "hm_get (ft_parents t1) cur")
      case None
      then show ?thesis by (simp add: walk_on_def Let_def)
    next
      case (Some p)
      then have "bslot p < ?c" using Nil.prems(1) d(1) by simp
      then show ?thesis using Some fu d(3)
        by (simp add: walk_on_def Let_def handle_implicitly_finalized.simps [of ?c p])
    qed
    then show ?thesis using ok walk_step [OF Nil.prems(5) _ skip] fu by (auto split: option.splits)
  qed
  have "status_of t1 k = Some (chain_status [cur] k)" if "?c < k" "k < src" for k
    using d(7) [of k] that by (simp add: chain_status_def)
  then show ?case using step fu by fastforce
next
  case (Cons a A)
  let ?c = "bslot cur" and ?C = "cur # a # A"
  have par: "hm_get (ft_parents t) cur = Some a" and path: "parent_path (ft_parents t) (a # A)" using Cons.prems(3) by simp_all
  have below: "bslot x < ?c" if "x \<in> set (a # A)" for x using path_down [OF Cons.prems(1,3) that] .
  have fu: "first_unpruned_slot t < ?c" using below [of "last (a # A)"] Cons.prems(4) by simp
  from chain_skip [OF Cons.prems(2), of ?C cur src ev] Cons.prems(5,6) fu below obtain t1 ev1 where
    skip: "skip_slots [?c + 1..<src] t ev = Some (True, t1, ev1)" and w: "walked t src [] [?c + 1..<src] t1"
    by (auto simp: less_imp_le)
  note d = walkedD [OF w]
  define t2 where "t2 = fst (status_insert t1 ?c ImplicitlyFinalized (bhash cur))"
  define ev2 where "ev2 = ev1\<lparr>implicitly_finalized := implicitly_finalized ev1 @ [cur]\<rparr>"
  have st2: "status_of t2 k = (if k = ?c then Some (ImplicitlyFinalized, bhash cur) else status_of t1 k)" for k by (simp add: t2_def)
  have fr: "ft_parents t2 = ft_parents t" "first_unpruned_slot t2 = first_unpruned_slot t" using d(1,3) by (simp_all add: t2_def)
  have gen2: "skips_genesis t2" using walked_genesis [OF w Cons.prems(2)] by (simp add: skips_genesis_def st2)
  have "fits_chain ?C t ?c" using Cons.prems(5,6) fu by simp
  then have "handle_implicitly_finalized src cur t ev = walk_on cur t1 ev1"
    using walk_step [OF Cons.prems(5) _ skip] fu d(8) [of ?c] by (auto simp: fits_chain_def split: option.splits)
  then have run: "handle_implicitly_finalized src cur t ev = handle_implicitly_finalized ?c a t2 ev2"
    using par d(1) by (simp add: walk_on_def Let_def t2_def ev2_def)
  have "fits_chain (a # A) t2 k" if "first_unpruned_slot t2 \<le> k" "k < ?c" for k
  proof -
    have "fits_chain ?C t k" using Cons.prems(5,6) that fr(2) by simp
    then show ?thesis using that d(8) [of k] by (auto simp: fits_chain_def st2 fr split: option.splits if_splits)
  qed
  moreover have "bslot (last (a # A)) = first_unpruned_slot t2" using Cons.prems(4) fr(2) by simp
  moreover have "bslot a < ?c" using below by simp
  ultimately obtain t' ev' where ih: "handle_implicitly_finalized ?c a t2 ev2 = Some (t', ev')"
    "\<forall>k. first_unpruned_slot t2 < k \<and> k < ?c \<longrightarrow> status_of t' k = Some (chain_status (a # A) k)"
    using Cons.IH [of t2 a ?c ev2] Cons.prems(1) gen2 path unfolding fr by blast
  from walk_spec [OF ih(1) gen2] obtain B S where w': "walked t2 ?c B S t'" by blast
  have up: "status_of t' k = status_of t2 k" if "?c \<le> k" for k using walkedD(5,8) [OF w', of k] that by auto
  have "status_of t' k = Some (chain_status ?C k)" if k: "first_unpruned_slot t < k" "k < src" for k
  proof (cases k ?c rule: linorder_cases)
    case less
    then show ?thesis using ih(2) k fr(2) by (simp add: chain_status_def)
  next
    case equal
    then show ?thesis using up [of k] by (simp add: st2 chain_status_def)
  next
    case greater
    have "find (\<lambda>x. bslot x = k) ?C = None" using below greater by (intro find_slot_None) fastforce
    then show ?thesis using up [of k] d(7) [of k] greater k(2) by (simp add: st2 chain_status_def)
  qed
  then show ?case using run ih(1) by auto
qed

lemma chain_status_member:
  assumes "distinct (map bslot A @ S)"
  shows "a \<in> set A \<Longrightarrow> chain_status A (bslot a) = (ImplicitlyFinalized, bhash a)"
    and "s \<in> set S \<Longrightarrow> chain_status A s = (ImplicitlySkipped, GENESIS_BLOCK_HASH)"
proof -
  have "find (\<lambda>x. bslot x = bslot a) A = Some a" if "a \<in> set A"
    using assms that by (induction A) (auto split: if_splits)
  then show "a \<in> set A \<Longrightarrow> chain_status A (bslot a) = (ImplicitlyFinalized, bhash a)" by (simp add: chain_status_def)
  have "find (\<lambda>x. bslot x = s) A = None" if "s \<in> set S" using assms that by (intro find_slot_None) auto
  then show "s \<in> set S \<Longrightarrow> chain_status A s = (ImplicitlySkipped, GENESIS_BLOCK_HASH)" by (simp add: chain_status_def)
qed

lemma walked_status:
  assumes "walked t src A S t'"
  shows "status_of t' k = (if k \<in> set (map bslot A @ S) then Some (chain_status A k) else status_of t k)"
  using walkedD [OF assms] chain_status_member [OF walkedD(4) [OF assms]] by auto

lemma prunedD:
  assumes "pruned t t'"
  shows "first_unpruned_slot t \<le> first_unpruned_slot t'" "\<not> slot_decided t (Suc (first_unpruned_slot t'))"
    "first_unpruned_slot t < k \<Longrightarrow> k \<le> first_unpruned_slot t' \<Longrightarrow> slot_decided t k"
    "status_of t' k = (if first_unpruned_slot t' \<le> k then status_of t k else None)"
    "hm_get (ft_parents t') b = (if first_unpruned_slot t' \<le> bslot b then hm_get (ft_parents t) b else None)"
    "highest_finalized_slot t' = highest_finalized_slot t"
  using assms by (auto simp: pruned_def Let_def)

text \<open>What finalizing a block does to the tracker, from the tracker before its status was written.\<close>

definition finalizes :: "FinalityTracker \<Rightarrow> BlockId \<Rightarrow> FinalizationEvent \<Rightarrow> FinalityTracker \<Rightarrow> bool" where
  "finalizes t b ev t' \<longleftrightarrow>
     (let A = implicitly_finalized ev; R = map bslot A @ implicitly_skipped ev; n = first_unpruned_slot t' in
      ev_finalized ev = Some b \<and> highest_finalized_slot t' = max (highest_finalized_slot t) (bslot b) \<and>
      parent_path (ft_parents t) (b # A) \<and> distinct R \<and>
      (\<forall>k. k \<in> set R \<longrightarrow> first_unpruned_slot t \<le> k \<and> k < bslot b \<and> \<not> slot_decided t k) \<and>
      (\<forall>k. status_of t' k =
         (if k < n then None
          else if k = bslot b then Some (Finalized, bhash b)
          else if k \<in> set R then Some (chain_status A k)
          else status_of t k)) \<and>
      first_unpruned_slot t \<le> n \<and> \<not> slot_decided t' (Suc n) \<and>
      (\<forall>k. first_unpruned_slot t < k \<and> k \<le> n \<longrightarrow> k = bslot b \<or> k \<in> set R \<or> slot_decided t k))"

lemma finalized_block_finalizes:
  assumes inv: "fin_inv t" and b: "bslot b < u64_max" "\<not> bslot b < first_unpruned_slot t"
    and run: "handle_finalized_block (fst (status_insert t (bslot b) Finalized (bhash b))) b ev_default = Some (t', ev)"
  shows "finalizes t b ev t'"
proof -
  let ?t = "fst (status_insert t (bslot b) Finalized (bhash b))"
  have inv1: "fin_inv ?t" using fin_inv_insert [OF inv _ b(1)] b(2) by simp
  from finalized_block_spec [OF inv1 _ run] b(1) obtain A S t1 where
    ev: "ev = with_events (ev_default\<lparr>ev_finalized := Some b\<rparr>) A S"
    and w: "walked (?t\<lparr>highest_finalized_slot := max (highest_finalized_slot ?t) (bslot b)\<rparr>) (bslot b) A S t1"
    and p: "pruned t1 t'" and path: "parent_path (ft_parents ?t) (b # A)" by auto
  have ops: "implicitly_finalized ev = A" "implicitly_skipped ev = S" "ev_finalized ev = Some b"
    by (simp_all add: ev with_events_def ev_default_def)
  have same: "status_of (?t\<lparr>highest_finalized_slot := m\<rparr>) k = status_of ?t k" "slot_decided (?t\<lparr>highest_finalized_slot := m\<rparr>) k = slot_decided ?t k"
    for m k by (simp_all add: status_of_def slot_decided_def)
  note d = walkedD [OF w, unfolded same] and q = prunedD [OF p]
  have dec: "slot_decided ?t k = (k = bslot b \<or> slot_decided t k)" for k by (simp add: slot_decided_def)
  have R: "first_unpruned_slot t \<le> k \<and> k < bslot b \<and> \<not> slot_decided t k" if "k \<in> set (map bslot A @ S)" for k
    using d(5) [OF that] by (simp add: dec)
  have st1: "status_of t1 k = (if k = bslot b then Some (Finalized, bhash b) else if k \<in> set (map bslot A @ S) then Some (chain_status A k) else status_of t k)" for k
    using walked_status [OF w, of k, unfolded same] R [of k] by auto
  have dec1: "k = bslot b \<or> k \<in> set (map bslot A @ S) \<or> slot_decided t k" if "slot_decided t1 k" for k
    using that by (auto simp: slot_decided_def st1 split: if_splits)
  have fu: "first_unpruned_slot t1 = first_unpruned_slot t" using d(3) by simp
  have st': "status_of t' k = (if k < first_unpruned_slot t' then None else status_of t1 k)" for k using q(4) [of k] by auto
  show ?thesis
    unfolding finalizes_def Let_def ops
  proof (intro conjI allI impI)
    show "highest_finalized_slot t' = max (highest_finalized_slot t) (bslot b)" using q(6) d(2) by simp
    show "parent_path (ft_parents t) (b # A)" "distinct (map bslot A @ S)" using path d(4) by simp_all
    show "first_unpruned_slot t \<le> first_unpruned_slot t'" using q(1) fu by simp
    show "\<not> slot_decided t' (Suc (first_unpruned_slot t'))" using q(2) st' [of "Suc (first_unpruned_slot t')"] by (simp add: slot_decided_def)
    fix k
    show "status_of t' k = (if k < first_unpruned_slot t' then None else if k = bslot b then Some (Finalized, bhash b)
        else if k \<in> set (map bslot A @ S) then Some (chain_status A k) else status_of t k)" by (simp only: st' st1)
    show "k = bslot b \<or> k \<in> set (map bslot A @ S) \<or> slot_decided t k"
      if "first_unpruned_slot t < k \<and> k \<le> first_unpruned_slot t'" using dec1 q(3) [of k] that fu by simp
  qed (use R in auto)
qed

lemma mark_fast_finalized_undecided:
  assumes "\<not> bslot b < first_unpruned_slot t"
    and "case status_of t (bslot b) of None \<Rightarrow> True | Some (st, h) \<Rightarrow> st = FinalPendingNotar \<or> st = Notarized \<and> h = bhash b"
  shows "mark_fast_finalized t b = handle_finalized_block (fst (status_insert t (bslot b) Finalized (bhash b))) b ev_default"
  using assms by (auto simp: mark_fast_finalized_def Let_def split_beta split: option.splits)

subsection \<open>Properties\<close>

text \<open>
  C36. Fast finalization, in every reachable tracker. If the block is below the watermark or its slot
  is already finalized with its hash, the event is empty and no status but that of the block's slot
  can change. Otherwise the event names the block; the reported ancestors continue a path of recorded
  parents from it; each reported slot (ancestor or skipped) is reported once and was undecided;
  afterwards exactly the block's slot and the reported slots have changed, to the reported status; and
  the watermark has moved over decided slots only, up to the first undecided one.
\<close>

theorem fast_finalization_reports:
  assumes "fin_step\<^sup>*\<^sup>* finality_default t" "bslot b < u64_max" "mark_fast_finalized t b = Some (t', ev)"
  shows "ev = ev_default \<and>
           (bslot b < first_unpruned_slot t \<and> t' = t \<or>
            status_of t (bslot b) \<in> {Some (Finalized, bhash b), Some (ImplicitlyFinalized, bhash b)} \<and>
            (\<forall>k. status_of t' k = (if k = bslot b then Some (Finalized, bhash b) else status_of t k))) \<or>
         \<not> slot_decided t (bslot b) \<and> finalizes t b ev t'"
proof (cases "bslot b < first_unpruned_slot t")
  case False
  note fin = finalized_block_finalizes [OF fin_reachable_inv [OF assms(1)] assms(2) False]
  show ?thesis
    using assms(3) False fin unfolding mark_fast_finalized_def
    by (auto simp: Let_def split_beta slot_decided_def split: option.splits if_splits prod.splits FinStatus.splits)
qed (use assms(3) in \<open>simp add: mark_fast_finalized_def\<close>)

text \<open>A fast finalization at a tracker with a recorded parent two slots below.\<close>

definition example_block :: "slot \<Rightarrow> BlockId" where
  "example_block s = block_id s (replicate 32 7)"

definition example_tracker :: FinalityTracker where
  "example_tracker = finality_default\<lparr>ft_parents := [(example_block 2, block_id_genesis 0)]\<rparr>"

lemma example_reachable: "fin_step\<^sup>*\<^sup>* finality_default example_tracker"
proof -
  have "add_parent finality_default (example_block 2) (block_id_genesis 0) = Some (example_tracker, ev_default)"
    by (simp add: add_parent_def finality_default_def example_tracker_def example_block_def block_id_def block_id_genesis_def Let_def)
  then have "fin_step finality_default example_tracker"
    by (rule step_parent [rotated]) (simp add: example_block_def block_id_def u64_max_def)
  then show ?thesis by simp
qed

lemma path_status:
  assumes "\<forall>b p. hm_get ps b = Some p \<longrightarrow> bslot p < bslot b" "parent_path ps C" "a \<in> set C"
  shows "chain_status C (bslot a) = (ImplicitlyFinalized, bhash a)"
  using assms
proof (induction C)
  case (Cons c C)
  have "parent_path ps C" using Cons.prems(2) by (cases C) simp_all
  moreover have "bslot a \<noteq> bslot c" if "a \<in> set C" using path_down [OF Cons.prems(1,2) that] by simp
  ultimately show ?case using Cons by (auto simp: chain_status_def)
qed simp

lemma chain_reported:
  assumes w: "walked t src A S t'" and und: "\<not> slot_decided t k" and st: "status_of t' k = Some (chain_status C k)"
  shows "chain_status C k = (ImplicitlyFinalized, h) \<Longrightarrow> block_id k h \<in> set A"
    and "chain_status C k = (ImplicitlySkipped, h) \<Longrightarrow> k \<in> set S"
proof -
  have dec: "decided (fst (chain_status C k))" by (auto simp: chain_status_def split: option.splits)
  have "k \<in> set (map bslot A @ S)"
  proof (rule ccontr)
    assume "k \<notin> set (map bslot A @ S)"
    then have "status_of t k = Some (chain_status C k)" using walkedD(8) [OF w] st by simp
    then show False using und dec by (simp add: slot_decided_def)
  qed
  then consider a where "a \<in> set A" "k = bslot a" | "k \<in> set S" by auto
  note cs = this
  show "chain_status C k = (ImplicitlyFinalized, h) \<Longrightarrow> block_id k h \<in> set A"
    using cs st walkedD(6,7) [OF w] by cases auto
  show "chain_status C k = (ImplicitlySkipped, h) \<Longrightarrow> k \<in> set S"
    using cs st walkedD(6,7) [OF w] by cases auto
qed

text \<open>The whole of a finalization along such a chain.\<close>

lemma finalized_chain:
  assumes inv: "fin_inv t" and b: "bslot b < u64_max" and path: "parent_path (ft_parents t) (b # c # C)"
    and root: "bslot (last (c # C)) = first_unpruned_slot t"
    and fits: "\<forall>k. first_unpruned_slot t \<le> k \<and> k \<le> bslot b \<longrightarrow> fits_chain (b # c # C) t k"
  shows "\<exists>t1 t' ev A S. mark_fast_finalized t b = Some (t', ev) \<and> finalizes t b ev t' \<and> pruned t1 t' \<and>
           implicitly_finalized ev = A \<and> implicitly_skipped ev = S \<and> first_unpruned_slot t1 = first_unpruned_slot t \<and>
           slot_decided t1 (bslot b) \<and>
           walked (fst (status_insert t (bslot b) Finalized (bhash b))\<lparr>highest_finalized_slot := max (highest_finalized_slot t) (bslot b)\<rparr>)
             (bslot b) A S t1 \<and>
           (\<forall>k. first_unpruned_slot t < k \<and> k < bslot b \<longrightarrow> status_of t1 k = Some (chain_status (c # C) k))"
proof -
  let ?t = "fst (status_insert t (bslot b) Finalized (bhash b))\<lparr>highest_finalized_slot := max (highest_finalized_slot t) (bslot b)\<rparr>"
  let ?ev = "ev_default\<lparr>ev_finalized := Some b\<rparr>"
  have st: "status_of ?t k = (if k = bslot b then Some (Finalized, bhash b) else status_of t k)" for k
    by (simp add: status_of_def status_insert_def hm_simps)
  have edges: "\<forall>b p. hm_get (ft_parents t) b = Some p \<longrightarrow> bslot p < bslot b" using inv by (simp add: fin_inv_def)
  have fu: "first_unpruned_slot t < bslot b" using path_down [OF edges path, of "last (c # C)"] root by simp
  have und: "case status_of t (bslot b) of None \<Rightarrow> True | Some (st, h) \<Rightarrow> st = FinalPendingNotar \<or> st = Notarized \<and> h = bhash b"
    using fits [rule_format, of "bslot b"] fu by (auto simp: fits_chain_def split: option.splits)
  have inv1: "fin_inv ?t" using fin_inv_insert [OF inv, of "bslot b"] fu b by simp
  have "fits_chain (c # C) ?t k" if "first_unpruned_slot t \<le> k" "k < bslot b" for k
    using fits [rule_format, of k] that by (auto simp: fits_chain_def st split: option.splits if_splits)
  moreover have "skips_genesis ?t" using inv1 by (simp add: fin_inv_def)
  ultimately obtain t1 ev1 where walk: "handle_implicitly_finalized (bslot b) c ?t ?ev = Some (t1, ev1)"
    "\<forall>k. first_unpruned_slot t < k \<and> k < bslot b \<longrightarrow> status_of t1 k = Some (chain_status (c # C) k)"
    using walk_live [of ?t c C "bslot b" ?ev] edges path root by auto
  from walk_spec [OF walk(1)] inv1 obtain A S where w: "ev1 = with_events ?ev A S" "walked ?t (bslot b) A S t1"
    by (auto simp: fin_inv_def)
  have inv2: "fin_inv t1" using fin_inv_walked [OF inv1 w(2)] b by simp
  then obtain t' where pr: "ft_prune t1 = Some t'" "pruned t1 t'" using ft_prune_ok [of t1] by (auto simp: fin_inv_def)
  have run: "mark_fast_finalized t b = handle_finalized_block (fst (status_insert t (bslot b) Finalized (bhash b))) b ev_default"
    using mark_fast_finalized_undecided [OF _ und] fu by simp
  also have "\<dots> = Some (t', ev1)" using path walk(1) pr(1) by (simp add: handle_finalized_block_def Let_def)
  finally have res: "mark_fast_finalized t b = Some (t', ev1)" .
  have "finalizes t b ev1 t'" using finalized_block_finalizes [OF inv b, of t' ev1] run res fu by simp
  moreover have "slot_decided t1 (bslot b)"
    using walkedD(5) [OF w(2), of "bslot b"] walkedD(8) [OF w(2), of "bslot b", unfolded st] by (fastforce simp: slot_decided_def)
  ultimately show ?thesis using res pr(2) w walk(2) walkedD(3) [OF w(2)]
    by (intro exI [of _ t1] exI [of _ t'] exI [of _ ev1] exI [of _ A] exI [of _ S]) (simp add: with_events_def ev_default_def)
qed

lemma chain_advances:
  assumes inv: "fin_inv t" and "bslot b < u64_max" "parent_path (ft_parents t) (b # c # C)"
    and "bslot (last (c # C)) = first_unpruned_slot t"
    and "\<forall>k. first_unpruned_slot t \<le> k \<and> k \<le> bslot b \<longrightarrow> fits_chain (b # c # C) t k"
  shows "\<exists>t' ev. mark_fast_finalized t b = Some (t', ev) \<and> finalizes t b ev t' \<and> bslot b \<le> first_unpruned_slot t' \<and>
           (\<forall>a. a \<in> set (c # C) \<and> first_unpruned_slot t < bslot a \<longrightarrow> a \<in> set (implicitly_finalized ev)) \<and>
           (\<forall>k. first_unpruned_slot t < k \<and> k < bslot b \<and> k \<notin> bslot ` set (c # C) \<longrightarrow> k \<in> set (implicitly_skipped ev))"
proof -
  have edges: "\<forall>b p. hm_get (ft_parents t) b = Some p \<longrightarrow> bslot p < bslot b" using inv by (simp add: fin_inv_def)
  let ?t = "fst (status_insert t (bslot b) Finalized (bhash b))\<lparr>highest_finalized_slot := max (highest_finalized_slot t) (bslot b)\<rparr>"
  from finalized_chain [OF inv assms(2-5)] obtain t1 t' ev where
    run: "mark_fast_finalized t b = Some (t', ev)" "finalizes t b ev t'" and p: "pruned t1 t'"
    and fu: "first_unpruned_slot t1 = first_unpruned_slot t" and top: "slot_decided t1 (bslot b)"
    and w: "walked ?t (bslot b) (implicitly_finalized ev) (implicitly_skipped ev) t1"
    and st: "\<forall>k. first_unpruned_slot t < k \<and> k < bslot b \<longrightarrow> status_of t1 k = Some (chain_status (c # C) k)" by blast
  have und: "\<not> slot_decided ?t k" if "first_unpruned_slot t < k" "k < bslot b" for k
  proof -
    have "fits_chain (b # c # C) t k" using assms(5) that by simp
    then have "\<not> slot_decided t k" using that by (auto simp: fits_chain_def slot_decided_def split: option.splits)
    moreover have "status_of ?t k = status_of t k" using that by (simp add: status_of_def status_insert_def hm_simps)
    ultimately show ?thesis by (simp add: slot_decided_def)
  qed
  have "slot_decided t1 k" if "first_unpruned_slot t < k" "k \<le> bslot b" for k
  proof (cases "k = bslot b")
    case False
    then have "status_of t1 k = Some (chain_status (c # C) k)" using st that by simp
    then show ?thesis by (auto simp: slot_decided_def chain_status_def split: option.splits)
  qed (simp add: top)
  then have adv: "bslot b \<le> first_unpruned_slot t'" using prunedD(1,2) [OF p] fu by (metis Suc_leI le_imp_less_Suc not_le)
  have anc: "a \<in> set (implicitly_finalized ev)" if a: "a \<in> set (c # C)" "first_unpruned_slot t < bslot a" for a
  proof -
    have "bslot a < bslot b" using path_down [OF edges assms(3) a(1)] .
    moreover have "chain_status (c # C) (bslot a) = (ImplicitlyFinalized, bhash a)" using path_status [OF edges _ a(1)] assms(3) by simp
    ultimately have "block_id (bslot a) (bhash a) \<in> set (implicitly_finalized ev)"
      using chain_reported(1) [OF w und] a(2) st by blast
    then show ?thesis by simp
  qed
  have "k \<in> set (implicitly_skipped ev)" if k: "first_unpruned_slot t < k" "k < bslot b" "k \<notin> bslot ` set (c # C)" for k
  proof -
    have "find (\<lambda>a. bslot a = k) (c # C) = None" using k(3) by (intro find_slot_None) blast
    then have "chain_status (c # C) k = (ImplicitlySkipped, GENESIS_BLOCK_HASH)" by (simp add: chain_status_def)
    then show ?thesis using chain_reported(2) [OF w und] k(1,2) st by blast
  qed
  then show ?thesis using run adv anc by blast
qed

text \<open>
  C9. Finality makes progress. Suppose the recorded parents lead from a block to the slot at the
  watermark, and no status on the way contradicts that chain: ancestors are untracked, notarized with
  their hash or finalized without a known hash, the other slots untracked or notarized, and the slot at
  the watermark holds the last block of the chain. Then fast-finalizing the block returns, reports
  every ancestor above the watermark as implicitly finalized and every other slot between as
  implicitly skipped, and moves the watermark to the block's slot at least.
\<close>

theorem finalized_chain_advances:
  assumes "fin_step\<^sup>*\<^sup>* finality_default t" "bslot b < u64_max" "parent_path (ft_parents t) (b # c # C)"
    and "bslot (last (c # C)) = first_unpruned_slot t"
    and "\<forall>k. first_unpruned_slot t \<le> k \<and> k \<le> bslot b \<longrightarrow> fits_chain (b # c # C) t k"
  shows "\<exists>t' ev. mark_fast_finalized t b = Some (t', ev) \<and> ev_finalized ev = Some b \<and> bslot b \<le> first_unpruned_slot t' \<and>
           (\<forall>a. a \<in> set (c # C) \<and> first_unpruned_slot t < bslot a \<longrightarrow> a \<in> set (implicitly_finalized ev)) \<and>
           (\<forall>k. first_unpruned_slot t < k \<and> k < bslot b \<and> k \<notin> bslot ` set (c # C) \<longrightarrow> k \<in> set (implicitly_skipped ev))"
  using chain_advances [OF fin_reachable_inv [OF assms(1)] assms(2-)] by (auto simp: finalizes_def Let_def)

lemma example_fits: "fits_chain [example_block 2, block_id_genesis 0] example_tracker k"
  by (simp add: fits_chain_def example_tracker_def finality_default_def status_of_def block_id_genesis_def)

lemma example_run:
  "\<exists>t' ev. mark_fast_finalized example_tracker (example_block 2) = Some (t', ev) \<and> \<not> slot_decided example_tracker 2"
proof -
  have "\<exists>t1 t' ev A S. mark_fast_finalized example_tracker (example_block 2) = Some (t', ev)"
    using finalized_chain [OF fin_reachable_inv [OF example_reachable], of "example_block 2" "block_id_genesis 0" "[]"] example_fits
    by (auto simp: example_tracker_def example_block_def block_id_def block_id_genesis_def finality_default_def u64_max_def)
  then show ?thesis by (auto simp: slot_decided_def status_of_def example_tracker_def finality_default_def)
qed

theorem fast_finalization_reports_witness:
  "\<exists>t' ev. mark_fast_finalized example_tracker (example_block 2) = Some (t', ev) \<and>
     finalizes example_tracker (example_block 2) ev t'"
proof -
  from example_run obtain t' ev where run: "mark_fast_finalized example_tracker (example_block 2) = Some (t', ev)"
    and und: "\<not> slot_decided example_tracker 2" by blast
  have b: "bslot (example_block 2) = 2" "bslot (example_block 2) < u64_max" by (simp_all add: example_block_def block_id_def u64_max_def)
  have st: "status_of example_tracker 2 = None" "first_unpruned_slot example_tracker = 0"
    by (simp_all add: status_of_def example_tracker_def finality_default_def)
  show ?thesis using fast_finalization_reports [OF example_reachable b(2) run] run unfolding b(1) st by auto
qed

theorem finalized_chain_advances_witness:
  "\<exists>t' ev. mark_fast_finalized example_tracker (example_block 2) = Some (t', ev) \<and> 2 \<le> first_unpruned_slot t' \<and>
     1 \<in> set (implicitly_skipped ev)"
proof -
  have b: "bslot (example_block 2) = 2" "bslot (block_id_genesis 0) = 0" "first_unpruned_slot example_tracker = 0"
    by (simp_all add: example_block_def block_id_def block_id_genesis_def example_tracker_def finality_default_def)
  have "parent_path (ft_parents example_tracker) [example_block 2, block_id_genesis 0]" by (simp add: example_tracker_def)
  from finalized_chain_advances [OF example_reachable _ this] example_fits obtain t' ev where
    "mark_fast_finalized example_tracker (example_block 2) = Some (t', ev)" "2 \<le> first_unpruned_slot t'"
    "\<forall>k. 0 < k \<and> k < 2 \<and> k \<noteq> 0 \<longrightarrow> k \<in> set (implicitly_skipped ev)" by (auto simp: b u64_max_def)
  then show ?thesis by auto
qed

text \<open>
  C37. A Final certificate that arrives after a slot was finalized with a known block makes the tracker
  forget that block: \<open>mark_finalized\<close> overwrites the status, reports nothing, and the next notarization
  of the slot with any other hash, unless a parent of that block is recorded, is reported as a
  finalization of the slot instead of a safety violation.
\<close>

theorem final_after_finalized_forgets:
  assumes "fin_step\<^sup>*\<^sup>* finality_default t" "s < u64_max" "first_unpruned_slot t \<le> s"
    and "status_of t s = Some (Finalized, h)" "hm_get (ft_parents t) (block_id s g) = None"
  shows "\<exists>t1 t2 ev. mark_finalized t s = Some (t1, ev_default) \<and> status_of t1 s = Some (FinalPendingNotar, GENESIS_BLOCK_HASH) \<and>
           mark_notarized t1 (block_id s g) = Some (t2, ev) \<and> ev_finalized ev = Some (block_id s g) \<and>
           mark_fast_finalized t (block_id s g) = (if g = h then Some (fst (status_insert t s Finalized h), ev_default) else None)"
proof -
  let ?b = "block_id s g"
  have b: "bslot ?b = s" "bhash ?b = g" by (simp_all add: block_id_def)
  let ?t1 = "fst (status_insert t s FinalPendingNotar GENESIS_BLOCK_HASH)"
  have t1: "mark_finalized t s = Some (?t1, ev_default)"
    using assms(3,4) by (simp add: mark_finalized_def Let_def split_beta)
  have inv1: "fin_inv ?t1" using fin_inv_insert [OF fin_reachable_inv [OF assms(1)] assms(3,2)] by simp
  let ?t2 = "fst (status_insert (fst (status_insert ?t1 s Notarized g)) s Finalized g)"
  let ?t3 = "?t2\<lparr>highest_finalized_slot := max (highest_finalized_slot t) s\<rparr>"
  have "fin_inv ?t3" using inv1 assms(2,3) by (simp add: fin_inv_insert)
  then obtain t4 where "ft_prune ?t3 = Some t4" using ft_prune_ok [of ?t3] by (auto simp: fin_inv_def)
  then have "mark_notarized ?t1 ?b = Some (t4, ev_default\<lparr>ev_finalized := Some ?b\<rparr>)"
    using assms(3,5) by (simp add: mark_notarized_def Let_def split_beta b handle_finalized_block_def)
  moreover have "mark_fast_finalized t ?b = (if g = h then Some (fst (status_insert t s Finalized h), ev_default) else None)"
    using assms(3,4) by (simp add: mark_fast_finalized_def Let_def split_beta b)
  ultimately show ?thesis using t1 by auto
qed

theorem final_after_finalized_forgets_witness:
  "\<exists>t t1 t2 ev. mark_fast_finalized finality_default (example_block 1) = Some (t, ev_default\<lparr>ev_finalized := Some (example_block 1)\<rparr>) \<and>
     mark_finalized t 1 = Some (t1, ev_default) \<and>
     mark_notarized t1 (block_id 1 GENESIS_BLOCK_HASH) = Some (t2, ev) \<and> ev_finalized ev = Some (block_id 1 GENESIS_BLOCK_HASH) \<and>
     mark_fast_finalized t (block_id 1 GENESIS_BLOCK_HASH) = None"
proof -
  let ?b = "example_block 1" and ?h = "replicate 32 7 :: BlockHash"
  define t where "t = \<lparr>ft_status = [(1, (Finalized, ?h))], ft_parents = [], highest_finalized_slot = 1, first_unpruned_slot = 1\<rparr>"
  have run: "mark_fast_finalized finality_default ?b = Some (t, ev_default\<lparr>ev_finalized := Some ?b\<rparr>)"
    by (simp add: mark_fast_finalized_def finality_default_def status_insert_def handle_finalized_block_def ft_prune_def
        prune_loop.simps [of "Suc 0"] prune_loop.simps [of "Suc (Suc 0)"] add64_def example_block_def block_id_def t_def Let_def)
  have "fin_step finality_default t"
    by (rule step_fast [OF _ run]) (simp add: example_block_def block_id_def u64_max_def)
  then have reach: "fin_step\<^sup>*\<^sup>* finality_default t" by simp
  have "?h \<noteq> GENESIS_BLOCK_HASH" by (simp add: GENESIS_BLOCK_HASH_def)
  then show ?thesis
    using run final_after_finalized_forgets [OF reach, of 1 ?h GENESIS_BLOCK_HASH] by (auto simp: t_def status_of_def u64_max_def)
qed

end
