(* ===== verification/Alp_Votor.thy ===== *)
theory Alp_Votor
  imports Alp_Slot_State
begin

section \<open>Alpenglow: the voting decisions\<close>

text \<open>
  \<open>karstflow-alpenglow/src/votor.rs\<close>: when to cast notarization, skip, fallback and finalization
  votes. A handler takes the state, an event and the output buffer, and returns both; \<open>None\<close> is a
  panic (a failed assertion, or a vote that cannot be built). The ordered map of slot states is an
  association list; where the code iterates over it, the entries are sorted by slot.
\<close>

subsection \<open>Definitions\<close>

datatype ConsensusMessage = MVote Vote | MCert Cert

datatype VotorTimeout = Timeout slot | CrashedLeader slot

fun timeout_slot :: "VotorTimeout \<Rightarrow> slot" where
  "timeout_slot (Timeout s) = s"
| "timeout_slot (CrashedLeader s) = s"

datatype VotorPoolEvent =
    EvParentReady slot BlockId
  | EvSafeToNotar BlockId
  | EvSafeToSkip slot
  | EvCertCreated Cert
  | EvStandstill slot "ConsensusMessage list"

datatype VotorBlockstoreEvent =
    FirstShred slot
  | InvalidBlock slot
  | NewBlock slot BlockId BlockId

record VotorOut =
  msgs :: "ConsensusMessage list"
  timeouts :: "VotorTimeout list"

definition votor_out_default :: VotorOut where
  "votor_out_default = \<lparr>msgs = [], timeouts = []\<rparr>"

record VotorSlotState =
  vs_voted :: bool
  vs_voted_notar :: "BlockHash option"
  vs_bad_window :: bool
  vs_block_notarized :: "BlockHash option"
  vs_parents_ready :: "BlockId list"
  vs_received_shred :: bool
  vs_pending_block :: "(BlockId \<times> BlockId) option"
  vs_retired :: bool

definition vs_default :: VotorSlotState where
  "vs_default = \<lparr>vs_voted = False, vs_voted_notar = None, vs_bad_window = False, vs_block_notarized = None,
     vs_parents_ready = [], vs_received_shred = False, vs_pending_block = None, vs_retired = False\<rparr>"

record Votor =
  v_slots :: "(slot, VotorSlotState) hmap"
  validator_index :: nat
  voting_key :: SecretKey
  highest_final_cert_slot :: slot

text \<open>A change of the entry that \<open>slot_state_mut\<close> returns, which is created first if it is missing.\<close>

definition slot_state_mut :: "Votor \<Rightarrow> slot \<Rightarrow> (VotorSlotState \<Rightarrow> VotorSlotState) \<Rightarrow> Votor" where
  "slot_state_mut v s f = v\<lparr>v_slots := hm_insert s (f (hm_get_or (v_slots v) vs_default s)) (v_slots v)\<rparr>"

definition is_retired :: "Votor \<Rightarrow> slot \<Rightarrow> bool" where
  "is_retired v s = (case hm_get (v_slots v) s of None \<Rightarrow> False | Some st \<Rightarrow> vs_retired st)"

definition has_voted :: "Votor \<Rightarrow> slot \<Rightarrow> bool" where
  "has_voted v s = (case hm_get (v_slots v) s of None \<Rightarrow> False | Some st \<Rightarrow> vs_voted st)"

definition received_shred :: "Votor \<Rightarrow> slot \<Rightarrow> bool" where
  "received_shred v s = (case hm_get (v_slots v) s of None \<Rightarrow> False | Some st \<Rightarrow> vs_received_shred st)"

definition votor_first_unpruned_slot :: "Votor \<Rightarrow> slot" where
  "votor_first_unpruned_slot v = first_slot_in_window (highest_final_cert_slot v)"

definition set_timeouts :: "slot \<Rightarrow> VotorOut \<Rightarrow> VotorOut option" where
  "set_timeouts s out =
     (if \<not> is_start_of_window s then None
      else Some (out\<lparr>timeouts := timeouts out @ CrashedLeader s # map Timeout [s..<Suc (last_slot_in_window s)]\<rparr>))"

definition push_msg :: "ConsensusMessage \<Rightarrow> VotorOut \<Rightarrow> VotorOut" where
  "push_msg m out = out\<lparr>msgs := msgs out @ [m]\<rparr>"

definition votor_new :: "nat \<Rightarrow> SecretKey \<Rightarrow> (Votor \<times> VotorOut) option" where
  "votor_new idx key =
     do {
       let v = \<lparr>v_slots = [], validator_index = idx, voting_key = key, highest_final_cert_slot = 0\<rparr>;
       let v = slot_state_mut v 0 (\<lambda>g. g\<lparr>vs_voted := True, vs_voted_notar := Some GENESIS_BLOCK_HASH,
                 vs_block_notarized := Some GENESIS_BLOCK_HASH,
                 vs_parents_ready := vs_parents_ready g @ [block_id_genesis 0], vs_retired := True\<rparr>);
       out \<leftarrow> set_timeouts 0 votor_out_default;
       Some (v, out)
     }"

definition try_final :: "Votor \<Rightarrow> slot \<Rightarrow> BlockHash \<Rightarrow> VotorOut \<Rightarrow> (Votor \<times> VotorOut) option" where
  "try_final v s h out =
     (if \<not> s \<ge> votor_first_unpruned_slot v then None
      else let (notarized, voted_notar, not_bad) =
             (case hm_get (v_slots v) s of
                Some st \<Rightarrow> (vs_block_notarized st = Some h, vs_voted_notar st = Some h, \<not> vs_bad_window st)
              | None \<Rightarrow> (False, False, True))
           in if notarized \<and> voted_notar \<and> not_bad
              then do {
                vote \<leftarrow> new_final s (voting_key v) (validator_index v);
                Some (slot_state_mut v s (\<lambda>st. st\<lparr>vs_retired := True\<rparr>), push_msg (MVote vote) out)
              }
              else Some (v, out))"

definition valid_notar_parent :: "Votor \<Rightarrow> slot \<Rightarrow> BlockId \<Rightarrow> bool" where
  "valid_notar_parent v s parent =
     (if s = first_slot_in_window s
      then (case hm_get (v_slots v) s of None \<Rightarrow> False | Some st \<Rightarrow> parent \<in> set (vs_parents_ready st))
      else bslot parent = s - 1 \<and>
           (case hm_get (v_slots v) (bslot parent) of None \<Rightarrow> False | Some ps \<Rightarrow> vs_voted_notar ps = Some (bhash parent)))"

definition try_notar :: "Votor \<Rightarrow> slot \<Rightarrow> BlockId \<Rightarrow> BlockId \<Rightarrow> VotorOut \<Rightarrow> (bool \<times> Votor \<times> VotorOut) option" where
  "try_notar v s block parent out =
     (if \<not> s \<ge> votor_first_unpruned_slot v then None
      else if \<not> valid_notar_parent v s parent then Some (False, v, out)
      else do {
        vote \<leftarrow> new_notar s (bhash block) (voting_key v) (validator_index v);
        let out = push_msg (MVote vote) out;
        let v = slot_state_mut v s (\<lambda>st. st\<lparr>vs_voted := True, vs_voted_notar := Some (bhash block), vs_pending_block := None\<rparr>);
        (v, out) \<leftarrow> try_final v s (bhash block) out;
        Some (True, v, out)
      })"

fun skip_loop :: "slot list \<Rightarrow> Votor \<Rightarrow> VotorOut \<Rightarrow> (Votor \<times> VotorOut) option" where
  "skip_loop [] v out = Some (v, out)"
| "skip_loop (s # ss) v out =
     (if has_voted v s then skip_loop ss v out
      else do {
        let v = slot_state_mut v s (\<lambda>st. st\<lparr>vs_voted := True, vs_bad_window := True\<rparr>);
        vote \<leftarrow> new_skip s (voting_key v) (validator_index v);
        skip_loop ss v (push_msg (MVote vote) out)
      })"

definition try_skip_window :: "Votor \<Rightarrow> slot \<Rightarrow> VotorOut \<Rightarrow> (Votor \<times> VotorOut) option" where
  "try_skip_window v s out =
     (if \<not> s \<ge> votor_first_unpruned_slot v then None
      else skip_loop [first_slot_in_window s..<Suc (last_slot_in_window s)] v out)"

fun notar_loop :: "(slot \<times> BlockId \<times> BlockId) list \<Rightarrow> Votor \<Rightarrow> VotorOut \<Rightarrow> (Votor \<times> VotorOut) option" where
  "notar_loop [] v out = Some (v, out)"
| "notar_loop ((s, block, parent) # ps) v out =
     do {
       (_, v, out) \<leftarrow> try_notar v s block parent out;
       notar_loop ps v out
     }"

definition pending_blocks :: "Votor \<Rightarrow> (slot \<times> BlockId \<times> BlockId) list" where
  "pending_blocks v =
     List.map_filter (\<lambda>(s, st). map_option (\<lambda>(b, p). (s, b, p)) (vs_pending_block st)) (sort_key fst (v_slots v))"

definition check_pending_blocks :: "Votor \<Rightarrow> VotorOut \<Rightarrow> (Votor \<times> VotorOut) option" where
  "check_pending_blocks v out = notar_loop (pending_blocks v) v out"

definition votor_prune :: "Votor \<Rightarrow> Votor" where
  "votor_prune v =
     (let cutoff = votor_first_unpruned_slot v
      in v\<lparr>v_slots := hm_retain (\<lambda>s _. s \<ge> cutoff) (v_slots v)\<rparr>)"

definition handle_final_cert :: "Votor \<Rightarrow> slot \<Rightarrow> VotorOut \<Rightarrow> (Votor \<times> VotorOut) option" where
  "handle_final_cert v s out =
     do {
       out \<leftarrow> set_timeouts (first_slot_in_window s) out;
       Some (votor_prune (v\<lparr>highest_final_cert_slot := max (highest_final_cert_slot v) s\<rparr>), out)
     }"

definition handle_cert_created :: "Votor \<Rightarrow> Cert \<Rightarrow> VotorOut \<Rightarrow> (Votor \<times> VotorOut) option" where
  "handle_cert_created v cert out =
     do {
       (v, out) \<leftarrow>
         (case cert of
            CNotar c \<Rightarrow>
              do {
                h \<leftarrow> cert_block_hash cert;
                try_final (slot_state_mut v (cert_slot cert) (\<lambda>st. st\<lparr>vs_block_notarized := Some h\<rparr>)) (cert_slot cert) h out
              }
          | CFinal _ \<Rightarrow> handle_final_cert v (cert_slot cert) out
          | CFastFinal _ \<Rightarrow> handle_final_cert v (cert_slot cert) out
          | _ \<Rightarrow> Some (v, out));
       Some (v, push_msg (MCert cert) out)
     }"

fun should_ignore_pool_event :: "Votor \<Rightarrow> VotorPoolEvent \<Rightarrow> bool" where
  "should_ignore_pool_event v (EvStandstill _ _) = False"
| "should_ignore_pool_event v (EvCertCreated c) = (cert_slot c < votor_first_unpruned_slot v)"
| "should_ignore_pool_event v (EvParentReady s _) = (s < votor_first_unpruned_slot v \<or> is_retired v s)"
| "should_ignore_pool_event v (EvSafeToNotar b) = (bslot b < votor_first_unpruned_slot v \<or> is_retired v (bslot b))"
| "should_ignore_pool_event v (EvSafeToSkip s) = (s < votor_first_unpruned_slot v \<or> is_retired v s)"

text \<open>The tail of the two fallback branches.\<close>

definition fallback_vote :: "Votor \<Rightarrow> slot \<Rightarrow> Vote \<Rightarrow> VotorOut \<Rightarrow> (Votor \<times> VotorOut) option" where
  "fallback_vote v s vote out =
     do {
       let out = push_msg (MVote vote) out;
       (v, out) \<leftarrow> try_skip_window v s out;
       Some (slot_state_mut v s (\<lambda>st. st\<lparr>vs_bad_window := True\<rparr>), out)
     }"

definition handle_pool_event :: "Votor \<Rightarrow> VotorPoolEvent \<Rightarrow> VotorOut \<Rightarrow> (Votor \<times> VotorOut) option" where
  "handle_pool_event v event out =
     (if should_ignore_pool_event v event then Some (v, out)
      else case event of
        EvParentReady s parent \<Rightarrow>
          do {
            let v = slot_state_mut v s (\<lambda>st. if parent \<notin> set (vs_parents_ready st)
                      then st\<lparr>vs_parents_ready := vs_parents_ready st @ [parent]\<rparr> else st);
            (v, out) \<leftarrow> check_pending_blocks v out;
            out \<leftarrow> set_timeouts s out;
            Some (v, out)
          }
      | EvSafeToNotar blk \<Rightarrow>
          do {
            vote \<leftarrow> new_notar_fallback (bslot blk) (bhash blk) (voting_key v) (validator_index v);
            fallback_vote v (bslot blk) vote out
          }
      | EvSafeToSkip s \<Rightarrow>
          do {
            vote \<leftarrow> new_skip_fallback s (voting_key v) (validator_index v);
            fallback_vote v s vote out
          }
      | EvCertCreated cert \<Rightarrow> handle_cert_created v cert out
      | EvStandstill _ bundle \<Rightarrow> Some (v, out\<lparr>msgs := msgs out @ bundle\<rparr>))"

fun blockstore_slot :: "VotorBlockstoreEvent \<Rightarrow> slot" where
  "blockstore_slot (FirstShred s) = s"
| "blockstore_slot (InvalidBlock s) = s"
| "blockstore_slot (NewBlock s _ _) = s"

definition handle_blockstore_event :: "Votor \<Rightarrow> VotorBlockstoreEvent \<Rightarrow> VotorOut \<Rightarrow> (Votor \<times> VotorOut) option" where
  "handle_blockstore_event v event out =
     (let s = blockstore_slot event
      in if s \<le> highest_final_cert_slot v \<or> is_retired v s then Some (v, out)
         else case event of
           FirstShred _ \<Rightarrow> Some (slot_state_mut v s (\<lambda>st. st\<lparr>vs_received_shred := True\<rparr>), out)
         | InvalidBlock _ \<Rightarrow> try_skip_window v s out
         | NewBlock _ block parent \<Rightarrow>
             if has_voted v s then Some (v, out)
             else do {
               (ok, v, out) \<leftarrow> try_notar v s block parent out;
               if ok then check_pending_blocks v out
               else Some (slot_state_mut v s (\<lambda>st. st\<lparr>vs_pending_block := Some (block, parent)\<rparr>), out)
             })"

definition handle_timeout_event :: "Votor \<Rightarrow> VotorTimeout \<Rightarrow> VotorOut \<Rightarrow> (Votor \<times> VotorOut) option" where
  "handle_timeout_event v event out =
     (let s = timeout_slot event
      in if s \<le> highest_final_cert_slot v \<or> is_retired v s then Some (v, out)
         else case event of
           Timeout _ \<Rightarrow> if \<not> has_voted v s then try_skip_window v s out else Some (v, out)
         | CrashedLeader _ \<Rightarrow>
             if \<not> received_shred v s \<and> \<not> has_voted v s then try_skip_window v s out else Some (v, out))"

subsection \<open>Slot states\<close>

definition vstate :: "Votor \<Rightarrow> slot \<Rightarrow> VotorSlotState" where
  "vstate v s = hm_get_or (v_slots v) vs_default s"

lemma vstate_mut [simp]: "vstate (slot_state_mut v s f) k = (if k = s then f (vstate v s) else vstate v k)"
  by (simp add: vstate_def slot_state_mut_def hm_get_or_def hm_simps)

lemma slot_state_mut_frame [simp]:
  "highest_final_cert_slot (slot_state_mut v s f) = highest_final_cert_slot v"
  "validator_index (slot_state_mut v s f) = validator_index v"
  "voting_key (slot_state_mut v s f) = voting_key v"
  "votor_first_unpruned_slot (slot_state_mut v s f) = votor_first_unpruned_slot v"
  "hm_get (v_slots (slot_state_mut v s f)) k = None \<longleftrightarrow> k \<noteq> s \<and> hm_get (v_slots v) k = None"
  by (simp_all add: slot_state_mut_def votor_first_unpruned_slot_def hm_simps)

lemma vstate_lookups:
  "is_retired v s = vs_retired (vstate v s)" "has_voted v s = vs_voted (vstate v s)"
  "received_shred v s = vs_received_shred (vstate v s)"
  by (auto simp: is_retired_def has_voted_def received_shred_def vstate_def hm_get_or_def vs_default_def split: option.splits)

lemma try_final_eq:
  "try_final v s h out =
     (if s < votor_first_unpruned_slot v then None
      else if vs_block_notarized (vstate v s) = Some h \<and> vs_voted_notar (vstate v s) = Some h \<and> \<not> vs_bad_window (vstate v s)
      then do {
        vote \<leftarrow> new_final s (voting_key v) (validator_index v);
        Some (slot_state_mut v s (\<lambda>st. st\<lparr>vs_retired := True\<rparr>), push_msg (MVote vote) out)
      }
      else Some (v, out))"
  by (auto simp: try_final_def vstate_def hm_get_or_def vs_default_def split: option.splits)

lemma first_slot_le: "first_slot_in_window s \<le> s"
  by (simp add: first_slot_in_window_def)

lemma first_slot_mono: "s \<le> t \<Longrightarrow> first_slot_in_window s \<le> first_slot_in_window t"
  by (simp add: first_slot_in_window_def div_le_mono)

lemma first_slot_idem: "first_slot_in_window (first_slot_in_window s) = first_slot_in_window s"
  by (simp add: first_slot_in_window_def SLOTS_PER_WINDOW_def)

lemma unpruned_window: "votor_first_unpruned_slot v \<le> s \<Longrightarrow> votor_first_unpruned_slot v \<le> first_slot_in_window s"
  using first_slot_mono [of "votor_first_unpruned_slot v" s] by (simp add: votor_first_unpruned_slot_def first_slot_idem)

lemma start_of_first: "is_start_of_window (first_slot_in_window s)"
  by (simp add: is_start_of_window_def first_slot_in_window_def)

text \<open>The votes are built for every slot and every hash of 32 bytes.\<close>

lemma sign_payload_some:
  "length h = 32 \<Longrightarrow> \<exists>sig. sign_payload k s (Some h) sk = Some sig"
  "k \<noteq> VOTE_TYPE_NOTAR \<Longrightarrow> k \<noteq> VOTE_TYPE_NOTAR_FALLBACK \<Longrightarrow> \<exists>sig. sign_payload k s None sk = Some sig"
  by (auto simp: sign_payload_def payload_bytes_to_sign_def write_at_def to_le_bytes_def VOTE_PAYLOAD_MAX_def)

lemma new_votes:
  "length h = 32 \<Longrightarrow> \<exists>n. new_notar s h sk i = Some (VNotar n)"
  "length h = 32 \<Longrightarrow> \<exists>n. new_notar_fallback s h sk i = Some (VNotarFallback n)"
  "\<exists>n. new_skip s sk i = Some (VSkip n)" "\<exists>n. new_skip_fallback s sk i = Some (VSkipFallback n)"
  "\<exists>n. new_final s sk i = Some (VFinal n)"
  using sign_payload_some(1) [of h VOTE_TYPE_NOTAR s sk] sign_payload_some(1) [of h VOTE_TYPE_NOTAR_FALLBACK s sk]
    sign_payload_some(2) [of VOTE_TYPE_SKIP s sk] sign_payload_some(2) [of VOTE_TYPE_SKIP_FALLBACK s sk]
    sign_payload_some(2) [of VOTE_TYPE_FINAL s sk]
  by (auto simp: new_notar_def new_notar_fallback_def new_skip_def new_skip_fallback_def new_final_def vote_kinds)

lemma new_vote_of:
  "new_notar s h sk i = Some x \<Longrightarrow> vote_kind x = VOTE_TYPE_NOTAR \<and> vote_slot x = s \<and> vote_block_hash x = Some h \<and> vote_signer x = i"
  "new_notar_fallback s h sk i = Some x \<Longrightarrow> vote_kind x = VOTE_TYPE_NOTAR_FALLBACK \<and> vote_slot x = s"
  "new_skip s sk i = Some x \<Longrightarrow> vote_kind x = VOTE_TYPE_SKIP \<and> vote_slot x = s \<and> vote_signer x = i"
  "new_skip_fallback s sk i = Some x \<Longrightarrow> vote_kind x = VOTE_TYPE_SKIP_FALLBACK \<and> vote_slot x = s"
  "new_final s sk i = Some x \<Longrightarrow> vote_kind x = VOTE_TYPE_FINAL \<and> vote_slot x = s"
  by (auto simp: new_notar_def new_notar_fallback_def new_skip_def new_skip_fallback_def new_final_def)

subsection \<open>Invariant\<close>

text \<open>The votes of one kind for one slot among the messages.\<close>

definition kind_at :: "nat \<Rightarrow> slot \<Rightarrow> ConsensusMessage \<Rightarrow> bool" where
  "kind_at k s m = (case m of MVote x \<Rightarrow> vote_kind x = k \<and> vote_slot x = s | MCert _ \<Rightarrow> False)"

definition cast :: "nat \<Rightarrow> slot \<Rightarrow> ConsensusMessage list \<Rightarrow> ConsensusMessage list" where
  "cast k s ms = filter (kind_at k s) ms"

lemma cast_append [simp]: "cast k s (ms @ ms') = cast k s ms @ cast k s ms'"
  by (simp add: cast_def)

lemma cast_single [simp]:
  "cast k s [MCert c] = []" "cast k s [MVote x] = (if vote_kind x = k \<and> vote_slot x = s then [MVote x] else [])"
  by (simp_all add: cast_def kind_at_def)

text \<open>
  What the messages cast so far and the state of a slot say of each other. The last clause is
  relaxed for a slot \<open>x\<close> while a fallback vote for it is being handled.
\<close>

definition slot_safe :: "bool \<Rightarrow> slot \<Rightarrow> slot \<Rightarrow> VotorSlotState \<Rightarrow> ConsensusMessage list \<Rightarrow> bool" where
  "slot_safe x fu s st ms \<longleftrightarrow>
     (let N = cast VOTE_TYPE_NOTAR s ms; S = cast VOTE_TYPE_SKIP s ms; F = cast VOTE_TYPE_FINAL s ms;
          B = cast VOTE_TYPE_NOTAR_FALLBACK s ms @ cast VOTE_TYPE_SKIP_FALLBACK s ms in
      length N \<le> 1 \<and> length S \<le> 1 \<and>
      sorted_wrt (\<lambda>m m'. \<not> (kind_at VOTE_TYPE_NOTAR s m \<and> kind_at VOTE_TYPE_SKIP s m')) ms \<and>
      (N \<noteq> [] \<longrightarrow> s < fu \<or> vs_voted_notar st \<noteq> None) \<and>
      (S \<noteq> [] \<longrightarrow> s < fu \<or> vs_voted st \<and> vs_bad_window st) \<and>
      (F \<noteq> [] \<longrightarrow> S = [] \<and> B = [] \<and> (s = 0 \<or> N \<noteq> []) \<and> (s < fu \<or> vs_retired st \<and> vs_voted_notar st \<noteq> None)) \<and>
      (vs_voted_notar st \<noteq> None \<longrightarrow> vs_voted st \<and> vs_pending_block st = None \<and> (s = 0 \<or> N \<noteq> [])) \<and>
      (B \<noteq> [] \<longrightarrow> x \<or> s < fu \<or> vs_bad_window st))"

definition pending_wf :: "VotorSlotState \<Rightarrow> bool" where
  "pending_wf st \<longleftrightarrow> (case vs_pending_block st of None \<Rightarrow> True | Some (b, _) \<Rightarrow> length (bhash b) = 32)"

definition votor_inv :: "slot set \<Rightarrow> Votor \<Rightarrow> VotorOut \<Rightarrow> bool" where
  "votor_inv X v out \<longleftrightarrow>
     (let fu = votor_first_unpruned_slot v in
      (\<forall>s. hm_get (v_slots v) s \<noteq> None \<longrightarrow> fu \<le> s) \<and> hm_wf (v_slots v) \<and>
      (\<forall>s. pending_wf (vstate v s) \<and> slot_safe (s \<in> X) fu s (vstate v s) (msgs out)))"

lemma votor_invD:
  assumes "votor_inv X v out"
  shows "hm_get (v_slots v) s \<noteq> None \<Longrightarrow> votor_first_unpruned_slot v \<le> s" "hm_wf (v_slots v)" "pending_wf (vstate v s)"
    "slot_safe (s \<in> X) (votor_first_unpruned_slot v) s (vstate v s) (msgs out)"
  using assms by (simp_all add: votor_inv_def Let_def)

lemma slot_safe_other:
  assumes "slot_safe x fu s st ms" "vote_slot m \<noteq> s"
  shows "slot_safe x fu s st (ms @ [MVote m])"
  using assms by (simp add: slot_safe_def Let_def sorted_wrt_append kind_at_def)

text \<open>A change of one slot, with at most one vote for that slot.\<close>

lemma votor_inv_mut:
  assumes inv: "votor_inv X v out" and s: "votor_first_unpruned_slot v \<le> s"
    and wf: "pending_wf (f (vstate v s))"
    and here: "slot_safe (s \<in> Y) (votor_first_unpruned_slot v) s (f (vstate v s)) (msgs out')"
    and out': "msgs out' = msgs out \<or> (\<exists>m. msgs out' = msgs out @ [MVote m] \<and> vote_slot m = s)"
    and Y: "\<And>k. k \<noteq> s \<Longrightarrow> k \<in> X \<Longrightarrow> k \<in> Y"
  shows "votor_inv Y (slot_state_mut v s f) out'"
proof -
  note d = votor_invD [OF inv]
  have other: "slot_safe (k \<in> Y) (votor_first_unpruned_slot v) k (vstate v k) (msgs out')" if "k \<noteq> s" for k
  proof -
    have "slot_safe (k \<in> Y) (votor_first_unpruned_slot v) k (vstate v k) (msgs out)"
      using d(4) [of k] Y [OF that] by (auto simp: slot_safe_def Let_def)
    then show ?thesis using out' slot_safe_other that by auto
  qed
  have "hm_wf (v_slots (slot_state_mut v s f))" using d(2) by (simp add: slot_state_mut_def)
  then show ?thesis using s d(1,3) other wf here unfolding votor_inv_def Let_def by simp
qed

lemma votor_inv_msg_cert: "votor_inv X v out \<Longrightarrow> votor_inv X v (push_msg (MCert c) out)"
  by (simp add: votor_inv_def Let_def push_msg_def slot_safe_def sorted_wrt_append kind_at_def)

lemma votor_inv_timeouts: "msgs out' = msgs out \<Longrightarrow> votor_inv X v out' = votor_inv X v out"
  by (simp add: votor_inv_def)

lemma set_timeouts_msgs: "set_timeouts s out = Some out' \<Longrightarrow> msgs out' = msgs out"
  by (auto simp: set_timeouts_def split: if_splits)

definition same_votor :: "Votor \<Rightarrow> Votor \<Rightarrow> bool" where
  "same_votor v v' \<longleftrightarrow> highest_final_cert_slot v' = highest_final_cert_slot v \<and> validator_index v' = validator_index v \<and>
     voting_key v' = voting_key v"

lemma same_votor_unpruned: "same_votor v v' \<Longrightarrow> votor_first_unpruned_slot v' = votor_first_unpruned_slot v"
  by (simp add: same_votor_def votor_first_unpruned_slot_def)

lemma same_votor_mut [simp]: "same_votor v (slot_state_mut v s f)" "same_votor v v"
  by (simp_all add: same_votor_def)

lemma same_votor_trans: "same_votor a b \<Longrightarrow> same_votor b c \<Longrightarrow> same_votor a c"
  by (simp add: same_votor_def)

text \<open>Skipping needs a slot without a vote; notarizing, one without a notarization vote; finalizing, one with.\<close>

lemma slot_safe_skip:
  assumes "slot_safe x fu s st ms" "\<not> vs_voted st" "fu \<le> s" "vote_kind m = VOTE_TYPE_SKIP" "vote_slot m = s"
  shows "slot_safe x fu s (st\<lparr>vs_voted := True, vs_bad_window := True\<rparr>) (ms @ [MVote m])"
proof -
  have N: "cast VOTE_TYPE_NOTAR s ms = []" using assms(1-3) by (auto simp: slot_safe_def Let_def)
  then have "\<not> kind_at VOTE_TYPE_NOTAR s m'" if "m' \<in> set ms" for m' using that by (auto simp: cast_def filter_empty_conv)
  then show ?thesis using assms N by (auto simp: slot_safe_def Let_def sorted_wrt_append vote_kinds)
qed

lemma slot_safe_notar:
  assumes "slot_safe x fu s st ms" "vs_voted_notar st = None" "fu \<le> s" "vote_kind m = VOTE_TYPE_NOTAR" "vote_slot m = s"
  shows "slot_safe x fu s (st\<lparr>vs_voted := True, vs_voted_notar := Some h, vs_pending_block := None\<rparr>) (ms @ [MVote m])"
proof -
  have "\<not> kind_at VOTE_TYPE_SKIP s (MVote m)" using assms(4) by (simp add: kind_at_def vote_kinds)
  then show ?thesis using assms by (auto simp: slot_safe_def Let_def sorted_wrt_append vote_kinds)
qed

lemma slot_safe_final:
  assumes "slot_safe False fu s st ms" "vs_voted_notar st \<noteq> None" "\<not> vs_bad_window st" "fu \<le> s" "vote_kind m = VOTE_TYPE_FINAL" "vote_slot m = s"
  shows "slot_safe False fu s (st\<lparr>vs_retired := True\<rparr>) (ms @ [MVote m])"
proof -
  have "\<not> kind_at VOTE_TYPE_SKIP s (MVote m)" using assms(5) by (simp add: kind_at_def vote_kinds)
  then show ?thesis using assms by (auto simp: slot_safe_def Let_def sorted_wrt_append vote_kinds)
qed

lemma slot_safe_fallback:
  assumes "slot_safe x fu s st ms" "\<not> vs_retired st" "fu \<le> s" "vote_kind m \<in> {VOTE_TYPE_NOTAR_FALLBACK, VOTE_TYPE_SKIP_FALLBACK}"
  shows "slot_safe True fu s st (ms @ [MVote m])"
proof -
  have none: "cast k s [MVote m] = []" if "k \<in> {VOTE_TYPE_NOTAR, VOTE_TYPE_SKIP, VOTE_TYPE_FINAL}" for k
    using assms(4) that by (auto simp: vote_kinds)
  have "\<not> kind_at VOTE_TYPE_SKIP s (MVote m)" using assms(4) by (auto simp: kind_at_def vote_kinds)
  moreover have "cast VOTE_TYPE_FINAL s ms = []" using assms(1-3) by (auto simp: slot_safe_def Let_def)
  ultimately show ?thesis using assms(1) none by (simp add: slot_safe_def Let_def sorted_wrt_append del: cast_single)
qed

lemma slot_safe_bad: "slot_safe x fu s st ms \<Longrightarrow> slot_safe False fu s (st\<lparr>vs_bad_window := True\<rparr>) ms"
  by (auto simp: slot_safe_def Let_def)

lemma skip_loop_ok:
  assumes "votor_inv X v out" "\<forall>s \<in> set ss. votor_first_unpruned_slot v \<le> s"
  shows "\<exists>v' out'. skip_loop ss v out = Some (v', out') \<and> votor_inv X v' out' \<and> same_votor v v'"
  using assms
proof (induction ss arbitrary: v out)
  case (Cons s ss)
  show ?case
  proof (cases "has_voted v s")
    case True
    then show ?thesis using Cons.IH [OF Cons.prems(1)] Cons.prems(2) by simp
  next
    case False
    let ?v = "slot_state_mut v s (\<lambda>st. st\<lparr>vs_voted := True, vs_bad_window := True\<rparr>)"
    obtain n where n: "new_skip s (voting_key v) (validator_index v) = Some (VSkip n)" using new_votes(3) by blast
    then have sl: "vote_slot (VSkip n) = s" using new_vote_of(3) [OF n] by simp
    have fu: "votor_first_unpruned_slot v \<le> s" using Cons.prems(2) by simp
    note d = votor_invD(3,4) [OF Cons.prems(1), of s]
    have "slot_safe (s \<in> X) (votor_first_unpruned_slot v) s ((vstate v s)\<lparr>vs_voted := True, vs_bad_window := True\<rparr>)
        (msgs (push_msg (MVote (VSkip n)) out))"
      using slot_safe_skip [OF d(2) _ fu _ sl] False by (simp add: vstate_lookups push_msg_def)
    then have "votor_inv X ?v (push_msg (MVote (VSkip n)) out)"
      using d(1) sl by (intro votor_inv_mut [OF Cons.prems(1) fu]) (auto simp: pending_wf_def push_msg_def)
    from Cons.IH [OF this] Cons.prems(2) obtain v' out' where
      "skip_loop ss ?v (push_msg (MVote (VSkip n)) out) = Some (v', out')" "votor_inv X v' out'" "same_votor ?v v'" by auto
    then show ?thesis using False n same_votor_trans [of v ?v v'] by simp
  qed
qed simp

lemma try_skip_window_ok:
  assumes "votor_inv X v out" "votor_first_unpruned_slot v \<le> s"
  shows "\<exists>v' out'. try_skip_window v s out = Some (v', out') \<and> votor_inv X v' out' \<and> same_votor v v'"
proof -
  have "\<forall>k \<in> set [first_slot_in_window s..<Suc (last_slot_in_window s)]. votor_first_unpruned_slot v \<le> k"
    using unpruned_window [OF assms(2)] by auto
  from skip_loop_ok [OF assms(1) this] show ?thesis using assms(2) by (simp add: try_skip_window_def del: upt_Suc)
qed

lemma try_final_ok:
  assumes inv: "votor_inv {} v out" and fu: "votor_first_unpruned_slot v \<le> s"
  shows "\<exists>v' out'. try_final v s h out = Some (v', out') \<and> votor_inv {} v' out' \<and> same_votor v v' \<and>
           (\<forall>k. k \<noteq> s \<longrightarrow> vstate v' k = vstate v k)"
proof -
  obtain n where n: "new_final s (voting_key v) (validator_index v) = Some (VFinal n)" using new_votes(5) by blast
  then have sl: "vote_slot (VFinal n) = s" using new_vote_of(5) [OF n] by simp
  note d = votor_invD(3,4) [OF inv, of s]
  have "votor_inv {} (slot_state_mut v s (\<lambda>st. st\<lparr>vs_retired := True\<rparr>)) (push_msg (MVote (VFinal n)) out)"
    if "vs_voted_notar (vstate v s) = Some h" "\<not> vs_bad_window (vstate v s)"
  proof (rule votor_inv_mut [OF inv fu])
    show "slot_safe (s \<in> {}) (votor_first_unpruned_slot v) s ((vstate v s)\<lparr>vs_retired := True\<rparr>) (msgs (push_msg (MVote (VFinal n)) out))"
      using slot_safe_final [of "votor_first_unpruned_slot v" s "vstate v s"] d(2) that fu sl by (simp add: push_msg_def)
  qed (use d(1) sl in \<open>auto simp: pending_wf_def push_msg_def\<close>)
  then show ?thesis using fu n inv by (simp add: try_final_eq)
qed

lemma try_notar_ok:
  assumes inv: "votor_inv {} v out" and fu: "votor_first_unpruned_slot v \<le> s"
    and new: "vs_voted_notar (vstate v s) = None" and len: "length (bhash b) = 32"
  shows "\<exists>ok v' out'. try_notar v s b p out = Some (ok, v', out') \<and> votor_inv {} v' out' \<and> same_votor v v' \<and>
           (\<forall>k. k \<noteq> s \<longrightarrow> vstate v' k = vstate v k) \<and> (\<not> ok \<longrightarrow> v' = v \<and> out' = out)"
proof (cases "valid_notar_parent v s p")
  case False
  then have "try_notar v s b p out = Some (False, v, out)" using fu by (simp add: try_notar_def)
  then show ?thesis using inv by (intro exI [of _ False] exI [of _ v] exI [of _ out]) simp
next
  case True
  obtain n where n: "new_notar s (bhash b) (voting_key v) (validator_index v) = Some (VNotar n)" using new_votes(1) [OF len] by blast
  then have sl: "vote_slot (VNotar n) = s" using new_vote_of(1) [OF n] by simp
  let ?v = "slot_state_mut v s (\<lambda>st. st\<lparr>vs_voted := True, vs_voted_notar := Some (bhash b), vs_pending_block := None\<rparr>)"
  let ?out = "push_msg (MVote (VNotar n)) out"
  have "votor_inv {} ?v ?out"
  proof (rule votor_inv_mut [OF inv fu])
    show "slot_safe (s \<in> {}) (votor_first_unpruned_slot v) s
        ((vstate v s)\<lparr>vs_voted := True, vs_voted_notar := Some (bhash b), vs_pending_block := None\<rparr>) (msgs ?out)"
      using slot_safe_notar [OF votor_invD(4) [OF inv, of s] new fu] sl by (simp add: push_msg_def)
  qed (use sl in \<open>auto simp: pending_wf_def push_msg_def\<close>)
  from try_final_ok [OF this, of s "bhash b"] fu obtain v' out' where
    "try_final ?v s (bhash b) ?out = Some (v', out')" "votor_inv {} v' out'" "same_votor ?v v'" "\<forall>k. k \<noteq> s \<longrightarrow> vstate v' k = vstate ?v k"
    by auto
  then show ?thesis using True fu n same_votor_trans [of v ?v v'] by (auto simp: try_notar_def)
qed

lemma notar_loop_ok:
  assumes "votor_inv {} v out" "distinct (map fst ps)"
    and "\<forall>(s, b, p) \<in> set ps. votor_first_unpruned_slot v \<le> s \<and> vs_pending_block (vstate v s) = Some (b, p)"
  shows "\<exists>v' out'. notar_loop ps v out = Some (v', out') \<and> votor_inv {} v' out' \<and> same_votor v v'"
  using assms
proof (induction ps arbitrary: v out)
  case (Cons x ps)
  obtain s b p where x: "x = (s, b, p)" by (cases x)
  have fu: "votor_first_unpruned_slot v \<le> s" and pend: "vs_pending_block (vstate v s) = Some (b, p)" using Cons.prems(3) x by auto
  have "vs_voted_notar (vstate v s) = None" using votor_invD(4) [OF Cons.prems(1), of s] pend by (auto simp: slot_safe_def Let_def)
  moreover have "length (bhash b) = 32" using votor_invD(3) [OF Cons.prems(1), of s] pend by (simp add: pending_wf_def)
  ultimately obtain ok v1 out1 where
    r: "try_notar v s b p out = Some (ok, v1, out1)" "votor_inv {} v1 out1" "same_votor v v1" "\<forall>k. k \<noteq> s \<longrightarrow> vstate v1 k = vstate v k"
    using try_notar_ok [OF Cons.prems(1) fu, of b p] by blast
  have "\<forall>(k, b, p) \<in> set ps. votor_first_unpruned_slot v1 \<le> k \<and> vs_pending_block (vstate v1 k) = Some (b, p)"
  proof clarify
    fix k b' p' assume m: "(k, b', p') \<in> set ps"
    then have "k \<in> fst ` set ps" by force
    then have "k \<noteq> s" using Cons.prems(2) x by auto
    moreover have "votor_first_unpruned_slot v \<le> k \<and> vs_pending_block (vstate v k) = Some (b', p')" using Cons.prems(3) m by auto
    ultimately show "votor_first_unpruned_slot v1 \<le> k \<and> vs_pending_block (vstate v1 k) = Some (b', p')"
      using r(4) same_votor_unpruned [OF r(3)] by simp
  qed
  from Cons.IH [OF r(2) _ this] Cons.prems(2) obtain v' out' where
    "notar_loop ps v1 out1 = Some (v', out')" "votor_inv {} v' out'" "same_votor v1 v'" by auto
  then show ?case using r(1) x same_votor_trans [OF r(3)] by simp
qed simp

lemma pending_blocks_ok:
  assumes "votor_inv X v out"
  shows "distinct (map fst (pending_blocks v))"
    "\<forall>(s, b, p) \<in> set (pending_blocks v). votor_first_unpruned_slot v \<le> s \<and> vs_pending_block (vstate v s) = Some (b, p)"
proof -
  have wf: "hm_wf (v_slots v)" using votor_invD(2) [OF assms] .
  have "distinct (map fst (List.map_filter (\<lambda>(s, st). map_option (\<lambda>(b, p). (s, b, p)) (vs_pending_block st)) m))"
    if "distinct (map fst m)" for m :: "(slot, VotorSlotState) hmap"
    using that by (induction m) (force simp: List.map_filter_def split: option.splits)+
  then show "distinct (map fst (pending_blocks v))" using wf by (simp add: pending_blocks_def distinct_map)
  show "\<forall>(s, b, p) \<in> set (pending_blocks v). votor_first_unpruned_slot v \<le> s \<and> vs_pending_block (vstate v s) = Some (b, p)"
  proof clarify
    fix s b p assume "(s, b, p) \<in> set (pending_blocks v)"
    then obtain st where "(s, st) \<in> set (v_slots v)" "vs_pending_block st = Some (b, p)"
      by (auto simp: pending_blocks_def List.map_filter_def)
    then have "hm_get (v_slots v) s = Some st" "vs_pending_block st = Some (b, p)" using hm_mem_get [OF wf] by auto
    then show "votor_first_unpruned_slot v \<le> s \<and> vs_pending_block (vstate v s) = Some (b, p)"
      using votor_invD(1) [OF assms, of s] by (simp add: vstate_def hm_get_or_def)
  qed
qed

lemma check_pending_ok:
  assumes "votor_inv {} v out"
  shows "\<exists>v' out'. check_pending_blocks v out = Some (v', out') \<and> votor_inv {} v' out' \<and> same_votor v v'"
  using notar_loop_ok [OF assms pending_blocks_ok [OF assms]] by (simp add: check_pending_blocks_def)

subsection \<open>Handlers\<close>

text \<open>
  Events as the types and the pool deliver them: block hashes have 32 bytes, and a parent is ready
  for the first slot of a window.
\<close>

fun pool_event_wf :: "VotorPoolEvent \<Rightarrow> bool" where
  "pool_event_wf (EvParentReady s _) = is_start_of_window s"
| "pool_event_wf (EvSafeToNotar b) = (length (bhash b) = 32)"
| "pool_event_wf _ = True"

fun blockstore_event_wf :: "VotorBlockstoreEvent \<Rightarrow> bool" where
  "blockstore_event_wf (NewBlock _ b _) = (length (bhash b) = 32)"
| "blockstore_event_wf _ = True"

fun is_standstill :: "VotorPoolEvent \<Rightarrow> bool" where
  "is_standstill (EvStandstill _ _) = True"
| "is_standstill _ = False"

text \<open>Changes that neither vote nor touch what the votes depend on.\<close>

lemma slot_safe_cong:
  assumes "vs_voted st' = vs_voted st" "vs_voted_notar st' = vs_voted_notar st" "vs_bad_window st' = vs_bad_window st"
    "vs_retired st' = vs_retired st" "vs_pending_block st' = vs_pending_block st \<or> vs_voted_notar st = None"
  shows "slot_safe x fu s st' ms = slot_safe x fu s st ms"
  using assms(5) by (elim disjE) (simp_all add: slot_safe_def assms(1-4))

lemma votor_inv_quiet:
  assumes inv: "votor_inv {} v out" and s: "votor_first_unpruned_slot v \<le> s"
    and st: "vs_voted (f (vstate v s)) = vs_voted (vstate v s)" "vs_voted_notar (f (vstate v s)) = vs_voted_notar (vstate v s)"
      "vs_bad_window (f (vstate v s)) = vs_bad_window (vstate v s)" "vs_retired (f (vstate v s)) = vs_retired (vstate v s)"
    and p: "vs_pending_block (f (vstate v s)) = vs_pending_block (vstate v s) \<or>
      \<not> vs_voted (vstate v s) \<and> pending_wf (f (vstate v s))"
  shows "votor_inv {} (slot_state_mut v s f) out"
proof (rule votor_inv_mut [OF inv s])
  note d = votor_invD(3,4) [OF inv, of s]
  show "pending_wf (f (vstate v s))" using p d(1) by (auto simp: pending_wf_def)
  have "vs_voted_notar (vstate v s) = None" if "\<not> vs_voted (vstate v s)" using d(2) that by (simp add: slot_safe_def Let_def)
  then show "slot_safe (s \<in> {}) (votor_first_unpruned_slot v) s (f (vstate v s)) (msgs out)"
    using slot_safe_cong [OF st] p d(2) by blast
qed auto

lemma slot_safe_later:
  assumes "slot_safe x fu s st ms" "fu \<le> fu'"
  shows "slot_safe x fu' s (if fu' \<le> s then st else vs_default) ms"
proof (cases "fu' \<le> s")
  case True
  then have "\<not> s < fu" "\<not> s < fu'" using assms(2) by simp_all
  then show ?thesis using assms(1) True by (simp add: slot_safe_def)
next
  case False
  then have "s < fu'" by simp
  moreover have "vs_voted_notar vs_default = None" by (simp add: vs_default_def)
  ultimately show ?thesis using assms(1) False by (simp add: slot_safe_def Let_def)
qed

lemma votor_inv_prune:
  assumes inv: "votor_inv {} v out"
  shows "votor_inv {} (votor_prune (v\<lparr>highest_final_cert_slot := max (highest_final_cert_slot v) s\<rparr>)) out"
proof -
  let ?v = "votor_prune (v\<lparr>highest_final_cert_slot := max (highest_final_cert_slot v) s\<rparr>)"
  let ?fu = "first_slot_in_window (max (highest_final_cert_slot v) s)"
  have fu: "votor_first_unpruned_slot ?v = ?fu" "votor_first_unpruned_slot v \<le> ?fu"
    by (simp_all add: votor_prune_def votor_first_unpruned_slot_def Let_def first_slot_mono)
  have st: "vstate ?v k = (if ?fu \<le> k then vstate v k else vs_default)" for k
    by (simp add: vstate_def hm_get_or_def votor_prune_def votor_first_unpruned_slot_def Let_def hm_get_retain_key)
  have "slot_safe (k \<in> {}) ?fu k (vstate ?v k) (msgs out)" for k
    using slot_safe_later [OF votor_invD(4) [OF inv, of k] fu(2)] unfolding st .
  moreover have "pending_wf (vstate ?v k)" for k
    using votor_invD(3) [OF inv, of k] unfolding st by (simp add: pending_wf_def vs_default_def)
  moreover have "hm_wf (v_slots ?v)" using votor_invD(2) [OF inv] by (simp add: votor_prune_def Let_def)
  moreover have "?fu \<le> k" if "hm_get (v_slots ?v) k \<noteq> None" for k
    using that by (auto simp: votor_prune_def votor_first_unpruned_slot_def Let_def hm_get_retain_key split: if_splits)
  ultimately show ?thesis unfolding votor_inv_def Let_def fu(1) by blast
qed

lemma fallback_vote_ok:
  assumes inv: "votor_inv {} v out" and s: "votor_first_unpruned_slot v \<le> s" "\<not> vs_retired (vstate v s)"
    and m: "vote_kind m \<in> {VOTE_TYPE_NOTAR_FALLBACK, VOTE_TYPE_SKIP_FALLBACK}" "vote_slot m = s"
  shows "\<exists>v' out'. fallback_vote v s m out = Some (v', out') \<and> votor_inv {} v' out'"
proof -
  let ?out = "push_msg (MVote m) out"
  note d = votor_invD [OF inv]
  have "slot_safe (k \<in> {s}) (votor_first_unpruned_slot v) k (vstate v k) (msgs ?out)" for k
    using slot_safe_fallback [OF d(4) [of s] s(2,1) m(1)] slot_safe_other [OF d(4) [of k], of m] m(2)
    by (cases "k = s") (auto simp: push_msg_def)
  then have "votor_inv {s} v ?out" using d(1-3) by (simp add: votor_inv_def Let_def)
  from try_skip_window_ok [OF this s(1)] obtain v1 out1 where
    r: "try_skip_window v s ?out = Some (v1, out1)" "votor_inv {s} v1 out1" "same_votor v v1" by blast
  have "votor_inv {} (slot_state_mut v1 s (\<lambda>st. st\<lparr>vs_bad_window := True\<rparr>)) out1"
    using votor_invD(3,4) [OF r(2), of s] s(1) same_votor_unpruned [OF r(3)]
    by (intro votor_inv_mut [OF r(2)]) (auto simp: pending_wf_def intro: slot_safe_bad)
  then show ?thesis using r(1) by (simp add: fallback_vote_def Let_def)
qed

lemma handle_final_cert_ok:
  assumes inv: "votor_inv {} v out"
  shows "\<exists>v' out'. handle_final_cert v s out = Some (v', out') \<and> votor_inv {} v' out'"
proof -
  obtain out1 where o: "set_timeouts (first_slot_in_window s) out = Some out1" using start_of_first by (auto simp: set_timeouts_def)
  then show ?thesis
    using votor_inv_prune [OF inv] votor_inv_timeouts [OF set_timeouts_msgs [OF o]] by (simp add: handle_final_cert_def)
qed

lemma notarized_final_ok:
  assumes inv: "votor_inv {} v out" and s: "votor_first_unpruned_slot v \<le> s"
  shows "\<exists>v' out'. try_final (slot_state_mut v s (\<lambda>st. st\<lparr>vs_block_notarized := Some h\<rparr>)) s h out = Some (v', out') \<and> votor_inv {} v' out'"
proof -
  have "votor_inv {} (slot_state_mut v s (\<lambda>st. st\<lparr>vs_block_notarized := Some h\<rparr>)) out"
    using s by (intro votor_inv_quiet [OF inv]) simp_all
  from try_final_ok [OF this, of s h] show ?thesis using s by auto
qed

lemma handle_cert_ok:
  assumes inv: "votor_inv {} v out" and s: "votor_first_unpruned_slot v \<le> cert_slot c"
  shows "\<exists>v' out'. handle_cert_created v c out = Some (v', out') \<and> votor_inv {} v' out'"
proof -
  define r where "r = (case c of
      CNotar n \<Rightarrow> try_final (slot_state_mut v (nc_slot n) (\<lambda>st. st\<lparr>vs_block_notarized := Some (nc_block_hash n)\<rparr>)) (nc_slot n) (nc_block_hash n) out
    | CFinal f \<Rightarrow> handle_final_cert v (fc_slot f) out | CFastFinal f \<Rightarrow> handle_final_cert v (ffc_slot f) out | _ \<Rightarrow> Some (v, out))"
  have "\<exists>v' out'. r = Some (v', out') \<and> votor_inv {} v' out'"
    using inv s handle_final_cert_ok [OF inv] notarized_final_ok [OF inv] unfolding r_def by (cases c) simp_all
  then obtain v' out' where r: "r = Some (v', out')" "votor_inv {} v' out'" by blast
  have "handle_cert_created v c out = Option.bind r (\<lambda>(v, out). Some (v, push_msg (MCert c) out))"
    unfolding r_def handle_cert_created_def by (cases c) simp_all
  then show ?thesis using r votor_inv_msg_cert by simp
qed

lemma handle_pool_ok:
  assumes inv: "votor_inv {} v out" and wf: "pool_event_wf ev"
  shows "\<exists>v' out'. handle_pool_event v ev out = Some (v', out') \<and> votor_inv {} v' (if is_standstill ev then out else out')"
proof (cases "should_ignore_pool_event v ev")
  case False
  show ?thesis
  proof (cases ev)
    case (EvParentReady s p)
    let ?f = "\<lambda>st. if p \<notin> set (vs_parents_ready st) then st\<lparr>vs_parents_ready := vs_parents_ready st @ [p]\<rparr> else st"
    have "votor_inv {} (slot_state_mut v s ?f) out"
      using False EvParentReady by (intro votor_inv_quiet [OF inv]) auto
    from check_pending_ok [OF this] obtain v1 out1 where
      r: "check_pending_blocks (slot_state_mut v s ?f) out = Some (v1, out1)" "votor_inv {} v1 out1" by blast
    obtain out2 where o: "set_timeouts s out1 = Some out2" using wf EvParentReady by (auto simp: set_timeouts_def)
    show ?thesis using r o set_timeouts_msgs [OF o] False EvParentReady votor_inv_timeouts [of out2 out1]
      by (simp add: handle_pool_event_def)
  next
    case (EvSafeToNotar b)
    obtain n where n: "new_notar_fallback (bslot b) (bhash b) (voting_key v) (validator_index v) = Some (VNotarFallback n)"
      using new_votes(2) [of "bhash b" "bslot b" "voting_key v" "validator_index v"] wf EvSafeToNotar by auto
    show ?thesis using fallback_vote_ok [OF inv, of "bslot b" "VNotarFallback n"] new_vote_of(2) [OF n] n False EvSafeToNotar
      by (simp add: handle_pool_event_def vstate_lookups)
  next
    case (EvSafeToSkip s)
    obtain n where n: "new_skip_fallback s (voting_key v) (validator_index v) = Some (VSkipFallback n)" using new_votes(4) by blast
    show ?thesis using fallback_vote_ok [OF inv, of s "VSkipFallback n"] new_vote_of(4) [OF n] n False EvSafeToSkip
      by (simp add: handle_pool_event_def vstate_lookups)
  next
    case (EvCertCreated c)
    then show ?thesis using handle_cert_ok [OF inv, of c] False by (simp add: handle_pool_event_def)
  next
    case (EvStandstill s ms)
    then show ?thesis using inv by (simp add: handle_pool_event_def)
  qed
qed (use inv in \<open>simp add: handle_pool_event_def\<close>)

lemma above_final: "highest_final_cert_slot v < s \<Longrightarrow> votor_first_unpruned_slot v \<le> s"
  using first_slot_le [of "highest_final_cert_slot v"] by (simp add: votor_first_unpruned_slot_def)

lemma handle_blockstore_ok:
  assumes inv: "votor_inv {} v out" and wf: "blockstore_event_wf ev"
  shows "\<exists>v' out'. handle_blockstore_event v ev out = Some (v', out') \<and> votor_inv {} v' out'"
proof (cases "blockstore_slot ev \<le> highest_final_cert_slot v \<or> is_retired v (blockstore_slot ev)")
  case False
  then have s: "votor_first_unpruned_slot v \<le> blockstore_slot ev" using above_final by simp
  show ?thesis
  proof (cases ev)
    case (FirstShred s')
    have "votor_inv {} (slot_state_mut v s' (\<lambda>st. st\<lparr>vs_received_shred := True\<rparr>)) out"
      using s FirstShred by (intro votor_inv_quiet [OF inv]) simp_all
    then show ?thesis using False FirstShred by (simp add: handle_blockstore_event_def)
  next
    case (InvalidBlock s')
    then show ?thesis using False try_skip_window_ok [OF inv, of s'] s by (auto simp: handle_blockstore_event_def)
  next
    case (NewBlock s' b p)
    show ?thesis
    proof (cases "has_voted v s'")
      case True
      then show ?thesis using False NewBlock inv by (simp add: handle_blockstore_event_def)
    next
      case unvoted: False
      have "vs_voted_notar (vstate v s') = None"
        using votor_invD(4) [OF inv, of s'] unvoted by (auto simp: slot_safe_def Let_def vstate_lookups)
      from try_notar_ok [OF inv _ this, of b p] s NewBlock wf obtain ok v1 out1 where
        r: "try_notar v s' b p out = Some (ok, v1, out1)" "votor_inv {} v1 out1" "\<not> ok \<longrightarrow> v1 = v \<and> out1 = out" by auto
      have "votor_inv {} (slot_state_mut v s' (\<lambda>st. st\<lparr>vs_pending_block := Some (b, p)\<rparr>)) out"
        using s NewBlock unvoted wf by (intro votor_inv_quiet [OF inv]) (simp_all add: vstate_lookups pending_wf_def)
      then show ?thesis using False NewBlock unvoted r check_pending_ok [OF r(2)]
        by (cases ok) (auto simp: handle_blockstore_event_def)
    qed
  qed
qed (use inv in \<open>auto simp: handle_blockstore_event_def Let_def\<close>)

lemma handle_timeout_ok:
  assumes inv: "votor_inv {} v out"
  shows "\<exists>v' out'. handle_timeout_event v ev out = Some (v', out') \<and> votor_inv {} v' out'"
proof (cases "timeout_slot ev \<le> highest_final_cert_slot v \<or> is_retired v (timeout_slot ev)")
  case False
  then have "votor_first_unpruned_slot v \<le> timeout_slot ev" using above_final by simp
  then show ?thesis using try_skip_window_ok [OF inv, of "timeout_slot ev"] inv False
    by (cases ev) (auto simp: handle_timeout_event_def Let_def)
qed (use inv in \<open>auto simp: handle_timeout_event_def Let_def\<close>)

subsection \<open>Runs\<close>

text \<open>
  A run handles events in any order, with one buffer that collects all messages. The messages of a
  standstill bundle are votes and certificates that were made before, and are not counted again.
\<close>

inductive votor_step :: "Votor \<times> VotorOut \<Rightarrow> Votor \<times> VotorOut \<Rightarrow> bool" where
  step_pool: "pool_event_wf ev \<Longrightarrow> \<not> is_standstill ev \<Longrightarrow> handle_pool_event v ev out = Some (v', out') \<Longrightarrow>
     votor_step (v, out) (v', out')"
| step_standstill: "handle_pool_event v (EvStandstill s bundle) out = Some (v', out') \<Longrightarrow> votor_step (v, out) (v', out)"
| step_blockstore: "blockstore_event_wf bev \<Longrightarrow> handle_blockstore_event v bev out = Some (v', out') \<Longrightarrow>
     votor_step (v, out) (v', out')"
| step_timeout: "handle_timeout_event v tev out = Some (v', out') \<Longrightarrow> votor_step (v, out) (v', out')"

lemma votor_step_inv:
  assumes "case_prod (votor_inv {}) x" "votor_step x y"
  shows "case_prod (votor_inv {}) y"
  using assms(2,1)
proof cases
  case (step_pool ev v out v' out')
  then show ?thesis using handle_pool_ok [of v out ev] assms(1) by auto
next
  case (step_standstill v s ms out v' out')
  then show ?thesis using handle_pool_ok [of v out "EvStandstill s ms"] assms(1) by auto
next
  case (step_blockstore bev v out v' out')
  then show ?thesis using handle_blockstore_ok [of v out bev] assms(1) by auto
next
  case (step_timeout v tev out v' out')
  then show ?thesis using handle_timeout_ok [of v out tev] assms(1) by auto
qed

interpretation votor_run: invariant_steps votor_step "case_prod (votor_inv {})"
  by unfold_locales (rule votor_step_inv)

lemma votor_new_ok:
  "\<exists>v out. votor_new i key = Some (v, out) \<and> votor_inv {} v out \<and> msgs out = []"
proof -
  have start: "is_start_of_window 0" by (simp add: is_start_of_window_def)
  have fu: "first_slot_in_window 0 = 0" by (simp add: first_slot_in_window_def)
  show ?thesis
    by (auto simp: votor_new_def Let_def set_timeouts_def start votor_out_default_def votor_inv_def slot_state_mut_def vstate_def
        hm_get_or_def votor_first_unpruned_slot_def fu slot_safe_def cast_def pending_wf_def vs_default_def)
qed

lemma votor_reachable_inv:
  assumes "votor_new i key = Some (v0, out0)" "votor_step\<^sup>*\<^sup>* (v0, out0) (v, out)"
  shows "votor_inv {} v out"
  using votor_run.run_inv [OF assms(2)] votor_new_ok [of i key] assms(1) by auto

subsection \<open>Properties\<close>

text \<open>
  C1. The votes of one validator, over every run of its voting engine and for every slot. At most one
  notarization vote and at most one skip vote is cast; no skip vote follows a notarization vote; a
  finalization vote is cast only together with a notarization vote (slot 0 is notarized from the
  start), and excludes skip, notar-fallback and skip-fallback votes, before and after it.
\<close>

theorem votor_votes_safe:
  assumes "votor_new i key = Some (v0, out0)" "votor_step\<^sup>*\<^sup>* (v0, out0) (v, out)"
  shows "length (cast VOTE_TYPE_NOTAR s (msgs out)) \<le> 1 \<and> length (cast VOTE_TYPE_SKIP s (msgs out)) \<le> 1 \<and>
         sorted_wrt (\<lambda>m m'. \<not> (kind_at VOTE_TYPE_NOTAR s m \<and> kind_at VOTE_TYPE_SKIP s m')) (msgs out) \<and>
         (cast VOTE_TYPE_FINAL s (msgs out) \<noteq> [] \<longrightarrow>
            (s = 0 \<or> cast VOTE_TYPE_NOTAR s (msgs out) \<noteq> []) \<and> cast VOTE_TYPE_SKIP s (msgs out) = [] \<and>
            cast VOTE_TYPE_NOTAR_FALLBACK s (msgs out) = [] \<and> cast VOTE_TYPE_SKIP_FALLBACK s (msgs out) = [])"
  using votor_invD(4) [OF votor_reachable_inv [OF assms], of s] by (simp add: slot_safe_def Let_def)

text \<open>
  C38. The voting engine never panics: in every reachable state each handler returns, for every event
  whose block hash has 32 bytes and, where a parent is announced, whose slot starts a window.
\<close>

theorem votor_never_panics:
  assumes "votor_new i key = Some (v0, out0)" "votor_step\<^sup>*\<^sup>* (v0, out0) (v, out)"
    and "pool_event_wf pev" "blockstore_event_wf bev"
  shows "handle_pool_event v pev out \<noteq> None \<and> handle_blockstore_event v bev out \<noteq> None \<and> handle_timeout_event v tev out \<noteq> None"
proof -
  note inv = votor_reachable_inv [OF assms(1,2)]
  show ?thesis
    using handle_pool_ok [OF inv assms(3)] handle_blockstore_ok [OF inv assms(4)] handle_timeout_ok [OF inv, of tev] by auto
qed

definition example_hash :: BlockHash where
  "example_hash = replicate 32 9"

text \<open>The run of a block that arrives before its parent is ready and after whose arrival the window times out.\<close>

definition late_parent_run :: "nat \<Rightarrow> SecretKey \<Rightarrow> BlockHash \<Rightarrow> BlockId \<Rightarrow> (Votor \<times> VotorOut) option" where
  "late_parent_run i key h parent =
     do {
       (v, out) \<leftarrow> votor_new i key;
       (v, out) \<leftarrow> handle_blockstore_event v (NewBlock 4 (block_id 4 h) parent) out;
       (v, out) \<leftarrow> handle_timeout_event v (Timeout 4) out;
       handle_pool_event v (EvParentReady 4 parent) out
     }"

lemma window_4: "first_slot_in_window 4 = 4" "last_slot_in_window 4 = 7" "is_start_of_window 4" "is_start_of_window 0"
  "first_slot_in_window 0 = 0" "last_slot_in_window 0 = 3"
  by (simp_all add: first_slot_in_window_def last_slot_in_window_def is_start_of_window_def SLOTS_PER_WINDOW_def add64_def sub64_def)

lemma upt_4: "[4..<Suc 7] = [4, 5, 6, 7]"
  by (simp add: upt_rec)

text \<open>
  C39. A validator can cast a skip vote and then a notarization vote for the same slot, which the
  slot state classifies as slashable. The block arrives before its parent is ready and is parked;
  the timeout skips the window but leaves the parked block; when the parent becomes ready, the block
  is voted for without a test whether the slot has been voted on.
\<close>

theorem late_parent_votes_slashable:
  assumes "length h = 32"
  shows "\<exists>v out sv nv. late_parent_run i key h parent = Some (v, out) \<and>
           cast VOTE_TYPE_SKIP 4 (msgs out) = [MVote (VSkip sv)] \<and> cast VOTE_TYPE_NOTAR 4 (msgs out) = [MVote (VNotar nv)] \<and>
           check_slashable_offence (store_vote (\<lambda>vv. vv\<lparr>vv_skip := Some sv\<rparr>) (sv_signer sv) ss) (VNotar nv) =
             Some \<lparr>offence = SkipAndNotarize, sl_validator = i, sl_slot = 4\<rparr>"
proof -
  obtain s4 s5 s6 s7 where s: "new_skip 4 key i = Some (VSkip s4)" "new_skip 5 key i = Some (VSkip s5)"
    "new_skip 6 key i = Some (VSkip s6)" "new_skip 7 key i = Some (VSkip s7)" using new_votes(3) by metis
  obtain n where n: "new_notar 4 h key i = Some (VNotar n)" using new_votes(1) [OF assms] by blast
  note sl = new_vote_of(3) [OF s(1)] new_vote_of(3) [OF s(2)] new_vote_of(3) [OF s(3)] new_vote_of(3) [OF s(4)] new_vote_of(1) [OF n]
  have run: "\<exists>v out. late_parent_run i key h parent = Some (v, out) \<and>
      msgs out = map (MVote \<circ> VSkip) [s4, s5, s6, s7] @ [MVote (VNotar n)]"
    by (simp add: late_parent_run_def votor_new_def Let_def set_timeouts_def window_4 votor_out_default_def
        handle_blockstore_event_def handle_timeout_event_def handle_pool_event_def try_notar_def valid_notar_parent_def
        slot_state_mut_def is_retired_def has_voted_def hm_get_or_def votor_first_unpruned_slot_def try_skip_window_def upt_4 s n
        check_pending_blocks_def pending_blocks_def List.map_filter_def vs_default_def try_final_def push_msg_def block_id_def del: upt_Suc)
  have "check_slashable_offence (store_vote (\<lambda>vv. vv\<lparr>vv_skip := Some s4\<rparr>) (sv_signer s4) ss) (VNotar n) =
      Some \<lparr>offence = SkipAndNotarize, sl_validator = i, sl_slot = 4\<rparr>"
    using sl by (simp add: check_slashable_offence_def vv_has_def vv_of_def Let_def hm_simps)
  moreover have "cast VOTE_TYPE_SKIP 4 (map (MVote \<circ> VSkip) [s4, s5, s6, s7] @ [MVote (VNotar n)]) = [MVote (VSkip s4)]"
    "cast VOTE_TYPE_NOTAR 4 (map (MVote \<circ> VSkip) [s4, s5, s6, s7] @ [MVote (VNotar n)]) = [MVote (VNotar n)]"
    using sl by (simp_all add: cast_def kind_at_def vote_kinds)
  ultimately show ?thesis using run by (metis (no_types, lifting))
qed

theorem late_parent_votes_slashable_witness:
  "\<exists>v out sv nv. late_parent_run 3 (replicate 32 1) example_hash (block_id_genesis 0) = Some (v, out) \<and>
     cast VOTE_TYPE_SKIP 4 (msgs out) = [MVote (VSkip sv)] \<and> cast VOTE_TYPE_NOTAR 4 (msgs out) = [MVote (VNotar nv)]"
proof -
  have "length example_hash = 32" by (simp add: example_hash_def)
  from late_parent_votes_slashable [OF this, of 3 "replicate 32 1" "block_id_genesis 0"] show ?thesis by blast
qed

text \<open>A run with a notarization vote and a finalization vote.\<close>

lemma example_final_step:
  assumes "votor_new 3 (replicate 32 1) = Some (v0, out0)"
  shows "\<exists>v out. votor_step\<^sup>*\<^sup>* (v0, out0) (v, out) \<and> cast VOTE_TYPE_FINAL 0 (msgs out) \<noteq> []"
proof -
  let ?c = "CNotar \<lparr>nc_slot = 0, nc_block_hash = GENESIS_BLOCK_HASH, nc_agg_sig = sample_agg, nc_stake = 0\<rparr>"
  obtain n where n: "new_final 0 (replicate 32 1) 3 = Some (VFinal n)" using new_votes(5) by blast
  have "\<exists>v out. handle_pool_event v0 (EvCertCreated ?c) out0 = Some (v, out) \<and> cast VOTE_TYPE_FINAL 0 (msgs out) \<noteq> []"
    using assms new_vote_of(5) [OF n]
    by (auto simp: votor_new_def Let_def set_timeouts_def window_4 votor_out_default_def handle_pool_event_def handle_cert_created_def
        try_final_def slot_state_mut_def hm_get_or_def votor_first_unpruned_slot_def vs_default_def n push_msg_def cast_def kind_at_def)
  then obtain v out where "handle_pool_event v0 (EvCertCreated ?c) out0 = Some (v, out)" "cast VOTE_TYPE_FINAL 0 (msgs out) \<noteq> []" by blast
  moreover from this(1) have "votor_step (v0, out0) (v, out)" by (intro step_pool [of "EvCertCreated ?c"]) simp_all
  ultimately show ?thesis by blast
qed

theorem votor_votes_safe_witness:
  "\<exists>v0 out0 v out. votor_new 3 (replicate 32 1) = Some (v0, out0) \<and> votor_step\<^sup>*\<^sup>* (v0, out0) (v, out) \<and>
     cast VOTE_TYPE_FINAL 0 (msgs out) \<noteq> [] \<and> cast VOTE_TYPE_SKIP 0 (msgs out) = []"
proof -
  obtain v0 out0 where new: "votor_new 3 (replicate 32 1) = Some (v0, out0)" using votor_new_ok by blast
  from example_final_step [OF new] obtain v out where run: "votor_step\<^sup>*\<^sup>* (v0, out0) (v, out)" "cast VOTE_TYPE_FINAL 0 (msgs out) \<noteq> []" by blast
  from votor_votes_safe [OF new run(1), of 0] run new show ?thesis by blast
qed

theorem votor_never_panics_witness:
  "\<exists>v0 out0 v out. votor_new 3 (replicate 32 1) = Some (v0, out0) \<and> votor_step\<^sup>*\<^sup>* (v0, out0) (v, out) \<and>
     cast VOTE_TYPE_FINAL 0 (msgs out) \<noteq> [] \<and> handle_blockstore_event v (NewBlock 4 (block_id 4 example_hash) (block_id_genesis 0)) out \<noteq> None"
proof -
  obtain v0 out0 where new: "votor_new 3 (replicate 32 1) = Some (v0, out0)" using votor_new_ok by blast
  from example_final_step [OF new] obtain v out where run: "votor_step\<^sup>*\<^sup>* (v0, out0) (v, out)" "cast VOTE_TYPE_FINAL 0 (msgs out) \<noteq> []" by blast
  have "pool_event_wf (EvParentReady 4 (block_id_genesis 0))" "blockstore_event_wf (NewBlock 4 (block_id 4 example_hash) (block_id_genesis 0))"
    by (simp_all add: window_4 block_id_def example_hash_def)
  from votor_never_panics [OF new run(1) this] run new show ?thesis by blast
qed

end
