(* ===== verification/Alp_Pool.thy ===== *)
theory Alp_Pool
  imports Alp_Votor Alp_Parent_Ready Alp_Finality
begin

section \<open>Alpenglow: the pool\<close>

text \<open>
  \<open>karstflow-alpenglow/src/pool.rs\<close>: the component that receives votes, certificates and blocks. It
  composes the slot states, the finality tracker and the parent-ready tracker, and emits events for
  the voting engine. \<open>None\<close> is a panic; the errors of \<open>add_vote\<close> and \<open>add_cert\<close> are values, returned
  with the state they leave. The \<open>debug_assert\<close> of \<open>send_parent_ready\<close> is not compiled into a
  release build.
\<close>

subsection \<open>Definitions\<close>

datatype AddError =
    SlotOutOfBounds
  | UnknownSigner
  | InvalidSignature
  | Duplicate
  | SlashableVote Slashable
  | ThresholdNotMet

record PoolOut =
  po_events :: "VotorPoolEvent list"
  po_repairs :: "BlockId list"

record RecoveryBundle =
  rb_slot :: slot
  rb_certs :: "Cert list"
  rb_votes :: "Vote list"

record Recorded =
  rec_notar :: "Cert option"
  rec_skip :: "Cert option"
  rec_fast_finalize :: "Cert option"
  rec_finalize :: "Cert option"
  rec_nf :: "Cert list"
  rec_own :: "Vote list"

definition recorded_default :: Recorded where
  "recorded_default = \<lparr>rec_notar = None, rec_skip = None, rec_fast_finalize = None, rec_finalize = None, rec_nf = [], rec_own = []\<rparr>"

record Pool =
  epoch_info :: EpochInfo
  pool_own_id :: u64
  slot_states :: "(slot, SlotState) hmap"
  recorded :: "(slot, Recorded) hmap"
  s2n_waiting :: "(BlockId, BlockId) hmap"
  finality :: FinalityTracker
  parent_ready :: ParentReadyTracker

definition pool_new :: "u64 \<Rightarrow> EpochInfo \<Rightarrow> Pool" where
  "pool_new own ei =
     \<lparr>epoch_info = ei, pool_own_id = own, slot_states = [], recorded = [], s2n_waiting = [],
      finality = finality_default, parent_ready = tracker_default\<rparr>"

definition finalized_slot :: "Pool \<Rightarrow> slot" where
  "finalized_slot p = highest_finalized_slot (finality p)"

definition pool_first_unpruned_slot :: "Pool \<Rightarrow> slot" where
  "pool_first_unpruned_slot p = first_unpruned_slot (finality p)"

definition pool_parents_ready :: "Pool \<Rightarrow> slot \<Rightarrow> BlockId list" where
  "pool_parents_ready p s = parents_ready (parent_ready p) s"

text \<open>
  \<open>slot_state(s)\<close> creates a missing entry: \<open>pool_slot\<close> is the value it refers to, \<open>pool_put\<close> the
  pool after it has been written.
\<close>

definition pool_slot :: "Pool \<Rightarrow> slot \<Rightarrow> SlotState" where
  "pool_slot p s = hm_get_or (slot_states p) (slot_state_new s (pool_own_id p)) s"

definition pool_put :: "slot \<Rightarrow> SlotState \<Rightarrow> Pool \<Rightarrow> Pool" where
  "pool_put s ss p = p\<lparr>slot_states := hm_insert s ss (slot_states p)\<rparr>"

definition push_event :: "VotorPoolEvent \<Rightarrow> PoolOut \<Rightarrow> PoolOut" where
  "push_event e out = out\<lparr>po_events := po_events out @ [e]\<rparr>"

definition push_repair :: "BlockId \<Rightarrow> PoolOut \<Rightarrow> PoolOut" where
  "push_repair b out = out\<lparr>po_repairs := po_repairs out @ [b]\<rparr>"

definition send_parent_ready :: "ParentReady option \<Rightarrow> PoolOut \<Rightarrow> PoolOut" where
  "send_parent_ready pr out =
     (case pr of Some pr \<Rightarrow> push_event (EvParentReady (pr_slot pr) (pr_parent pr)) out | None \<Rightarrow> out)"

definition pool_prune :: "Pool \<Rightarrow> Pool" where
  "pool_prune p =
     (let first_unpruned = first_unpruned_slot (finality p)
      in p\<lparr>slot_states := hm_retain (\<lambda>s _. s \<ge> first_unpruned) (slot_states p),
           recorded := hm_retain (\<lambda>s _. s \<ge> first_unpruned) (recorded p),
           parent_ready := prt_prune (parent_ready p) first_unpruned\<rparr>)"

definition pool_handle_finalization :: "Pool \<Rightarrow> FinalizationEvent \<Rightarrow> PoolOut \<Rightarrow> (Pool \<times> PoolOut) option" where
  "pool_handle_finalization p fe out =
     do {
       (t, pr) \<leftarrow> handle_finalization (parent_ready p) (ev_finalized fe) (implicitly_finalized fe) (implicitly_skipped fe);
       Some (pool_prune (p\<lparr>parent_ready := t\<rparr>), send_parent_ready pr out)
     }"

fun record_nf :: "Cert \<Rightarrow> Cert list \<Rightarrow> Cert list" where
  "record_nf (CNotarFallback c) nf =
     (if list_ex (\<lambda>e. case e of CNotarFallback x \<Rightarrow> nfc_block_hash x = nfc_block_hash c | _ \<Rightarrow> False) nf
      then nf else nf @ [CNotarFallback c])"
| "record_nf _ nf = nf"

definition record_cert :: "Pool \<Rightarrow> slot \<Rightarrow> Cert \<Rightarrow> Pool" where
  "record_cert p s cert =
     (let r = hm_get_or (recorded p) recorded_default s;
          r' = (case cert of
                  CNotar _ \<Rightarrow> r\<lparr>rec_notar := Some cert\<rparr>
                | CSkip _ \<Rightarrow> r\<lparr>rec_skip := Some cert\<rparr>
                | CFastFinal _ \<Rightarrow> r\<lparr>rec_fast_finalize := Some cert\<rparr>
                | CFinal _ \<Rightarrow> r\<lparr>rec_finalize := Some cert\<rparr>
                | CNotarFallback _ \<Rightarrow> r\<lparr>rec_nf := record_nf cert (rec_nf r)\<rparr>)
      in p\<lparr>recorded := hm_insert s r' (recorded p)\<rparr>)"

definition push_notify :: "NotifyParent \<Rightarrow> PoolOut \<Rightarrow> PoolOut" where
  "push_notify r out =
     (case r of
        NotifyEvent (SafeToNotar b) \<Rightarrow> push_event (EvSafeToNotar b) out
      | NotifyEvent (SafeToSkip s) \<Rightarrow> push_event (EvSafeToSkip s) out
      | NotifyRepair b \<Rightarrow> push_repair b out
      | NotifyNone \<Rightarrow> out)"

definition push_parents :: "ParentReady list \<Rightarrow> PoolOut \<Rightarrow> PoolOut" where
  "push_parents prs out = out\<lparr>po_events := po_events out @ map (\<lambda>x. EvParentReady (pr_slot x) (pr_parent x)) prs\<rparr>"

text \<open>A step of the finality tracker and what follows from its event.\<close>

definition track_finality ::
  "(FinalityTracker \<times> FinalizationEvent) option \<Rightarrow> Pool \<Rightarrow> PoolOut \<Rightarrow> (Pool \<times> PoolOut) option" where
  "track_finality r p out =
     do {
       (t, fe) \<leftarrow> r;
       pool_handle_finalization (p\<lparr>finality := t\<rparr>) fe out
     }"

text \<open>The notification of the child that waits for this block.\<close>

definition notify_waiting :: "BlockId \<Rightarrow> Pool \<Rightarrow> PoolOut \<Rightarrow> (Pool \<times> PoolOut) option" where
  "notify_waiting b p out =
     (case hm_get (s2n_waiting p) b of
        None \<Rightarrow> Some (p, out)
      | Some child \<Rightarrow>
          do {
            let p = p\<lparr>s2n_waiting := hm_remove b (s2n_waiting p)\<rparr>;
            (ss, r) \<leftarrow> notify_parent_certified (pool_slot p (bslot child)) (bhash child) (epoch_info p);
            Some (pool_put (bslot child) ss p, push_notify r out)
          })"

definition certified_block :: "BlockId \<Rightarrow> Pool \<Rightarrow> PoolOut \<Rightarrow> (Pool \<times> PoolOut) option" where
  "certified_block b p out =
     do {
       (p, out) \<leftarrow> notify_waiting b p out;
       (t, prs) \<leftarrow> mark_notar_fallback (parent_ready p) b;
       Some (p\<lparr>parent_ready := t\<rparr>, push_repair b (push_parents prs out))
     }"

definition add_valid_cert :: "Pool \<Rightarrow> Cert \<Rightarrow> PoolOut \<Rightarrow> (Pool \<times> PoolOut) option" where
  "add_valid_cert p cert out =
     do {
       let s = cert_slot cert;
       let p = pool_put s (ss_add_cert (pool_slot p s) cert) p;
       let p = record_cert p s cert;
       (p, out) \<leftarrow>
         (case cert of
            CNotar c \<Rightarrow>
              do {
                let b = block_id s (nc_block_hash c);
                (p, out) \<leftarrow> track_finality (mark_notarized (finality p) b) p out;
                certified_block b p out
              }
          | CNotarFallback c \<Rightarrow> certified_block (block_id s (nfc_block_hash c)) p out
          | CSkip _ \<Rightarrow>
              do {
                (t, prs) \<leftarrow> mark_skipped (parent_ready p) s;
                Some (p\<lparr>parent_ready := t\<rparr>, push_parents prs out)
              }
          | CFastFinal c \<Rightarrow> track_finality (mark_fast_finalized (finality p) (block_id s (ffc_block_hash c))) p out
          | CFinal _ \<Rightarrow> track_finality (mark_finalized (finality p) s) p out);
       Some (p, push_event (EvCertCreated cert) out)
     }"

definition slot_in_bounds :: "Pool \<Rightarrow> slot \<Rightarrow> bool" where
  "slot_in_bounds p s =
     (let far = add64 (finalized_slot p) (2 * SLOTS_PER_EPOCH)
      in s \<ge> pool_first_unpruned_slot p \<and> s < far)"

fun cert_duplicate :: "SlotState \<Rightarrow> Cert \<Rightarrow> bool" where
  "cert_duplicate ss (CNotar _) = has_notar_cert ss"
| "cert_duplicate ss (CNotarFallback c) = is_notar_fallback ss (nfc_block_hash c)"
| "cert_duplicate ss (CSkip _) = has_skip_cert ss"
| "cert_duplicate ss (CFastFinal _) = has_fast_finalize_cert ss"
| "cert_duplicate ss (CFinal _) = has_finalize_cert ss"

definition add_cert :: "Pool \<Rightarrow> Cert \<Rightarrow> PoolOut \<Rightarrow> ((AddError + unit) \<times> Pool \<times> PoolOut) option" where
  "add_cert p cert out =
     do {
       let s = cert_slot cert;
       if \<not> slot_in_bounds p s then Some (Inl SlotOutOfBounds, p, out)
       else if \<not> cert_check_threshold cert (epoch_info p) then Some (Inl ThresholdNotMet, p, out)
       else do {
         sig_ok \<leftarrow> cert_check_sig cert (validators (epoch_info p));
         if \<not> sig_ok then Some (Inl InvalidSignature, p, out)
         else do {
           let ss = pool_slot p s;
           let p = pool_put s ss p;
           if cert_duplicate ss cert then Some (Inl Duplicate, p, out)
           else do {
             (p, out) \<leftarrow> add_valid_cert p cert out;
             Some (Inr (), p, out)
           }
         }
       }
     }"

fun ss_event :: "PoolEvent \<Rightarrow> VotorPoolEvent" where
  "ss_event (SafeToNotar b) = EvSafeToNotar b"
| "ss_event (SafeToSkip s) = EvSafeToSkip s"

fun add_valid_certs :: "Cert list \<Rightarrow> Pool \<Rightarrow> PoolOut \<Rightarrow> (Pool \<times> PoolOut) option" where
  "add_valid_certs [] p out = Some (p, out)"
| "add_valid_certs (c # cs) p out = do { (p, out) \<leftarrow> add_valid_cert p c out; add_valid_certs cs p out }"

definition record_own :: "Pool \<Rightarrow> slot \<Rightarrow> Vote \<Rightarrow> Pool" where
  "record_own p s vote =
     (let r = hm_get_or (recorded p) recorded_default s
      in p\<lparr>recorded := hm_insert s (r\<lparr>rec_own := rec_own r @ [vote]\<rparr>) (recorded p)\<rparr>)"

definition add_vote :: "Pool \<Rightarrow> Vote \<Rightarrow> PoolOut \<Rightarrow> ((AddError + unit) \<times> Pool \<times> PoolOut) option" where
  "add_vote p vote out =
     do {
       let s = vote_slot vote;
       if \<not> slot_in_bounds p s then Some (Inl SlotOutOfBounds, p, out)
       else let signer = vote_signer vote in
         if signer \<ge> validator_cnt (epoch_info p) then Some (Inl UnknownSigner, p, out)
         else do {
           v \<leftarrow> validator (epoch_info p) signer;
           sig_ok \<leftarrow> vote_check_sig vote (voting_pubkey v);
           if \<not> sig_ok then Some (Inl InvalidSignature, p, out)
           else do {
             let ss = pool_slot p s;
             let p = pool_put s ss p;
             case check_slashable_offence ss vote of
               Some off \<Rightarrow> Some (Inl (SlashableVote off), p, out)
             | None \<Rightarrow>
                 if should_ignore_vote ss vote then Some (Inl Duplicate, p, out)
                 else do {
                   (ss, so) \<leftarrow> ss_add_vote ss vote (vstake v) (epoch_info p) outputs_empty;
                   let p = pool_put s ss p;
                   let p = (if signer = pool_own_id p then record_own p s vote else p);
                   let out = out\<lparr>po_events := po_events out @ map ss_event (out_events so),
                                 po_repairs := po_repairs out @ out_repairs so\<rparr>;
                   (p, out) \<leftarrow> add_valid_certs (out_certs so) p out;
                   Some (Inr (), p, out)
                 }
           }
         }
     }"

definition add_block :: "Pool \<Rightarrow> BlockId \<Rightarrow> BlockId \<Rightarrow> PoolOut \<Rightarrow> (Pool \<times> PoolOut) option" where
  "add_block p block parent out =
     (if \<not> bslot block > bslot parent then None
      else do {
        (p, out) \<leftarrow> track_finality (add_parent (finality p) block parent) p out;
        let p = pool_put (bslot block) (notify_parent_known (pool_slot p (bslot block)) (bhash block)) p;
        let parent_is_nf = (case hm_get (slot_states p) (bslot parent) of
                              None \<Rightarrow> False | Some ps \<Rightarrow> is_notar_fallback ps (bhash parent));
        if parent_is_nf then do {
          (ss, r) \<leftarrow> notify_parent_certified (pool_slot p (bslot block)) (bhash block) (epoch_info p);
          Some (pool_put (bslot block) ss p, push_notify r out)
        }
        else Some (p\<lparr>s2n_waiting := hm_insert parent block (s2n_waiting p)\<rparr>, out)
      })"

definition opt_list :: "'a option \<Rightarrow> 'a list" where
  "opt_list x = (case x of None \<Rightarrow> [] | Some y \<Rightarrow> [y])"

definition final_certs :: "Recorded \<Rightarrow> Cert list" where
  "final_certs r =
     (case rec_fast_finalize r of
        Some c \<Rightarrow> [c]
      | None \<Rightarrow> (case (rec_finalize r, rec_notar r) of (Some f, Some n) \<Rightarrow> [f, n] | _ \<Rightarrow> []))"

fun bundle_loop :: "slot \<Rightarrow> (slot \<times> Recorded) list \<Rightarrow> RecoveryBundle \<Rightarrow> RecoveryBundle" where
  "bundle_loop s0 [] b = b"
| "bundle_loop s0 ((s, r) # rs) b =
     bundle_loop s0 rs
       (if s \<le> s0 then b
        else b\<lparr>rb_certs := rb_certs b @ opt_list (rec_finalize r) @ opt_list (rec_fast_finalize r) @ opt_list (rec_notar r) @
                            rec_nf r @ opt_list (rec_skip r),
               rb_votes := rb_votes b @ rec_own r\<rparr>)"

definition recover_from_standstill :: "Pool \<Rightarrow> PoolOut \<Rightarrow> (RecoveryBundle \<times> PoolOut) option" where
  "recover_from_standstill p out =
     (let s = finalized_slot p;
          certs = (case hm_get (recorded p) s of None \<Rightarrow> [] | Some r \<Rightarrow> final_certs r);
          b = \<lparr>rb_slot = add64 s 1, rb_certs = certs, rb_votes = []\<rparr>
      in if certs = [] then None
         else Some (bundle_loop s (recorded p) b, push_event (EvStandstill (add64 s 1) []) out))"

subsection \<open>Announced parents\<close>

text \<open>Every parent that the tracker reports is for the first slot of a window.\<close>

definition starts :: "ParentReady list \<Rightarrow> bool" where
  "starts out \<longleftrightarrow> (\<forall>x \<in> set out. is_start_of_window (pr_slot x))"

lemma add_parents_starts:
  assumes "is_start_of_window s" "add_parents s ps t out = Some (t', out')" "starts out"
  shows "starts out'"
  using assms(2,3)
proof (induction ps arbitrary: t out)
  case (Cons p ps)
  from Cons.prems(1) obtain st where run: "add_parents s ps (put_slot s st t) (out @ [\<lparr>pr_slot = s, pr_parent = p\<rparr>]) = Some (t', out')"
    by (auto simp: bind_eq_Some_conv)
  have "starts (out @ [\<lparr>pr_slot = s, pr_parent = p\<rparr>])" using Cons.prems(2) assms(1) by (auto simp: starts_def)
  with Cons.IH [OF run] show ?case .
qed simp

lemma ready_loop_starts:
  assumes "ready_loop ps s t out = Some r" "starts out"
  shows "starts (snd r)"
  using assms(2)
proof (induction rule: ready_loop.raw_induct [OF _ assms(1)])
  case (1 loop ps s t out r)
  from 1(2) obtain t1 out1 where step: "(if is_start_of_window s then add_parents s ps t out else Some (t, out)) = Some (t1, out1)"
    and rest: "(let t = touch_slot s t1 in if \<not> prs_skip (slot_state t s) then Some (t, out1) else loop ps (add64 s 1) t out1) = Some r"
    by (auto simp: bind_eq_Some_conv)
  have "starts out1" using step add_parents_starts [of s ps t out t1 out1] 1(3) by (auto split: if_splits)
  then show ?case using rest 1(1) by (auto simp: Let_def split: if_splits)
qed

lemma mark_starts:
  "mark_notar_fallback t b = Some (t', out) \<Longrightarrow> starts out" "mark_skipped t s = Some (t', out) \<Longrightarrow> starts out"
  using ready_loop_starts [of _ _ _ "[]" "(t', out)"]
  by (auto simp: mark_notar_fallback_def mark_skipped_def Let_def starts_def split: if_splits prod.splits)

lemma consider_ready_starts:
  assumes "starts v" "starts (opt_list best)"
  shows "starts (opt_list (consider_ready v best))"
  using assms
proof (induction v arbitrary: best)
  case (Cons pr v)
  let ?best = "if (case best of Some b \<Rightarrow> pr_slot pr > pr_slot b | None \<Rightarrow> True) then Some pr else best"
  have "starts v" "starts (opt_list (Some pr))" using Cons.prems(1) by (simp_all add: starts_def opt_list_def)
  then have "starts v" "starts (opt_list ?best)" using Cons.prems(2) by simp_all
  from Cons.IH [OF this] show ?case by simp
qed simp

lemma fin_blocks_starts:
  assumes "fin_blocks bs t best = Some (t', best')" "starts (opt_list best)"
  shows "starts (opt_list best')"
  using assms
proof (induction bs arbitrary: t best)
  case (Cons b bs)
  from Cons.prems(1) obtain t1 v where m: "mark_notar_fallback t b = Some (t1, v)" "fin_blocks bs t1 (consider_ready v best) = Some (t', best')"
    by (auto simp: bind_eq_Some_conv)
  from Cons.IH [OF m(2) consider_ready_starts [OF mark_starts(1) [OF m(1)] Cons.prems(2)]] show ?case .
qed simp

lemma fin_skips_starts:
  assumes "fin_skips ss t best = Some (t', best')" "starts (opt_list best)"
  shows "starts (opt_list best')"
  using assms
proof (induction ss arbitrary: t best)
  case (Cons s ss)
  from Cons.prems(1) obtain t1 v where m: "mark_skipped t s = Some (t1, v)" "fin_skips ss t1 (consider_ready v best) = Some (t', best')"
    by (auto simp: bind_eq_Some_conv)
  from Cons.IH [OF m(2) consider_ready_starts [OF mark_starts(2) [OF m(1)] Cons.prems(2)]] show ?case .
qed simp

lemma handle_finalization_starts:
  assumes "handle_finalization t fin bs ss = Some (t', best)"
  shows "starts (opt_list best)"
proof -
  from assms obtain t1 b1 t2 b2 where
    r: "(case fin of Some f \<Rightarrow> fin_blocks [f] t None | None \<Rightarrow> Some (t, None)) = Some (t1, b1)"
      "fin_blocks bs t1 b1 = Some (t2, b2)" "fin_skips ss t2 b2 = Some (t', best)"
    unfolding handle_finalization_def bind_eq_Some_conv by (auto simp: bind_eq_Some_conv split_beta)
  have none: "starts (opt_list None)" by (simp add: starts_def opt_list_def)
  have "starts (opt_list b1)"
  proof (cases fin)
    case (Some f)
    then have "fin_blocks [f] t None = Some (t1, b1)" using r(1) by simp
    then show ?thesis using none by (rule fin_blocks_starts)
  qed (use r(1) none in simp)
  then show ?thesis using fin_blocks_starts [OF r(2)] fin_skips_starts [OF r(3)] by simp
qed

subsection \<open>Invariant\<close>

text \<open>
  Each component of the pool is in a state it reaches on its own: the slot states are consistent and
  stand at their slot, the finality tracker is on a run of its operations, and the parent-ready
  tracker implements its specification, with its root at the watermark of the finality tracker.
\<close>

definition slot_good :: "EpochInfo \<Rightarrow> slot \<Rightarrow> SlotState \<Rightarrow> bool" where
  "slot_good ei s ss \<longleftrightarrow> slot_inv ei ss \<and> ss_slot ss = s"

definition pool_inv :: "EpochInfo \<Rightarrow> Pool \<Rightarrow> bool" where
  "pool_inv ei p \<longleftrightarrow>
     epoch_info p = ei \<and> (\<forall>s ss. hm_get (slot_states p) s = Some ss \<longrightarrow> slot_good ei s ss) \<and>
     fin_step\<^sup>*\<^sup>* finality_default (finality p) \<and>
     prt_root (parent_ready p) = first_unpruned_slot (finality p) \<and> (\<exists>NF SK. tracker_ok (parent_ready p) NF SK)"

definition announces :: "PoolOut \<Rightarrow> bool" where
  "announces out \<longleftrightarrow> (\<forall>s b. EvParentReady s b \<in> set (po_events out) \<longrightarrow> is_start_of_window s)"

definition pool_good :: "EpochInfo \<Rightarrow> Pool \<times> PoolOut \<Rightarrow> bool" where
  "pool_good ei x \<longleftrightarrow> pool_inv ei (fst x) \<and> announces (snd x)"

lemma slot_good_new: "slot_good ei s (slot_state_new s own)"
  using slot_state_new_inv(1) by (simp add: slot_good_def slot_state_new_def)

lemma slot_good_cert: "slot_good ei s ss \<Longrightarrow> slot_good ei s (ss_add_cert ss c)"
  using slot_inv_add_cert by (cases c) (auto simp: slot_good_def)

lemma slot_good_known: "slot_good ei s ss \<Longrightarrow> slot_good ei s (notify_parent_known ss h)"
  by (simp add: slot_good_def notify_parent_known_def)

lemma slot_good_certified:
  assumes "slot_good ei s ss" "notify_parent_certified ss h ei = Some (ss', r)"
  shows "slot_good ei s ss'"
proof -
  have "ss_slot (fst (check_safe_to_notar x h ei)) = ss_slot x" for x using check_safe_to_notar_core [of x h ei] by (simp add: same_core_def)
  then have "ss_slot ss' = ss_slot ss"
    using assms(2) by (auto simp: notify_parent_certified_def Let_def split_beta split: if_splits)
  then show ?thesis using slot_inv_certified [OF _ assms(2)] assms(1) by (simp add: slot_good_def)
qed

lemma slot_good_vote:
  assumes "slot_good ei s ss" "ei_fits ei" "vote_admitted ei ss vote"
    "ss_add_vote ss vote (stake_at ei (vote_signer vote)) ei out = Some (ss', out')"
  shows "slot_good ei s ss'"
proof -
  have inv: "slot_inv ei ss" "ss_slot ss = s" using assms(1) by (simp_all add: slot_good_def)
  note core = add_vote_core [OF assms(4)]
  have "slot_inv ei ss'" using slot_inv_core [OF core] vote_stored_inv [OF assms(2) inv(1) assms(3)] by simp
  moreover have "ss_slot (vote_stored ss vote st) = ss_slot ss" for st
    by (simp add: vote_stored_def notar_stored_def nf_stored_def skip_stored_def skip_fallback_stored_def final_stored_def Let_def split: Vote.splits)
  ultimately show ?thesis using core inv(2) by (simp add: slot_good_def same_core_def)
qed

lemma pool_slot_good: "pool_inv ei p \<Longrightarrow> slot_good ei s (pool_slot p s)"
  using slot_good_new by (auto simp: pool_inv_def pool_slot_def hm_get_or_def split: option.splits)

lemma pool_inv_put: "pool_inv ei p \<Longrightarrow> slot_good ei s ss \<Longrightarrow> pool_inv ei (pool_put s ss p)"
  by (auto simp: pool_inv_def pool_put_def hm_simps)

lemma pool_inv_frame [simp]:
  "pool_inv ei (p\<lparr>recorded := r\<rparr>) = pool_inv ei p" "pool_inv ei (p\<lparr>s2n_waiting := w\<rparr>) = pool_inv ei p"
  "pool_inv ei (record_cert p s c) = pool_inv ei p" "pool_inv ei (record_own p s v) = pool_inv ei p"
  by (simp_all add: pool_inv_def record_cert_def record_own_def Let_def)

lemma pool_frame [simp]:
  "finality (pool_put s ss p) = finality p" "finality (record_cert p s c) = finality p" "finality (record_own p s v) = finality p"
  "parent_ready (pool_put s ss p) = parent_ready p" "parent_ready (record_cert p s c) = parent_ready p"
  "epoch_info (pool_put s ss p) = epoch_info p" "epoch_info (record_cert p s c) = epoch_info p"
  by (simp_all add: pool_put_def record_cert_def record_own_def Let_def)

lemma announces_push:
  "announces (push_event e out) \<longleftrightarrow> announces out \<and> (\<forall>s b. e = EvParentReady s b \<longrightarrow> is_start_of_window s)"
  "announces (push_repair b out) \<longleftrightarrow> announces out"
  "announces (push_notify r out) \<longleftrightarrow> announces out"
  "starts prs \<Longrightarrow> announces (push_parents prs out) \<longleftrightarrow> announces out"
  "starts (opt_list pr) \<Longrightarrow> announces (send_parent_ready pr out) \<longleftrightarrow> announces out"
  by (auto simp: announces_def push_event_def push_repair_def push_notify_def push_parents_def send_parent_ready_def starts_def
      opt_list_def split: NotifyParent.splits PoolEvent.splits option.splits)

subsection \<open>Operations keep the invariant\<close>

lemma pool_goodI: "pool_inv ei p \<Longrightarrow> announces out \<Longrightarrow> pool_good ei (p, out)"
  by (simp add: pool_good_def)

lemma pool_goodD: "pool_good ei (p, out) \<Longrightarrow> pool_inv ei p" "pool_good ei (p, out) \<Longrightarrow> announces out"
  by (simp_all add: pool_good_def)

lemma pool_inv_fin: "pool_inv ei p \<Longrightarrow> fin_inv (finality p)"
  using fin_reachable_inv by (simp add: pool_inv_def)

lemma track_finality_some:
  assumes inv: "pool_inv ei p" and nxt: "fin_next (finality p) fe t"
  shows "\<exists>t2 best. track_finality (Some (t, fe)) p out = Some (pool_prune (p\<lparr>finality := t, parent_ready := t2\<rparr>), send_parent_ready best out) \<and>
           starts (opt_list best) \<and> prt_root t2 \<le> first_unpruned_slot t \<and> (\<exists>NF SK. tracker_ok t2 NF SK)"
proof -
  from inv obtain NF SK where ok: "tracker_ok (parent_ready p) NF SK" by (auto simp: pool_inv_def)
  have bounds: "\<forall>b \<in> set_option (ev_finalized fe) \<union> set (implicitly_finalized fe). bslot b < u64_max" "\<forall>s \<in> set (implicitly_skipped fe). s < u64_max"
    and le: "first_unpruned_slot (finality p) \<le> first_unpruned_slot t" using nxt by (simp_all add: fin_next_def)
  from handle_finalization_ok [OF ok bounds] obtain t2 best where
    h: "handle_finalization (parent_ready p) (ev_finalized fe) (implicitly_finalized fe) (implicitly_skipped fe) = Some (t2, best)"
      "prt_root t2 = prt_root (parent_ready p)"
      "tracker_ok t2 (set_option (ev_finalized fe) \<union> set (implicitly_finalized fe) \<union> NF) (set (implicitly_skipped fe) \<union> SK)" by blast
  have "prt_root t2 \<le> first_unpruned_slot t" using h(2) inv le by (simp add: pool_inv_def)
  then show ?thesis
    using h(1,3) handle_finalization_starts [OF h(1)] unfolding track_finality_def pool_handle_finalization_def by auto
qed

lemma track_finality_good:
  assumes good: "pool_good ei (p, out)" and step: "fin_step (finality p) t" and nxt: "fin_next (finality p) fe t"
    and run: "track_finality (Some (t, fe)) p out = Some (p', out')"
  shows "pool_good ei (p', out')"
proof -
  note inv = pool_goodD(1) [OF good]
  from track_finality_some [OF inv nxt, of out] run obtain t2 best NF SK where
    p': "p' = pool_prune (p\<lparr>finality := t, parent_ready := t2\<rparr>)" "out' = send_parent_ready best out"
    and t2: "starts (opt_list best)" "prt_root t2 \<le> first_unpruned_slot t" "tracker_ok t2 NF SK" by auto
  have reach: "fin_step\<^sup>*\<^sup>* finality_default t" using inv step unfolding pool_inv_def by (metis rtranclp.rtrancl_into_rtrancl)
  have slots: "slot_good ei s ss" if "hm_get (slot_states p') s = Some ss" for s ss
    using that inv by (auto simp: p' pool_inv_def pool_prune_def Let_def hm_simps hm_get_retain_key split: if_splits)
  have "pool_inv ei p'"
    using slots reach prune_ok [OF t2(3,2)] inv unfolding pool_inv_def by (auto simp: p' pool_prune_def Let_def)
  moreover have "announces out'" using pool_goodD(2) [OF good] t2(1) by (simp add: p' announces_push)
  ultimately show ?thesis by (rule pool_goodI)
qed

text \<open>The four operations of the finality tracker, as the pool calls them.\<close>

lemma track_finality_ops_good:
  assumes good: "pool_good ei (p, out)" and run: "track_finality r p out = Some (p', out')"
    and r: "r = mark_notarized (finality p) b \<and> bslot b < u64_max \<or> r = mark_fast_finalized (finality p) b \<and> bslot b < u64_max \<or>
      r = mark_finalized (finality p) s \<and> s < u64_max \<or> r = add_parent (finality p) b parent \<and> bslot b < u64_max"
  shows "pool_good ei (p', out')"
proof -
  note fin = pool_inv_fin [OF pool_goodD(1) [OF good]]
  obtain t fe where t: "r = Some (t, fe)" using run by (cases r) (auto simp: track_finality_def)
  have "fin_step (finality p) t \<and> fin_next (finality p) fe t"
    using r unfolding t by (elim disjE conjE) (auto intro: fin_step.intros fin_nexts [OF fin] dest!: sym [of "Some _"])
  then show ?thesis using track_finality_good [OF good _ _ run [unfolded t]] by blast
qed

lemma notify_waiting_good:
  assumes good: "pool_good ei (p, out)" and run: "notify_waiting b p out = Some (p', out')"
  shows "pool_good ei (p', out')"
proof (cases "hm_get (s2n_waiting p) b")
  case None
  then show ?thesis using good run by (simp add: notify_waiting_def)
next
  case (Some child)
  let ?p = "p\<lparr>s2n_waiting := hm_remove b (s2n_waiting p)\<rparr>"
  have inv: "pool_inv ei ?p" using pool_goodD(1) [OF good] by simp
  from Some run obtain ss r where
    n: "notify_parent_certified (pool_slot ?p (bslot child)) (bhash child) (epoch_info ?p) = Some (ss, r)"
      "p' = pool_put (bslot child) ss ?p" "out' = push_notify r out"
    by (auto simp: notify_waiting_def Let_def bind_eq_Some_conv)
  have ei: "epoch_info ?p = ei" using inv by (simp add: pool_inv_def)
  have "slot_good ei (bslot child) ss" using slot_good_certified [OF pool_slot_good [OF inv] n(1) [unfolded ei]] .
  then show ?thesis using pool_inv_put [OF inv] pool_goodD(2) [OF good] n(2,3) by (simp add: pool_good_def announces_push)
qed

text \<open>The waiting children are not pruned with their slot states: such a child makes the pool panic.\<close>

lemma pruned_child_panics:
  assumes "hm_get (s2n_waiting p) b = Some child" "hm_get (slot_states p) (bslot child) = None"
  shows "certified_block b p out = None"
  using assms
  by (simp add: certified_block_def notify_waiting_def Let_def pool_slot_def hm_get_or_def notify_parent_certified_def slot_state_new_def)

lemma parent_ready_good:
  assumes good: "pool_good ei (p, out)" and "starts prs" "prt_root t = prt_root (parent_ready p)" "tracker_ok t NF SK"
  shows "pool_good ei (p\<lparr>parent_ready := t\<rparr>, push_parents prs out)"
  using assms by (auto simp: pool_good_def announces_push pool_inv_def)

lemma certified_block_good:
  assumes good: "pool_good ei (p, out)" and b: "bslot b < u64_max" and run: "certified_block b p out = Some (p', out')"
  shows "pool_good ei (p', out')"
proof -
  from run obtain p1 out1 t prs where
    r: "notify_waiting b p out = Some (p1, out1)" "mark_notar_fallback (parent_ready p1) b = Some (t, prs)"
      "p' = p1\<lparr>parent_ready := t\<rparr>" "out' = push_repair b (push_parents prs out1)"
    by (auto simp: certified_block_def bind_eq_Some_conv)
  note good1 = notify_waiting_good [OF good r(1)]
  then obtain NF SK where "tracker_ok (parent_ready p1) NF SK" by (auto simp: pool_good_def pool_inv_def)
  from mark_notar_fallback_ok [OF this b] r(2) have t: "prt_root t = prt_root (parent_ready p1)" "tracker_ok t (insert b NF) SK" by auto
  from parent_ready_good [OF good1 mark_starts(1) [OF r(2)] t] show ?thesis by (simp add: pool_good_def r(3,4) announces_push)
qed

lemma skipped_good:
  assumes good: "pool_good ei (p, out)" and s: "s < u64_max" and run: "mark_skipped (parent_ready p) s = Some (t, prs)"
  shows "pool_good ei (p\<lparr>parent_ready := t\<rparr>, push_parents prs out)"
proof -
  obtain NF SK where "tracker_ok (parent_ready p) NF SK" using good by (auto simp: pool_good_def pool_inv_def)
  from mark_skipped_ok [OF this s] run have "prt_root t = prt_root (parent_ready p)" "tracker_ok t NF (insert s SK)" by auto
  then show ?thesis by (rule parent_ready_good [OF good mark_starts(2) [OF run]])
qed

lemma add_valid_cert_good:
  assumes good: "pool_good ei (p, out)" and s: "cert_slot c < u64_max" and run: "add_valid_cert p c out = Some (p', out')"
  shows "pool_good ei (p', out')"
proof -
  let ?p = "record_cert (pool_put (cert_slot c) (ss_add_cert (pool_slot p (cert_slot c)) c) p) (cert_slot c) c"
  have "pool_inv ei ?p"
    using pool_inv_put [OF pool_goodD(1) [OF good] slot_good_cert [OF pool_slot_good [OF pool_goodD(1) [OF good]]]] by simp
  then have good1: "pool_good ei (?p, out)" using pool_goodD(2) [OF good] by (rule pool_goodI)
  note upd = track_finality_ops_good [OF good1]
  have "\<exists>out1. pool_good ei (p', out1) \<and> out' = push_event (EvCertCreated c) out1"
  proof (cases c)
    case (CNotar n)
    let ?b = "block_id (cert_slot c) (nc_block_hash n)"
    from run CNotar obtain p1 out1 out2 where
      r: "track_finality (mark_notarized (finality ?p) ?b) ?p out = Some (p1, out1)" "certified_block ?b p1 out1 = Some (p', out2)"
        "out' = push_event (EvCertCreated c) out2"
      by (auto simp: add_valid_cert_def Let_def bind_eq_Some_conv)
    have "pool_good ei (p1, out1)" using upd [OF r(1), of ?b] s by simp
    from certified_block_good [OF this _ r(2)] s r(3) show ?thesis by auto
  next
    case (CNotarFallback n)
    then obtain out2 where "certified_block (block_id (cert_slot c) (nfc_block_hash n)) ?p out = Some (p', out2)"
      "out' = push_event (EvCertCreated c) out2" using run by (auto simp: add_valid_cert_def Let_def bind_eq_Some_conv)
    with certified_block_good [OF good1 _ this(1)] s show ?thesis by auto
  next
    case (CSkip k)
    then obtain t prs where "mark_skipped (parent_ready ?p) (cert_slot c) = Some (t, prs)"
      "p' = ?p\<lparr>parent_ready := t\<rparr>" "out' = push_event (EvCertCreated c) (push_parents prs out)"
      using run by (auto simp: add_valid_cert_def Let_def bind_eq_Some_conv)
    with skipped_good [OF good1 s this(1)] show ?thesis by auto
  next
    case (CFastFinal f)
    then obtain out2 where "track_finality (mark_fast_finalized (finality ?p) (block_id (cert_slot c) (ffc_block_hash f))) ?p out = Some (p', out2)"
      "out' = push_event (EvCertCreated c) out2" using run by (auto simp: add_valid_cert_def Let_def bind_eq_Some_conv)
    with upd [OF this(1), of "block_id (cert_slot c) (ffc_block_hash f)"] s show ?thesis by auto
  next
    case (CFinal f)
    then obtain out2 where "track_finality (mark_finalized (finality ?p) (cert_slot c)) ?p out = Some (p', out2)"
      "out' = push_event (EvCertCreated c) out2" using run by (auto simp: add_valid_cert_def Let_def bind_eq_Some_conv)
    with upd [OF this(1)] s show ?thesis by auto
  qed
  then show ?thesis by (auto simp: pool_good_def announces_push)
qed

lemma add_valid_certs_good:
  assumes "pool_good ei (p, out)" "\<forall>c \<in> set cs. cert_slot c < u64_max" "add_valid_certs cs p out = Some (p', out')"
  shows "pool_good ei (p', out')"
  using assms
proof (induction cs arbitrary: p out)
  case (Cons c cs)
  from Cons.prems(3) obtain p1 out1 where r: "add_valid_cert p c out = Some (p1, out1)" "add_valid_certs cs p1 out1 = Some (p', out')"
    by (auto simp: bind_eq_Some_conv)
  have "pool_good ei (p1, out1)" using add_valid_cert_good [OF Cons.prems(1) _ r(1)] Cons.prems(2) by simp
  from Cons.IH [OF this _ r(2)] Cons.prems(2) show ?case by simp
qed simp

text \<open>No validator reaches a quorum alone; a slot state panics otherwise.\<close>

definition no_lone_quorum :: "EpochInfo \<Rightarrow> bool" where
  "no_lone_quorum ei \<longleftrightarrow> (\<forall>v < length (validators ei). \<not> ei_is_quorum ei (stake_at ei v))"

lemma vote_certs_slot:
  assumes "vote_certs_ok ei ss vote cs" "c \<in> set cs"
  shows "cert_slot c = ss_slot ss"
proof -
  have "ss_slot (vote_stored ss vote st) = ss_slot ss" for st
    by (simp add: vote_stored_def notar_stored_def nf_stored_def skip_stored_def skip_fallback_stored_def final_stored_def Let_def split: Vote.splits)
  then show ?thesis
    using assms by (auto simp: vote_certs_ok_def Let_def notar_cert_of_def split: Vote.splits if_splits)
qed

lemma in_bounds_lt:
  assumes "slot_in_bounds p s"
  shows "s < u64_max"
proof -
  have "add64 x y < 2 ^ 64" for x y by (simp add: add64_def)
  then have "s < add64 (finalized_slot p) (2 * SLOTS_PER_EPOCH)" "add64 (finalized_slot p) (2 * SLOTS_PER_EPOCH) < 2 ^ 64"
    using assms by (simp_all add: slot_in_bounds_def Let_def)
  then show ?thesis by (simp add: u64_max_def)
qed

lemma add_cert_good:
  assumes good: "pool_good ei (p, out)" and run: "add_cert p c out = Some (r, p', out')"
  shows "pool_good ei (p', out')"
proof (cases "slot_in_bounds p (cert_slot c)")
  case False
  then show ?thesis using run good by (simp add: add_cert_def)
next
  case True
  let ?p = "pool_put (cert_slot c) (pool_slot p (cert_slot c)) p"
  have good1: "pool_good ei (?p, out)"
    using pool_inv_put [OF pool_goodD(1) [OF good] pool_slot_good [OF pool_goodD(1) [OF good]]] pool_goodD(2) [OF good] by (rule pool_goodI)
  note cert = add_valid_cert_good [OF good1 in_bounds_lt [OF True]]
  show ?thesis
    using run True good good1 cert by (auto simp: add_cert_def Let_def bind_eq_Some_conv split: if_splits)
qed

text \<open>The guards of \<open>add_vote\<close>, and why a vote is refused.\<close>

definition vote_passes :: "Pool \<Rightarrow> Vote \<Rightarrow> bool" where
  "vote_passes p vote \<longleftrightarrow>
     slot_in_bounds p (vote_slot vote) \<and> vote_signer vote < length (validators (epoch_info p)) \<and>
     vote_check_sig vote (voting_pubkey (validators (epoch_info p) ! vote_signer vote)) = Some True \<and>
     check_slashable_offence (pool_slot p (vote_slot vote)) vote = None \<and> \<not> should_ignore_vote (pool_slot p (vote_slot vote)) vote"

fun vote_refusal :: "Pool \<Rightarrow> Vote \<Rightarrow> AddError \<Rightarrow> bool" where
  "vote_refusal p vote SlotOutOfBounds = (\<not> slot_in_bounds p (vote_slot vote))"
| "vote_refusal p vote UnknownSigner = (\<not> vote_signer vote < length (validators (epoch_info p)))"
| "vote_refusal p vote InvalidSignature =
     (vote_check_sig vote (voting_pubkey (validators (epoch_info p) ! vote_signer vote)) = Some False)"
| "vote_refusal p vote (SlashableVote off) = (check_slashable_offence (pool_slot p (vote_slot vote)) vote = Some off)"
| "vote_refusal p vote Duplicate = should_ignore_vote (pool_slot p (vote_slot vote)) vote"
| "vote_refusal p vote ThresholdNotMet = False"

lemma add_vote_passes:
  assumes "vote_passes p vote"
  shows "add_vote p vote out =
    do {
      let s = vote_slot vote;
      (ss, so) \<leftarrow> ss_add_vote (pool_slot p s) vote (stake_at (epoch_info p) (vote_signer vote)) (epoch_info p) outputs_empty;
      let q = pool_put s ss (pool_put s (pool_slot p s) p);
      (q, out) \<leftarrow> add_valid_certs (out_certs so) (if vote_signer vote = pool_own_id p then record_own q s vote else q)
        (out\<lparr>po_events := po_events out @ map ss_event (out_events so), po_repairs := po_repairs out @ out_repairs so\<rparr>);
      Some (Inr (), q, out)
    }"
proof -
  have "pool_own_id (pool_put s ss q) = pool_own_id q" for s ss q by (simp add: pool_put_def)
  then show ?thesis using assms by (simp add: vote_passes_def add_vote_def Let_def validator_def validator_cnt_def stake_at_def)
qed

lemma add_vote_accepted:
  assumes "vote_passes p vote" "add_vote p vote out = Some (r, p', out')"
  shows "r = Inr ()"
  using assms(2) unfolding add_vote_passes [OF assms(1)] by (auto simp: Let_def bind_eq_Some_conv)

lemma add_vote_refused:
  assumes "\<not> vote_passes p vote" "add_vote p vote out = Some (r, p', out')"
  shows "\<exists>e. r = Inl e \<and> vote_refusal p vote e \<and> out' = out \<and> (p' = p \<or> p' = pool_put (vote_slot vote) (pool_slot p (vote_slot vote)) p)"
  using assms
  by (auto simp: vote_passes_def add_vote_def Let_def validator_def validator_cnt_def bind_eq_Some_conv split: if_splits option.splits)

lemma ss_event_not_parent [simp]: "ss_event e \<noteq> EvParentReady k b" "EvParentReady k b \<noteq> ss_event e"
  by (cases e; simp)+

lemma add_vote_good:
  assumes good: "pool_good ei (p, out)" and ei: "ei_fits ei" "no_lone_quorum ei" and sig: "length (vote_sig vote) = SIG_SZ"
    and run: "add_vote p vote out = Some (r, p', out')"
  shows "pool_good ei (p', out')"
proof -
  let ?s = "vote_slot vote" and ?v = "vote_signer vote"
  let ?ss = "pool_slot p ?s" and ?p = "pool_put ?s (pool_slot p ?s) p"
  note inv = pool_goodD(1) [OF good] and ann = pool_goodD(2) [OF good]
  have epoch: "epoch_info p = ei" using inv by (simp add: pool_inv_def)
  have good1: "pool_good ei (?p, out)" using pool_inv_put [OF inv pool_slot_good [OF inv]] ann by (rule pool_goodI)
  show ?thesis
  proof (cases "vote_passes p vote")
    case False
    then show ?thesis using add_vote_refused [OF False run] good good1 by auto
  next
    case True
    then have pass: "slot_in_bounds p ?s" "?v < length (validators ei)" "check_slashable_offence ?ss vote = None" "\<not> should_ignore_vote ?ss vote"
      using epoch by (simp_all add: vote_passes_def)
    from run [unfolded add_vote_passes [OF True]] epoch obtain ss so where
      r: "ss_add_vote ?ss vote (stake_at ei ?v) ei outputs_empty = Some (ss, so)"
        "add_valid_certs (out_certs so) (if ?v = pool_own_id p then record_own (pool_put ?s ss ?p) ?s vote else pool_put ?s ss ?p)
         (out\<lparr>po_events := po_events out @ map ss_event (out_events so), po_repairs := po_repairs out @ out_repairs so\<rparr>) = Some (p', out')"
      by (auto simp: Let_def bind_eq_Some_conv)
    note slot = pool_slot_good [OF inv, of ?s]
    have adm: "vote_admitted ei ?ss vote" using pass sig slot by (simp add: vote_admitted_def slot_good_def)
    have small: "\<not> ei_is_quorum ei (stake_at ei ?v)" using ei(2) pass(2) by (simp add: no_lone_quorum_def)
    have "slot_inv ei ?ss" using slot by (simp add: slot_good_def)
    from add_vote_stored [OF ei(1) this adm small, of outputs_empty] r(1) have "vote_certs_ok ei ?ss vote (out_certs so)"
      by (auto simp: outputs_empty_def)
    then have certs: "\<forall>c \<in> set (out_certs so). cert_slot c < u64_max"
      using vote_certs_slot [of ei ?ss vote] slot in_bounds_lt [OF pass(1)] by (auto simp: slot_good_def)
    have "pool_inv ei (pool_put ?s ss ?p)"
      using pool_inv_put [OF pool_goodD(1) [OF good1] slot_good_vote [OF slot ei(1) adm r(1)]] .
    then have "pool_inv ei (if ?v = pool_own_id p then record_own (pool_put ?s ss ?p) ?s vote else pool_put ?s ss ?p)" by simp
    moreover have "announces (out\<lparr>po_events := po_events out @ map ss_event (out_events so), po_repairs := po_repairs out @ out_repairs so\<rparr>)"
      using ann by (auto simp: announces_def)
    ultimately show ?thesis using add_valid_certs_good [OF _ certs r(2)] pool_goodI by blast
  qed
qed

lemma add_block_good:
  assumes good: "pool_good ei (p, out)" and b: "bslot block < u64_max" and run: "add_block p block parent out = Some (p', out')"
  shows "pool_good ei (p', out')"
proof -
  from run obtain p1 out1 where f: "track_finality (add_parent (finality p) block parent) p out = Some (p1, out1)"
    by (auto simp: add_block_def bind_eq_Some_conv split: if_splits)
  have good1: "pool_good ei (p1, out1)" using track_finality_ops_good [OF good f, of block] b by blast
  note inv1 = pool_goodD(1) [OF good1] and ann1 = pool_goodD(2) [OF good1]
  let ?p = "pool_put (bslot block) (notify_parent_known (pool_slot p1 (bslot block)) (bhash block)) p1"
  have inv2: "pool_inv ei ?p" using pool_inv_put [OF inv1 slot_good_known [OF pool_slot_good [OF inv1]]] .
  have epoch: "epoch_info ?p = ei" using inv2 by (simp add: pool_inv_def)
  have "pool_good ei (pool_put (bslot block) ss ?p, push_notify r out1)"
    if "notify_parent_certified (pool_slot ?p (bslot block)) (bhash block) (epoch_info ?p) = Some (ss, r)" for ss r
    using pool_inv_put [OF inv2 slot_good_certified [OF pool_slot_good [OF inv2] that [unfolded epoch]]] ann1
    by (simp add: pool_good_def announces_push)
  moreover have "pool_good ei (?p\<lparr>s2n_waiting := w\<rparr>, out1)" for w using inv2 ann1 by (simp add: pool_good_def)
  ultimately show ?thesis
    using run f by (auto simp: add_block_def Let_def bind_eq_Some_conv split: if_splits option.splits)
qed

subsection \<open>Runs\<close>

text \<open>The calls of the pool in any order, with one buffer; signatures have the length their type gives them.\<close>

inductive pool_step :: "EpochInfo \<Rightarrow> Pool \<times> PoolOut \<Rightarrow> Pool \<times> PoolOut \<Rightarrow> bool"
  for ei where
  pool_vote: "length (vote_sig vote) = SIG_SZ \<Longrightarrow> add_vote p vote out = Some (r, p', out') \<Longrightarrow> pool_step ei (p, out) (p', out')"
| pool_cert: "add_cert p c out = Some (r, p', out') \<Longrightarrow> pool_step ei (p, out) (p', out')"
| pool_block: "bslot block < u64_max \<Longrightarrow> add_block p block parent out = Some (p', out') \<Longrightarrow> pool_step ei (p, out) (p', out')"
| pool_standstill: "recover_from_standstill p out = Some (bu, out') \<Longrightarrow> pool_step ei (p, out) (p, out')"

definition pool_run_inv :: "EpochInfo \<Rightarrow> Pool \<times> PoolOut \<Rightarrow> bool" where
  "pool_run_inv ei x \<longleftrightarrow> ei_fits ei \<and> no_lone_quorum ei \<and> pool_good ei x"

lemma pool_step_inv:
  assumes "pool_run_inv ei x" "pool_step ei x y"
  shows "pool_run_inv ei y"
  using assms(2)
proof cases
  case (pool_vote vote p out r p' out')
  then show ?thesis using assms(1) add_vote_good by (auto simp: pool_run_inv_def)
next
  case (pool_cert p c out r p' out')
  then show ?thesis using assms(1) add_cert_good by (auto simp: pool_run_inv_def)
next
  case (pool_block block p parent out p' out')
  then show ?thesis using assms(1) add_block_good by (auto simp: pool_run_inv_def)
next
  case (pool_standstill p out bu out')
  then show ?thesis using assms(1)
    by (auto simp: pool_run_inv_def recover_from_standstill_def Let_def pool_good_def announces_push split: if_splits)
qed

interpretation pool_run: invariant_steps "pool_step ei" "pool_run_inv ei" for ei
  by unfold_locales (rule pool_step_inv)

definition pool_out_default :: PoolOut where
  "pool_out_default = \<lparr>po_events = [], po_repairs = []\<rparr>"

lemma pool_new_good: "pool_good ei (pool_new own ei, pool_out_default)"
  using tracker_default_ok
  by (auto simp: pool_good_def pool_inv_def pool_new_def announces_def pool_out_default_def tracker_default_def finality_default_def)

lemma pool_reachable_good:
  assumes "ei_fits ei" "no_lone_quorum ei" "(pool_step ei)\<^sup>*\<^sup>* (pool_new own ei, pool_out_default) (p, out)"
  shows "pool_good ei (p, out)"
  using pool_run.run_inv [OF assms(3)] pool_new_good assms(1,2) by (simp add: pool_run_inv_def)

subsection \<open>Properties\<close>

text \<open>
  C2. The components of a pool stay consistent on every run: votes, certificates, blocks and standstill
  recoveries in any order, in an epoch whose stakes fit and in which no validator alone is a quorum.
  Every slot state satisfies its invariant at its own slot, so only admissible votes were counted and
  no total has wrapped; the finality tracker is on a run of its own operations; the parent-ready
  tracker implements its specification with its root at the finality watermark; and every parent
  announced to the voting engine is for the first slot of a window, which the engine asserts.
\<close>

theorem pool_run_consistent:
  assumes "ei_fits ei" "no_lone_quorum ei" "(pool_step ei)\<^sup>*\<^sup>* (pool_new own ei, pool_out_default) (p, out)"
  shows "(\<forall>s ss. hm_get (slot_states p) s = Some ss \<longrightarrow> slot_inv ei ss \<and> ss_slot ss = s) \<and>
         fin_step\<^sup>*\<^sup>* finality_default (finality p) \<and>
         prt_root (parent_ready p) = pool_first_unpruned_slot p \<and> (\<exists>NF SK. tracker_ok (parent_ready p) NF SK) \<and>
         (\<forall>s b. EvParentReady s b \<in> set (po_events out) \<longrightarrow> is_start_of_window s \<and> pool_event_wf (EvParentReady s b))"
  using pool_reachable_good [OF assms]
  by (auto simp: pool_good_def pool_inv_def slot_good_def announces_def pool_first_unpruned_slot_def)

lemma sample_no_lone: "no_lone_quorum sample_epoch"
  unfolding no_lone_quorum_def sample_quorum sample_stakes(4)
  by (auto simp: less_Suc_eq numeral_3_eq_3 sample_stakes stake_at_def sample_epoch_def sample_validator_def)

definition sample_pool :: Pool where
  "sample_pool = (pool_new 0 sample_epoch)\<lparr>finality := example_tracker,
     slot_states := [(2, notify_parent_known (slot_state_new 2 0) (replicate 32 7))],
     s2n_waiting := [(block_id_genesis 0, example_block 2)]\<rparr>"

lemma sample_pool_run:
  "(pool_step sample_epoch)\<^sup>*\<^sup>* (pool_new 0 sample_epoch, pool_out_default) (sample_pool, pool_out_default)"
proof -
  have par: "add_parent finality_default (example_block 2) (block_id_genesis 0) = Some (example_tracker, ev_default)"
    by (simp add: add_parent_def finality_default_def example_tracker_def example_block_def block_id_def block_id_genesis_def Let_def)
  have fin: "handle_finalization t None [] [] = Some (t, None)" for t by (simp add: handle_finalization_def)
  have prune: "pool_prune ((pool_new 0 sample_epoch)\<lparr>finality := example_tracker\<rparr>) = (pool_new 0 sample_epoch)\<lparr>finality := example_tracker\<rparr>"
    by (simp add: pool_prune_def pool_new_def example_tracker_def finality_default_def prt_prune_def tracker_default_def Let_def)
  have "track_finality (Some (example_tracker, ev_default)) (pool_new 0 sample_epoch) pool_out_default =
      Some ((pool_new 0 sample_epoch)\<lparr>finality := example_tracker\<rparr>, pool_out_default)"
    using prune by (simp add: track_finality_def pool_handle_finalization_def ev_default_def fin send_parent_ready_def pool_new_def)
  then have "add_block (pool_new 0 sample_epoch) (example_block 2) (block_id_genesis 0) pool_out_default = Some (sample_pool, pool_out_default)"
    using par by (simp add: add_block_def pool_new_def sample_pool_def pool_put_def pool_slot_def hm_get_or_def example_block_def
        block_id_def block_id_genesis_def Let_def)
  then have "pool_step sample_epoch (pool_new 0 sample_epoch, pool_out_default) (sample_pool, pool_out_default)"
    by (rule pool_block [rotated]) (simp add: example_block_def u64_max_def)
  then show ?thesis by simp
qed

theorem pool_run_consistent_witness:
  "(pool_step sample_epoch)\<^sup>*\<^sup>* (pool_new 0 sample_epoch, pool_out_default) (sample_pool, pool_out_default) \<and>
   slot_inv sample_epoch (notify_parent_known (slot_state_new 2 0) (replicate 32 7))"
proof -
  have "hm_get (slot_states sample_pool) 2 = Some (notify_parent_known (slot_state_new 2 0) (replicate 32 7))" by (simp add: sample_pool_def)
  then show ?thesis using pool_run_consistent [OF sample_fits sample_no_lone sample_pool_run] sample_pool_run by blast
qed

text \<open>The pool as its operations observe it: a slot state that is missing reads as a new one.\<close>

definition pool_same :: "Pool \<Rightarrow> Pool \<Rightarrow> bool" where
  "pool_same p q \<longleftrightarrow>
     epoch_info q = epoch_info p \<and> pool_own_id q = pool_own_id p \<and> (\<forall>s. pool_slot q s = pool_slot p s) \<and>
     recorded q = recorded p \<and> s2n_waiting q = s2n_waiting p \<and> finality q = finality p \<and> parent_ready q = parent_ready p"

lemma pool_same_touch: "pool_same p p" "pool_same p (pool_put s (pool_slot p s) p)"
  by (simp_all add: pool_same_def pool_put_def pool_slot_def hm_get_or_def hm_simps)

definition cert_passes :: "Pool \<Rightarrow> Cert \<Rightarrow> bool" where
  "cert_passes p c \<longleftrightarrow>
     slot_in_bounds p (cert_slot c) \<and> cert_check_threshold c (epoch_info p) \<and>
     cert_check_sig c (validators (epoch_info p)) = Some True \<and> \<not> cert_duplicate (pool_slot p (cert_slot c)) c"

fun cert_refusal :: "Pool \<Rightarrow> Cert \<Rightarrow> AddError \<Rightarrow> bool" where
  "cert_refusal p c SlotOutOfBounds = (\<not> slot_in_bounds p (cert_slot c))"
| "cert_refusal p c ThresholdNotMet = (\<not> cert_check_threshold c (epoch_info p))"
| "cert_refusal p c InvalidSignature = (cert_check_sig c (validators (epoch_info p)) = Some False)"
| "cert_refusal p c Duplicate = cert_duplicate (pool_slot p (cert_slot c)) c"
| "cert_refusal p c _ = False"

lemma add_cert_passes:
  assumes "cert_passes p c"
  shows "add_cert p c out = map_option (\<lambda>(q, o'). (Inr (), q, o')) (add_valid_cert (pool_put (cert_slot c) (pool_slot p (cert_slot c)) p) c out)"
  using assms by (cases "add_valid_cert (pool_put (cert_slot c) (pool_slot p (cert_slot c)) p) c out")
    (auto simp: cert_passes_def add_cert_def Let_def)

lemma add_cert_accepted:
  assumes "cert_passes p c" "add_cert p c out = Some (r, p', out')"
  shows "r = Inr ()" "add_valid_cert (pool_put (cert_slot c) (pool_slot p (cert_slot c)) p) c out = Some (p', out')"
  using assms(2) unfolding add_cert_passes [OF assms(1)] by (auto simp: map_option_case split: option.splits)

lemma add_cert_refused:
  assumes "\<not> cert_passes p c" "add_cert p c out = Some (r, p', out')"
  shows "\<exists>e. r = Inl e \<and> cert_refusal p c e \<and> out' = out \<and> (p' = p \<or> p' = pool_put (cert_slot c) (pool_slot p (cert_slot c)) p)"
  using assms by (auto simp: cert_passes_def add_cert_def Let_def bind_eq_Some_conv split: if_splits)

lemma add_valid_cert_event:
  "add_valid_cert p c out = Some (p', out') \<Longrightarrow> \<exists>es. po_events out' = es @ [EvCertCreated c]"
  by (auto simp: add_valid_cert_def bind_eq_Some_conv push_event_def Let_def)

text \<open>
  C40. Votes and certificates that a pool refuses: an error names a check that fails, nothing is emitted,
  and the pool is the same to every later operation. A vote or certificate that is accepted
  passes all checks, and the last event of an accepted certificate announces it.
\<close>

theorem pool_refusals:
  "(add_vote p vote out = Some (Inl e, p', out') \<longrightarrow> vote_refusal p vote e \<and> out' = out \<and> pool_same p p') \<and>
   (add_vote p vote out = Some (Inr (), p', out') \<longrightarrow> vote_passes p vote) \<and>
   (add_cert p c out = Some (Inl e, p', out') \<longrightarrow> cert_refusal p c e \<and> out' = out \<and> pool_same p p') \<and>
   (add_cert p c out = Some (Inr (), p', out') \<longrightarrow> cert_passes p c \<and> last (po_events out') = EvCertCreated c)"
proof (intro conjI impI)
  assume v: "add_vote p vote out = Some (Inl e, p', out')"
  then have "\<not> vote_passes p vote" using add_vote_accepted by blast
  from add_vote_refused [OF this v] pool_same_touch show "vote_refusal p vote e" "out' = out" "pool_same p p'" by auto
next
  assume "add_vote p vote out = Some (Inr (), p', out')"
  then show "vote_passes p vote" using add_vote_refused [of p vote out "Inr ()"] by blast
next
  assume c: "add_cert p c out = Some (Inl e, p', out')"
  then have "\<not> cert_passes p c" using add_cert_accepted(1) by blast
  from add_cert_refused [OF this c] pool_same_touch show "cert_refusal p c e" "out' = out" "pool_same p p'" by auto
next
  assume c: "add_cert p c out = Some (Inr (), p', out')"
  then show pass: "cert_passes p c" using add_cert_refused [of p c out "Inr ()"] by blast
  then show "last (po_events out') = EvCertCreated c" using add_valid_cert_event [OF add_cert_accepted(2) [OF pass c]] by auto
qed

definition far_skip :: Vote where
  "far_skip = VSkip \<lparr>sv_slot = 40000, sv_sig = replicate SIG_SZ 0, sv_signer = 0\<rparr>"

theorem pool_refusals_witness:
  "add_vote sample_pool far_skip pool_out_default = Some (Inl SlotOutOfBounds, sample_pool, pool_out_default) \<and>
   vote_refusal sample_pool far_skip SlotOutOfBounds"
proof -
  have "add_vote sample_pool far_skip pool_out_default = Some (Inl SlotOutOfBounds, sample_pool, pool_out_default)"
    by (simp add: add_vote_def far_skip_def slot_in_bounds_def sample_pool_def finalized_slot_def pool_first_unpruned_slot_def
        example_tracker_def finality_default_def SLOTS_PER_EPOCH_def add64_def)
  with pool_refusals [of sample_pool far_skip pool_out_default SlotOutOfBounds sample_pool pool_out_default] show ?thesis by blast
qed


definition sample_fast_final :: FastFinalCert where
  "sample_fast_final = \<lparr>ffc_slot = 2, ffc_block_hash = replicate 32 7,
     ffc_agg_sig = \<lparr>agg_point = replicate 192 0, nbits = 3, bitmask = 7 # replicate 31 0\<rparr>, ffc_stake = 100\<rparr>"

lemma sample_fast_final_passes: "cert_passes sample_pool (CFastFinal sample_fast_final)"
proof -
  let ?a = "\<lparr>agg_point = replicate 192 0, nbits = 3, bitmask = 7 # replicate 31 0\<rparr>"
  have sg: "agg_is_signer ?a 0" "agg_is_signer ?a (Suc 0)" "agg_is_signer ?a 2"
    by (simp_all add: agg_is_signer_bit mask_bit_def bit_numeral_rec bit_Suc)
  have ei: "epoch_info sample_pool = sample_epoch" by (simp add: sample_pool_def pool_new_def)
  have "signed_stake (CFastFinal sample_fast_final) sample_epoch = 100"
    by (simp add: signed_stake_def sample_fast_final_def sample_epoch_def sample_validator_def sg add64_def)
  then have th: "cert_check_threshold (CFastFinal sample_fast_final) sample_epoch"
    by (simp add: cert_check_threshold_def ei_quorum_defs quorum_defs sample_stakes)
  have sig: "cert_check_sig (CFastFinal sample_fast_final) (validators sample_epoch) = Some True"
    by (simp add: sample_fast_final_def cert_verify_def payload_bytes_to_sign_def write_at_def to_le_bytes_def VOTE_PAYLOAD_MAX_def
        agg_verify_bytes_def sample_epoch_def vote_kinds)
  have bounds: "slot_in_bounds sample_pool 2"
    by (simp add: slot_in_bounds_def sample_pool_def finalized_slot_def pool_first_unpruned_slot_def example_tracker_def
        finality_default_def SLOTS_PER_EPOCH_def add64_def)
  have dup: "\<not> cert_duplicate (pool_slot sample_pool 2) (CFastFinal sample_fast_final)"
    by (simp add: has_fast_finalize_cert_def pool_slot_def hm_get_or_def sample_pool_def notify_parent_known_def slot_state_new_def)
  show ?thesis using th sig bounds dup by (simp add: cert_passes_def ei) (simp add: sample_fast_final_def)
qed


end
