(* ===== verification/Tag_Cache.thy ===== *)
theory Tag_Cache
  imports Karst_Prelude "HOL-Library.Monad_Syntax" "HOL-Library.Multiset" "HOL-Library.Log_Nat"
begin

unbundle bit_operations_syntax

section \<open>Tag cache\<close>

text \<open>
  \<open>karstflow-mesh/src/tag_cache.rs\<close>: the fixed-depth cache of 64-bit tags that the mesh uses to drop
  duplicates. A ring of the last \<open>depth\<close> tags gives the eviction order; an open-addressing table with
  linear probing and backward-shift deletion gives the lookup. Both vectors are lists; an index out of
  range is \<open>None\<close>, and so is a probe that never meets an empty slot. Arithmetic is that of a release
  build, in which the debug assertions on the null tag are absent.
\<close>

subsection \<open>Definitions\<close>

definition TAG_NULL :: u64 where
  "TAG_NULL = 0"

definition SPARSE_DEFAULT :: nat where
  "SPARSE_DEFAULT = 2"

record TagCache =
  ring :: "u64 list"
  tag_map :: "u64 list"
  cache_depth :: nat
  map_mask :: nat
  oldest :: nat

text \<open>\<open>vec![TAG_NULL; n]\<close> panics when the allocation exceeds \<open>isize::MAX\<close> bytes.\<close>

definition vec_null :: "nat \<Rightarrow> u64 list option" where
  "vec_null n = (if 8 * n < 2 ^ 63 then Some (replicate n TAG_NULL) else None)"

definition is_power_of_two :: "nat \<Rightarrow> bool" where
  "is_power_of_two n \<longleftrightarrow> 0 < n \<and> n AND (n - 1) = 0"

definition leading_zeros :: "u64 \<Rightarrow> nat" where
  "leading_zeros n = 64 - floorlog 2 n"

definition map_cnt_default :: "nat \<Rightarrow> nat" where
  "map_cnt_default d =
     (if d = 0 then 0
      else let dp1 = add64 d 1;
               lg = ((63 + 2 ^ 32 - leading_zeros dp1) mod 2 ^ 32 + SPARSE_DEFAULT) mod 2 ^ 32
           in 2 ^ (lg mod 64))"

definition with_map_cnt :: "nat \<Rightarrow> nat \<Rightarrow> TagCache option" where
  "with_map_cnt d map_cnt =
     (if d < 1 \<or> \<not> is_power_of_two map_cnt \<or> map_cnt < add64 d 2 then None
      else do {
        r \<leftarrow> vec_null d;
        m \<leftarrow> vec_null map_cnt;
        Some \<lparr>ring = r, tag_map = m, cache_depth = d, map_mask = map_cnt - 1, oldest = 0\<rparr>
      })"

definition tag_cache_new :: "nat \<Rightarrow> TagCache option" where
  "tag_cache_new d = (if d < 1 then None else with_map_cnt d (map_cnt_default d))"

definition in_circular_range :: "nat \<Rightarrow> nat \<Rightarrow> nat \<Rightarrow> nat \<Rightarrow> bool" where
  "in_circular_range a x b msk = (if a < b then a < x \<and> x \<le> b else a < x \<or> x \<le> b)"

partial_function (option) probe_loop :: "u64 list \<Rightarrow> nat \<Rightarrow> u64 \<Rightarrow> nat \<Rightarrow> (bool \<times> nat) option" where
  "probe_loop m msk tag idx = do {
     slot_tag \<leftarrow> vec_get m idx;
     if slot_tag = tag then Some (True, idx)
     else if slot_tag = TAG_NULL then Some (False, idx)
     else probe_loop m msk tag ((idx + 1) AND msk)
   }"

declare probe_loop.simps [code]

definition probe :: "TagCache \<Rightarrow> u64 \<Rightarrow> (bool \<times> nat) option" where
  "probe c tag = probe_loop (tag_map c) (map_mask c) tag (tag AND map_mask c)"

text \<open>The inner loop of \<open>remove\<close>: the next tag that has to move into the hole, with its slot; \<open>None\<close>
  inside is the return at an empty slot.\<close>

partial_function (option) find_displaced :: "u64 list \<Rightarrow> nat \<Rightarrow> nat \<Rightarrow> nat \<Rightarrow> (nat \<times> u64) option option" where
  "find_displaced m msk hole slot =
     (let slot = (slot + 1) AND msk in do {
        displaced \<leftarrow> vec_get m slot;
        if displaced = TAG_NULL then Some None
        else if \<not> in_circular_range hole (displaced AND msk) slot msk then Some (Some (slot, displaced))
        else find_displaced m msk hole slot
      })"

declare find_displaced.simps [code]

partial_function (option) remove_loop :: "u64 list \<Rightarrow> nat \<Rightarrow> nat \<Rightarrow> u64 list option" where
  "remove_loop m msk slot = do {
     m \<leftarrow> vec_set m slot TAG_NULL;
     next_tag \<leftarrow> find_displaced m msk slot slot;
     case next_tag of
       None \<Rightarrow> Some m
     | Some (slot', displaced) \<Rightarrow> do {
         m \<leftarrow> vec_set m slot displaced;
         remove_loop m msk slot'
       }
   }"

declare remove_loop.simps [code]

definition tag_remove :: "TagCache \<Rightarrow> u64 \<Rightarrow> TagCache option" where
  "tag_remove c tag = do {
     (found, slot) \<leftarrow> probe c tag;
     if \<not> found then Some c
     else do {
       m \<leftarrow> remove_loop (tag_map c) (map_mask c) slot;
       Some (c\<lparr>tag_map := m\<rparr>)
     }
   }"

definition tag_contains :: "TagCache \<Rightarrow> u64 \<Rightarrow> bool option" where
  "tag_contains c tag = do { (found, _) \<leftarrow> probe c tag; Some found }"

definition tag_insert :: "TagCache \<Rightarrow> u64 \<Rightarrow> (TagCache \<times> bool) option" where
  "tag_insert c tag = do {
     (found, slot) \<leftarrow> probe c tag;
     if found then Some (c, True)
     else do {
       m \<leftarrow> vec_set (tag_map c) slot tag;
       evicted \<leftarrow> vec_get (ring c) (oldest c);
       r \<leftarrow> vec_set (ring c) (oldest c) tag;
       let o' = oldest c + 1;
       let c = c\<lparr>tag_map := m, ring := r, oldest := if o' \<ge> cache_depth c then 0 else o'\<rparr>;
       c \<leftarrow> (if evicted \<noteq> TAG_NULL then tag_remove c evicted else Some c);
       Some (c, False)
     }
   }"

definition tag_reset :: "TagCache \<Rightarrow> TagCache" where
  "tag_reset c = c\<lparr>ring := replicate (length (ring c)) TAG_NULL,
     tag_map := replicate (length (tag_map c)) TAG_NULL, oldest := 0\<rparr>"

definition tag_len :: "TagCache \<Rightarrow> nat" where
  "tag_len c = length (filter (\<lambda>t. t \<noteq> TAG_NULL) (ring c))"

definition tag_is_empty :: "TagCache \<Rightarrow> bool option" where
  "tag_is_empty c = do { t \<leftarrow> vec_get (ring c) 0; Some (t = TAG_NULL \<and> oldest c = 0) }"

definition tag_map_cnt :: "TagCache \<Rightarrow> nat" where
  "tag_map_cnt c = map_mask c + 1"

subsection \<open>Distance around the table\<close>

text \<open>\<open>cdist n a b\<close>: how many steps a probe takes from slot \<open>a\<close> to slot \<open>b\<close> of \<open>n\<close>.\<close>

definition cdist :: "nat \<Rightarrow> nat \<Rightarrow> nat \<Rightarrow> nat" where
  "cdist n a b = (if a \<le> b then b - a else b + n - a)"

definition csucc :: "nat \<Rightarrow> nat \<Rightarrow> nat" where
  "csucc n a = (if a + 1 < n then a + 1 else 0)"

lemma and_mask_mod: "a AND (2 ^ k - 1) = a mod (2 ^ k :: nat)"
  by (metis mask_eq_exp_minus_1 take_bit_eq_mask take_bit_eq_mod)

lemma csucc_mask: "n = 2 ^ k \<Longrightarrow> a < n \<Longrightarrow> (a + 1) AND (n - 1) = csucc n a"
  using and_mask_mod [of "a + 1" k] by (auto simp: csucc_def less_Suc_eq_le mod_if)

lemma csucc_less [simp]: "0 < n \<Longrightarrow> csucc n a < n"
  by (simp add: csucc_def)

lemma cdist_less: "a < n \<Longrightarrow> b < n \<Longrightarrow> cdist n a b < n"
  by (auto simp: cdist_def)

lemma cdist_self [simp]: "cdist n a a = 0"
  by (simp add: cdist_def)

lemma cdist_eq_0 [simp]: "a < n \<Longrightarrow> b < n \<Longrightarrow> cdist n a b = 0 \<longleftrightarrow> a = b"
  by (auto simp: cdist_def)

lemma cdist_inj: "a < n \<Longrightarrow> b < n \<Longrightarrow> c < n \<Longrightarrow> cdist n a b = cdist n a c \<longleftrightarrow> b = c"
  by (auto simp: cdist_def)

lemma cdist_csucc: "a < n \<Longrightarrow> b < n \<Longrightarrow> csucc n b \<noteq> a \<Longrightarrow> cdist n a (csucc n b) = Suc (cdist n a b)"
  by (auto simp: cdist_def csucc_def split: if_splits)

lemma cdist_next:
  assumes "a < n" "b < n" "e < n" "cdist n a b < cdist n a e"
  shows "cdist n a (csucc n b) = Suc (cdist n a b)"
  using assms by (auto simp: cdist_def csucc_def split: if_splits)

text \<open>The code's range test says that the way from \<open>x\<close> to \<open>b\<close> does not pass \<open>a\<close>.\<close>

lemma in_circular_range_iff:
  "a < n \<Longrightarrow> b < n \<Longrightarrow> x < n \<Longrightarrow> a \<noteq> b \<Longrightarrow> in_circular_range a x b msk \<longleftrightarrow> \<not> cdist n x a < cdist n x b"
  by (auto simp: in_circular_range_def cdist_def)

text \<open>If the way from \<open>x\<close> to \<open>p\<close> passes \<open>h\<close>, it passes everything from \<open>h\<close> to \<open>p\<close>.\<close>

lemma cdist_between:
  assumes "x < n" "h < n" "p < n" "q < n" "cdist n x h < cdist n x p" "cdist n h q < cdist n h p"
  shows "cdist n x q < cdist n x p"
  using assms by (auto simp: cdist_def split: if_splits)

lemma cdist_shift:
  assumes "h < n" "s < n" "e < n" "cdist n h s < cdist n h e"
  shows "cdist n s e = cdist n h e - cdist n h s"
  using assms by (auto simp: cdist_def split: if_splits)

subsection \<open>The probing invariant\<close>

text \<open>
  \<open>chained H m\<close>: from the home slot of every stored tag to the slot that holds it there is no empty
  slot, except possibly those in \<open>H\<close>. Deletion works with one hole; between operations there is none.
\<close>

definition chained :: "nat set \<Rightarrow> u64 list \<Rightarrow> bool" where
  "chained H m \<longleftrightarrow>
     (\<forall>p < length m. m ! p \<noteq> TAG_NULL \<longrightarrow>
        (\<forall>q < length m. cdist (length m) (m ! p mod length m) q < cdist (length m) (m ! p mod length m) p \<longrightarrow>
           m ! q \<noteq> TAG_NULL \<or> q \<in> H))"

lemma chainedD:
  "chained H m \<Longrightarrow> p < length m \<Longrightarrow> m ! p \<noteq> TAG_NULL \<Longrightarrow> q < length m \<Longrightarrow>
   cdist (length m) (m ! p mod length m) q < cdist (length m) (m ! p mod length m) p \<Longrightarrow> m ! q \<noteq> TAG_NULL \<or> q \<in> H"
  by (auto simp: chained_def)

lemma chainedI:
  assumes "\<And>p q. p < length m \<Longrightarrow> m ! p \<noteq> TAG_NULL \<Longrightarrow> q < length m \<Longrightarrow>
    cdist (length m) (m ! p mod length m) q < cdist (length m) (m ! p mod length m) p \<Longrightarrow> m ! q \<noteq> TAG_NULL \<or> q \<in> H"
  shows "chained H m"
  using assms unfolding chained_def by blast

text \<open>The shape of a table: a power of two many slots, the mask one less.\<close>

definition table :: "u64 list \<Rightarrow> nat \<Rightarrow> bool" where
  "table m msk \<longleftrightarrow> (\<exists>k. length m = 2 ^ k) \<and> msk = length m - 1"

lemma tableD:
  assumes "table m msk"
  shows "0 < length m" and "a < length m \<Longrightarrow> (a + 1) AND msk = csucc (length m) a" and "t AND msk = t mod length m"
  using assms and_mask_mod csucc_mask by (auto simp: table_def)

lemma table_update [simp]: "table (m[i := x]) msk = table m msk"
  by (simp add: table_def)

text \<open>A probe that has met neither the tag nor an empty slot so far stops at the first of the two.\<close>

lemma probe_loop_spec:
  assumes "table m msk" "e < length m" "m ! e = TAG_NULL" "h < length m" "i < length m"
    and "\<And>q. q < length m \<Longrightarrow> cdist (length m) h q < cdist (length m) h i \<Longrightarrow> m ! q \<noteq> tag \<and> m ! q \<noteq> TAG_NULL"
  shows "\<exists>p < length m. probe_loop m msk tag i = Some (m ! p = tag, p) \<and> (m ! p = tag \<or> m ! p = TAG_NULL) \<and>
    (\<forall>q < length m. cdist (length m) h q < cdist (length m) h p \<longrightarrow> m ! q \<noteq> tag \<and> m ! q \<noteq> TAG_NULL)"
  using assms(5,6)
proof (induction "length m - cdist (length m) h i" arbitrary: i rule: less_induct)
  case less
  show ?case
  proof (cases "m ! i = tag \<or> m ! i = TAG_NULL")
    case True
    then have "probe_loop m msk tag i = Some (m ! i = tag, i)"
      using less.prems(1) by (subst probe_loop.simps) (auto simp: vec_get_def)
    then show ?thesis using True less.prems by (intro exI [of _ i]) simp
  next
    case False
    let ?j = "csucc (length m) i"
    have ei: "cdist (length m) h i < cdist (length m) h e"
      using less.prems(2) [OF assms(2)] assms(3) False cdist_inj [OF assms(4) less.prems(1) assms(2)]
      by (metis linorder_neqE_nat)
    have nxt: "cdist (length m) h ?j = Suc (cdist (length m) h i)" by (rule cdist_next [OF assms(4) less.prems(1) assms(2) ei])
    have j: "?j < length m" using tableD(1) [OF assms(1)] by simp
    have step: "probe_loop m msk tag i = probe_loop m msk tag ?j"
      using False less.prems(1) tableD(2) [OF assms(1) less.prems(1)]
      by (subst probe_loop.simps) (simp add: vec_get_def)
    have seen: "m ! q \<noteq> tag \<and> m ! q \<noteq> TAG_NULL" if "q < length m" "cdist (length m) h q < cdist (length m) h ?j" for q
    proof (cases "q = i")
      case False
      then have "cdist (length m) h q \<noteq> cdist (length m) h i" using cdist_inj [OF assms(4) that(1) less.prems(1)] by simp
      then show ?thesis using that less.prems(2) [OF that(1)] nxt by simp
    qed (use \<open>\<not> (m ! i = tag \<or> m ! i = TAG_NULL)\<close> in simp)
    have "length m - cdist (length m) h ?j < length m - cdist (length m) h i"
      using nxt cdist_less [OF assms(4) assms(2)] ei by simp
    from less.hyps [OF this j seen] show ?thesis by (simp add: step)
  qed
qed

lemma probe_spec:
  assumes "table m msk" "e < length m" "m ! e = TAG_NULL"
  shows "\<exists>p < length m. probe_loop m msk tag (tag AND msk) = Some (m ! p = tag, p) \<and> (m ! p = tag \<or> m ! p = TAG_NULL) \<and>
    (\<forall>q < length m. cdist (length m) (tag mod length m) q < cdist (length m) (tag mod length m) p \<longrightarrow> m ! q \<noteq> tag \<and> m ! q \<noteq> TAG_NULL)"
proof -
  have "tag mod length m < length m" using tableD(1) [OF assms(1)] by simp
  from probe_loop_spec [OF assms this this] show ?thesis by (simp add: tableD(3) [OF assms(1)])
qed

text \<open>In a chained table the probe decides membership.\<close>

lemma probe_found_iff:
  assumes "table m msk" "e < length m" "m ! e = TAG_NULL" "chained {} m" "tag \<noteq> TAG_NULL"
    and "probe_loop m msk tag (tag AND msk) = Some (b, p)"
  shows "b \<longleftrightarrow> tag \<in> set m"
proof -
  let ?d = "cdist (length m) (tag mod length m)"
  obtain p' where p': "p' < length m" "b \<longleftrightarrow> m ! p' = tag" "m ! p' = tag \<or> m ! p' = TAG_NULL"
    "\<forall>q < length m. ?d q < ?d p' \<longrightarrow> m ! q \<noteq> tag \<and> m ! q \<noteq> TAG_NULL"
    using probe_spec [OF assms(1-3), of tag] assms(6) by auto
  have False if "m ! p' = TAG_NULL" "r < length m" "m ! r = tag" for r
  proof -
    have h: "tag mod length m < length m" using tableD(1) [OF assms(1)] by simp
    have "\<not> ?d r < ?d p'" using p'(4) that by auto
    moreover have "r \<noteq> p'" using that assms(5) by auto
    ultimately have "?d p' < ?d r" using cdist_inj [OF h that(2) p'(1)] by (metis linorder_neqE_nat)
    then show False using chainedD [OF assms(4) that(2) _ p'(1)] that assms(5) by simp
  qed
  then show ?thesis using p' by (metis in_set_conv_nth nth_mem)
qed

text \<open>Placing a tag where its probe stopped keeps the chains.\<close>

lemma chained_insert:
  assumes "chained {} m" "p < length m" "m ! p = TAG_NULL" "tag \<noteq> TAG_NULL"
    and "\<forall>q < length m. cdist (length m) (tag mod length m) q < cdist (length m) (tag mod length m) p \<longrightarrow> m ! q \<noteq> tag \<and> m ! q \<noteq> TAG_NULL"
  shows "chained {} (m[p := tag])"
proof (rule chainedI)
  fix r q assume r: "r < length (m[p := tag])" "m[p := tag] ! r \<noteq> TAG_NULL" and q: "q < length (m[p := tag])"
    and lt: "cdist (length (m[p := tag])) (m[p := tag] ! r mod length (m[p := tag])) q
      < cdist (length (m[p := tag])) (m[p := tag] ! r mod length (m[p := tag])) r"
  show "m[p := tag] ! q \<noteq> TAG_NULL \<or> q \<in> {}"
  proof (cases "q = p \<or> r = p")
    case True
    then show ?thesis using assms(2,4,5) q lt by (cases "q = p") auto
  next
    case False
    then show ?thesis using chainedD [OF assms(1), of r q] r q lt by simp
  qed
qed

subsection \<open>Backward-shift deletion\<close>

text \<open>
  The scan for the next tag to move: every slot it passes holds a tag whose way does not cross the hole.
  It stops at an empty slot, or at a tag whose way does cross it.
\<close>

lemma find_displaced_spec:
  assumes "table m msk" "e < length m" "m ! e = TAG_NULL" "h < length m" "s < length m"
    and "cdist (length m) h s < cdist (length m) h e"
    and "\<And>q. q < length m \<Longrightarrow> q \<noteq> h \<Longrightarrow> cdist (length m) h q \<le> cdist (length m) h s \<Longrightarrow>
      m ! q \<noteq> TAG_NULL \<and> \<not> cdist (length m) (m ! q mod length m) h < cdist (length m) (m ! q mod length m) q"
  shows "\<exists>p < length m. p \<noteq> h \<and> cdist (length m) h p \<le> cdist (length m) h e \<and>
    (\<forall>q < length m. q \<noteq> h \<longrightarrow> cdist (length m) h q < cdist (length m) h p \<longrightarrow>
      m ! q \<noteq> TAG_NULL \<and> \<not> cdist (length m) (m ! q mod length m) h < cdist (length m) (m ! q mod length m) q) \<and>
    (m ! p = TAG_NULL \<and> find_displaced m msk h s = Some None \<or>
     m ! p \<noteq> TAG_NULL \<and> cdist (length m) (m ! p mod length m) h < cdist (length m) (m ! p mod length m) p \<and>
       find_displaced m msk h s = Some (Some (p, m ! p)))"
  using assms(5-7)
proof (induction "length m - cdist (length m) h s" arbitrary: s rule: less_induct)
  case less
  let ?n = "length m" and ?t = "csucc (length m) s"
  have nxt: "cdist ?n h ?t = Suc (cdist ?n h s)" by (rule cdist_next [OF assms(4) less.prems(1) assms(2) less.prems(2)])
  have t: "?t < ?n" "?t \<noteq> h" using tableD(1) [OF assms(1)] nxt by auto
  have home: "m ! ?t mod ?n < ?n" using tableD(1) [OF assms(1)] by simp
  have rng: "in_circular_range h (m ! ?t mod ?n) ?t msk \<longleftrightarrow> \<not> cdist ?n (m ! ?t mod ?n) h < cdist ?n (m ! ?t mod ?n) ?t"
    using in_circular_range_iff [OF assms(4) t(1) home] t(2) by auto
  have step: "find_displaced m msk h s =
     (if m ! ?t = TAG_NULL then Some None
      else if cdist ?n (m ! ?t mod ?n) h < cdist ?n (m ! ?t mod ?n) ?t then Some (Some (?t, m ! ?t))
      else find_displaced m msk h ?t)"
    using t(1) rng tableD(2) [OF assms(1) less.prems(1)] tableD(3) [OF assms(1), of "m ! ?t"]
    by (subst find_displaced.simps) (simp add: vec_get_def Let_def)
  have seen: "m ! q \<noteq> TAG_NULL \<and> \<not> cdist ?n (m ! q mod ?n) h < cdist ?n (m ! q mod ?n) q"
    if "q < ?n" "q \<noteq> h" "cdist ?n h q < cdist ?n h ?t" for q
    using less.prems(3) [OF that(1,2)] that(3) nxt by simp
  show ?case
  proof (cases "m ! ?t = TAG_NULL \<or> cdist ?n (m ! ?t mod ?n) h < cdist ?n (m ! ?t mod ?n) ?t")
    case True
    then show ?thesis using t seen nxt less.prems(2) step by (intro exI [of _ ?t]) auto
  next
    case False
    then have fwd: "find_displaced m msk h s = find_displaced m msk h ?t" by (simp add: step)
    have "?t \<noteq> e" using False assms(3) by auto
    then have lt: "cdist ?n h ?t < cdist ?n h e"
      using cdist_inj [OF assms(4) t(1) assms(2)] nxt less.prems(2) by simp
    have dec: "?n - cdist ?n h ?t < ?n - cdist ?n h s" using nxt less.prems(2) cdist_less [OF assms(4,2)] by simp
    have "m ! q \<noteq> TAG_NULL \<and> \<not> cdist ?n (m ! q mod ?n) h < cdist ?n (m ! q mod ?n) q"
      if "q < ?n" "q \<noteq> h" "cdist ?n h q \<le> cdist ?n h ?t" for q
      using seen [OF that(1,2)] that(3) False cdist_inj [OF assms(4) that(1) t(1)] by (cases "q = ?t") auto
    from less.hyps [OF dec t(1) lt this] show ?thesis unfolding fwd .
  qed
qed

text \<open>At an empty slot the hole crosses no way any more; a tag that crosses it moves, and the hole with it.\<close>

lemma chained_close:
  assumes "chained {h} m" "h < length m" "m ! h = TAG_NULL" "p < length m" "p \<noteq> h" "m ! p = TAG_NULL"
    and "\<And>q. q < length m \<Longrightarrow> q \<noteq> h \<Longrightarrow> cdist (length m) h q < cdist (length m) h p \<Longrightarrow>
      \<not> cdist (length m) (m ! q mod length m) h < cdist (length m) (m ! q mod length m) q"
  shows "chained {} m"
proof (rule chainedI)
  fix r q
  let ?n = "length m" and ?x = "m ! r mod length m"
  assume r: "r < ?n" "m ! r \<noteq> TAG_NULL" and q: "q < ?n" and lt: "cdist ?n ?x q < cdist ?n ?x r"
  have "q \<noteq> h"
  proof
    assume "q = h"
    have x: "?x < ?n" using q by (intro mod_less_divisor) linarith
    have "r \<noteq> h" "r \<noteq> p" using r(2) assms(3,6) by auto
    then have "cdist ?n h p < cdist ?n h r"
      using assms(7) [OF r(1)] lt \<open>q = h\<close> cdist_inj [OF assms(2,4) r(1)] by (metis linorder_neqE_nat)
    with lt \<open>q = h\<close> have "cdist ?n ?x p < cdist ?n ?x r" by (auto intro: cdist_between [OF x assms(2) r(1) assms(4)])
    then show False using chainedD [OF assms(1) r assms(4)] assms(5,6) by simp
  qed
  then show "m ! q \<noteq> TAG_NULL \<or> q \<in> {}" using chainedD [OF assms(1) r q lt] by simp
qed

lemma chained_move:
  assumes "chained {h} m" "h < length m" "p < length m" "p \<noteq> h" "m ! p \<noteq> TAG_NULL"
    and "cdist (length m) (m ! p mod length m) h < cdist (length m) (m ! p mod length m) p"
  shows "chained {p} (m[h := m ! p, p := TAG_NULL])"
proof (rule chainedI)
  fix r q
  let ?m = "m[h := m ! p, p := TAG_NULL]" and ?n = "length m"
  assume "r < length ?m" "?m ! r \<noteq> TAG_NULL" "q < length ?m"
    and "cdist (length ?m) (?m ! r mod length ?m) q < cdist (length ?m) (?m ! r mod length ?m) r"
  then have r: "r < ?n" "r \<noteq> p" "?m ! r \<noteq> TAG_NULL" and q: "q < ?n"
    and lt: "cdist ?n (?m ! r mod ?n) q < cdist ?n (?m ! r mod ?n) r" using assms(3) by (auto simp: nth_list_update)
  consider "q = p" | "q = h" | "q \<noteq> p" "q \<noteq> h" "r = h" | "q \<noteq> p" "q \<noteq> h" "r \<noteq> h" by blast
  then show "?m ! q \<noteq> TAG_NULL \<or> q \<in> {p}"
  proof cases
    case 2
    then show ?thesis using assms(2,4,5) by simp
  next
    case 3
    then have "cdist ?n (m ! p mod ?n) q < cdist ?n (m ! p mod ?n) p" using lt assms(2,4,6) r(1) by simp
    then show ?thesis using chainedD [OF assms(1,3,5) q] 3 by simp
  next
    case 4
    then have "?m ! r = m ! r" using r(2) by simp
    then show ?thesis using chainedD [OF assms(1) r(1) _ q] 4 r(3) lt by simp
  qed simp
qed

lemma remove_loop_spec:
  assumes "table m msk" "h < length m" "e < length m" "e \<noteq> h" "m ! e = TAG_NULL" "chained {h} (m[h := TAG_NULL])"
  shows "\<exists>m'. remove_loop m msk h = Some m' \<and> chained {} m' \<and> mset m' = mset (m[h := TAG_NULL])"
  using assms
proof (induction "cdist (length m) h e" arbitrary: m h rule: less_induct)
  case less
  let ?m = "m[h := TAG_NULL]" and ?n = "length m"
  have pos: "cdist ?n h h < cdist ?n h e" using less.prems(2-4) cdist_eq_0 [of h ?n e] by (auto intro: gr0I)
  have pre: "table ?m msk" "e < length ?m" "?m ! e = TAG_NULL" "h < length ?m" using less.prems by simp_all
  obtain p where p: "p < ?n" "p \<noteq> h" "cdist ?n h p \<le> cdist ?n h e"
    and seen: "\<And>q. q < ?n \<Longrightarrow> q \<noteq> h \<Longrightarrow> cdist ?n h q < cdist ?n h p \<Longrightarrow> \<not> cdist ?n (?m ! q mod ?n) h < cdist ?n (?m ! q mod ?n) q"
    and res: "?m ! p = TAG_NULL \<and> find_displaced ?m msk h h = Some None \<or>
     ?m ! p \<noteq> TAG_NULL \<and> cdist ?n (?m ! p mod ?n) h < cdist ?n (?m ! p mod ?n) p \<and> find_displaced ?m msk h h = Some (Some (p, ?m ! p))"
    using find_displaced_spec [OF pre pre(4)] pos cdist_eq_0 [OF less.prems(2)] by fastforce
  from res show ?case
  proof (elim disjE conjE)
    assume r: "?m ! p = TAG_NULL" "find_displaced ?m msk h h = Some None"
    have "chained {} ?m" using chained_close [OF less.prems(6)] p r(1) seen less.prems(2) by simp
    then show ?thesis using r(2) less.prems(2) by (subst remove_loop.simps) (simp add: vec_set_def)
  next
    assume r: "?m ! p \<noteq> TAG_NULL" "cdist ?n (?m ! p mod ?n) h < cdist ?n (?m ! p mod ?n) p"
      "find_displaced ?m msk h h = Some (Some (p, ?m ! p))"
    let ?m2 = "?m[h := ?m ! p]"
    have step: "remove_loop m msk h = remove_loop ?m2 msk p"
      using r(3) less.prems(2) by (subst remove_loop.simps) (simp add: vec_set_def)
    have "p \<noteq> e" using r(1) pre(3) by auto
    then have lt: "cdist ?n h p < cdist ?n h e" using p cdist_inj [OF less.prems(2) p(1) less.prems(3)] by simp
    have "cdist ?n p e < cdist ?n h e"
      using cdist_shift [OF less.prems(2) p(1) less.prems(3) lt] lt p cdist_eq_0 [OF less.prems(2) p(1)] by linarith
    then have dec: "cdist (length ?m2) p e < cdist ?n h e" by simp
    have ch: "chained {p} (?m2[p := TAG_NULL])"
      using chained_move [OF less.prems(6), of p] p r(1,2) less.prems(2) by simp
    have "mset (?m2[p := TAG_NULL]) = mset ?m"
      using mset_swap [of p ?m h] less.prems(2) p(1,2) by simp
    then show ?thesis using less.hyps [OF dec _ _ _ _ _ ch] less.prems p \<open>p \<noteq> e\<close> by (simp add: step)
  qed
qed

subsection \<open>The cache and its window\<close>

text \<open>
  \<open>cache_rel d c ws\<close>: \<open>ws\<close> is the window of the last tags, oldest first. The ring read from its oldest
  entry is the window after the entries not used yet; the table holds the tags of the window, chained.
\<close>

definition stored :: "u64 list \<Rightarrow> u64 multiset" where
  "stored m = filter_mset (\<lambda>t. t \<noteq> TAG_NULL) (mset m)"

definition cache_rel :: "nat \<Rightarrow> TagCache \<Rightarrow> u64 list \<Rightarrow> bool" where
  "cache_rel d c ws \<longleftrightarrow>
     table (tag_map c) (map_mask c) \<and> d + 2 \<le> length (tag_map c) \<and> chained {} (tag_map c) \<and>
     stored (tag_map c) = mset ws \<and> distinct ws \<and> TAG_NULL \<notin> set ws \<and> length ws \<le> d \<and>
     cache_depth c = d \<and> length (ring c) = d \<and> oldest c < d \<and> (length ws < d \<longrightarrow> oldest c = length ws) \<and>
     drop (oldest c) (ring c) @ take (oldest c) (ring c) = replicate (d - length ws) TAG_NULL @ ws"

lemma stored_mem: "t \<noteq> TAG_NULL \<Longrightarrow> t \<in> set m \<longleftrightarrow> t \<in># stored m"
  by (simp add: stored_def)

lemma stored_set:
  assumes "p < length m"
  shows "t \<noteq> TAG_NULL \<Longrightarrow> m ! p = TAG_NULL \<Longrightarrow> stored (m[p := t]) = add_mset t (stored m)"
    and "m ! p \<noteq> TAG_NULL \<Longrightarrow> stored (m[p := TAG_NULL]) = stored m - {#m ! p#}"
  using assms by (simp_all add: stored_def mset_update)

text \<open>A table with fewer tags than slots has an empty slot.\<close>

lemma empty_slot:
  assumes "size (stored m) < length m"
  shows "\<exists>e < length m. m ! e = TAG_NULL"
proof (rule ccontr)
  assume "\<not> ?thesis"
  then have "\<forall>t \<in># mset m. t \<noteq> TAG_NULL" by (auto simp: in_set_conv_nth)
  then have "stored m = mset m" by (simp add: stored_def filter_True flip: mset_filter)
  with assms show False by simp
qed

lemma chained_hole: "chained {} m \<Longrightarrow> p < length m \<Longrightarrow> chained {p} (m[p := TAG_NULL])"
  by (rule chainedI) (metis chainedD empty_iff insert_iff length_list_update nth_list_update_eq nth_list_update_neq)

text \<open>Removing a stored tag from a table with an empty slot.\<close>

lemma tag_remove_spec:
  assumes "table (tag_map c) (map_mask c)" "size (stored (tag_map c)) < length (tag_map c)" "chained {} (tag_map c)"
    and "t \<noteq> TAG_NULL" "t \<in># stored (tag_map c)"
  shows "\<exists>m. tag_remove c t = Some (c\<lparr>tag_map := m\<rparr>) \<and> chained {} m \<and> stored m = stored (tag_map c) - {#t#} \<and>
    length m = length (tag_map c)"
proof -
  let ?m = "tag_map c"
  obtain e where e: "e < length ?m" "?m ! e = TAG_NULL" using empty_slot [OF assms(2)] by blast
  obtain p where p: "p < length ?m" "probe_loop ?m (map_mask c) t (t AND map_mask c) = Some (?m ! p = t, p)"
    using probe_spec [OF assms(1) e] by blast
  have hit: "?m ! p = t"
    using probe_found_iff [OF assms(1) e assms(3,4) p(2)] assms(5) stored_mem [OF assms(4), of ?m] by simp
  have "e \<noteq> p" using e hit assms(4) by auto
  then obtain m where m: "remove_loop ?m (map_mask c) p = Some m" "chained {} m" "mset m = mset (?m[p := TAG_NULL])"
    using remove_loop_spec [OF assms(1) p(1) e(1) _ e(2)] chained_hole [OF assms(3) p(1)] by blast
  have "stored m = stored ?m - {#t#}" using stored_set(2) [OF p(1)] hit assms(4) m(3) by (simp add: stored_def)
  moreover have "length m = length ?m" using m(3) by (metis length_list_update size_mset)
  ultimately show ?thesis using m p hit by (intro exI [of _ m]) (simp add: tag_remove_def probe_def)
qed

text \<open>Writing at the oldest entry and moving on drops the first of the ring and appends the tag.\<close>

lemma ring_step:
  assumes "k < length r" "k' = (if k + 1 \<ge> length r then 0 else k + 1)"
  shows "drop k' (r[k := t]) @ take k' (r[k := t]) = tl (drop k r @ take k r) @ [t]"
proof -
  have "r[k := t] = take k r @ t # drop (Suc k) r" using assms(1) by (rule upd_conv_take_nth_drop)
  moreover have "tl (drop k r @ take k r) = drop (Suc k) r @ take k r"
    using assms(1) by (simp add: Cons_nth_drop_Suc [symmetric])
  ultimately show ?thesis using assms by auto
qed

definition window_insert :: "nat \<Rightarrow> u64 list \<Rightarrow> u64 \<Rightarrow> u64 list \<times> bool" where
  "window_insert d ws t =
     (if t \<in> set ws then (ws, True) else ((if length ws < d then ws else tl ws) @ [t], False))"

lemma cache_table:
  assumes "cache_rel d c ws"
  shows "table (tag_map c) (map_mask c)" "chained {} (tag_map c)" "stored (tag_map c) = mset ws" "length ws \<le> d"
    "d + 2 \<le> length (tag_map c)" "\<exists>e < length (tag_map c). tag_map c ! e = TAG_NULL"
proof -
  have "size (stored (tag_map c)) < length (tag_map c)" using assms by (simp add: cache_rel_def)
  then show "\<exists>e < length (tag_map c). tag_map c ! e = TAG_NULL" by (rule empty_slot)
qed (use assms in \<open>simp_all add: cache_rel_def\<close>)

lemma cache_ring:
  assumes "cache_rel d c ws"
  shows "cache_depth c = d" "length (ring c) = d" "oldest c < d" "length ws < d \<Longrightarrow> oldest c = length ws"
    "drop (oldest c) (ring c) @ take (oldest c) (ring c) = replicate (d - length ws) TAG_NULL @ ws"
    "distinct ws" "TAG_NULL \<notin> set ws"
  using assms by (simp_all add: cache_rel_def)

lemma ring_head:
  assumes "cache_rel d c ws"
  shows "ring c ! oldest c = (if length ws < d then TAG_NULL else hd ws)"
proof -
  have "ring c ! oldest c = hd (drop (oldest c) (ring c) @ take (oldest c) (ring c))"
    using cache_ring(2,3) [OF assms] by (simp add: hd_append hd_drop_conv_nth)
  also have "\<dots> = hd (replicate (d - length ws) TAG_NULL @ ws)" by (simp only: cache_ring(5) [OF assms])
  finally have "ring c ! oldest c = hd (replicate (d - length ws) TAG_NULL @ ws)" .
  then show ?thesis by (cases "length ws < d") (simp_all add: hd_append)
qed

text \<open>A probe of a related cache tells whether the tag is in the window.\<close>

lemma cache_probe:
  assumes "cache_rel d c ws" "t \<noteq> TAG_NULL"
  shows "\<exists>p < length (tag_map c). probe c t = Some (t \<in> set ws, p) \<and> (t \<notin> set ws \<longrightarrow> tag_map c ! p = TAG_NULL \<and>
    (\<forall>q < length (tag_map c). cdist (length (tag_map c)) (t mod length (tag_map c)) q < cdist (length (tag_map c)) (t mod length (tag_map c)) p \<longrightarrow>
      tag_map c ! q \<noteq> t \<and> tag_map c ! q \<noteq> TAG_NULL))"
proof -
  note tb = cache_table [OF assms(1)]
  obtain e where e: "e < length (tag_map c)" "tag_map c ! e = TAG_NULL" using tb(6) by blast
  from probe_spec [OF tb(1) e] obtain p where p: "p < length (tag_map c)"
    "probe_loop (tag_map c) (map_mask c) t (t AND map_mask c) = Some (tag_map c ! p = t, p)"
    "tag_map c ! p = t \<or> tag_map c ! p = TAG_NULL"
    "\<forall>q < length (tag_map c). cdist (length (tag_map c)) (t mod length (tag_map c)) q < cdist (length (tag_map c)) (t mod length (tag_map c)) p \<longrightarrow>
      tag_map c ! q \<noteq> t \<and> tag_map c ! q \<noteq> TAG_NULL" by blast
  have "tag_map c ! p = t \<longleftrightarrow> t \<in> set ws"
    using probe_found_iff [OF tb(1) e tb(2) assms(2) p(2)] stored_mem [OF assms(2), of "tag_map c"] tb(3) by simp
  then show ?thesis using p by (auto simp: probe_def intro: exI [of _ p])
qed

lemma tag_contains_rel: "cache_rel d c ws \<Longrightarrow> t \<noteq> TAG_NULL \<Longrightarrow> tag_contains c t = Some (t \<in> set ws)"
  using cache_probe [of d c ws t] by (auto simp: tag_contains_def)

text \<open>The part of an insertion before the eviction, and the eviction.\<close>

lemma ring_insert:
  assumes "cache_rel d c ws" "k' = (if oldest c + 1 \<ge> d then 0 else oldest c + 1)" "ws' = fst (window_insert d ws t)" "t \<notin> set ws"
  shows "drop k' ((ring c)[oldest c := t]) @ take k' ((ring c)[oldest c := t]) = replicate (d - length ws') TAG_NULL @ ws'"
    and "length ws' \<le> d" and "length ws' < d \<Longrightarrow> k' = length ws'" and "k' < d"
proof -
  note rg = cache_ring [OF assms(1)]
  have "drop k' ((ring c)[oldest c := t]) @ take k' ((ring c)[oldest c := t]) =
      tl (drop (oldest c) (ring c) @ take (oldest c) (ring c)) @ [t]"
    by (rule ring_step) (use rg(2,3) assms(2) in simp_all)
  also have "\<dots> = tl (replicate (d - length ws) TAG_NULL @ ws) @ [t]" by (simp only: rg(5))
  also have "\<dots> = replicate (d - length ws') TAG_NULL @ ws'"
  proof (cases "length ws < d")
    case True
    then obtain j where "d - length ws = Suc j" by (metis Suc_diff_Suc)
    then show ?thesis using True assms(3,4) by (simp add: window_insert_def)
  next
    case False
    then show ?thesis using assms(3,4) rg(3) cache_table(4) [OF assms(1)] by (cases ws) (simp_all add: window_insert_def)
  qed
  finally show "drop k' ((ring c)[oldest c := t]) @ take k' ((ring c)[oldest c := t]) = replicate (d - length ws') TAG_NULL @ ws'" .
  show "length ws' \<le> d" "length ws' < d \<Longrightarrow> k' = length ws'" "k' < d"
    using assms(2-4) rg(3,4) cache_table(4) [OF assms(1)] by (auto simp: window_insert_def)
qed

lemma insert_placed:
  assumes "cache_rel d c ws" "t \<noteq> TAG_NULL" "t \<notin> set ws" "k' = (if oldest c + 1 \<ge> d then 0 else oldest c + 1)"
  obtains m c1 where "c1 = c\<lparr>tag_map := m, ring := (ring c)[oldest c := t], oldest := k'\<rparr>"
    "table m (map_mask c)" "length m = length (tag_map c)" "chained {} m" "stored m = add_mset t (mset ws)"
    "tag_insert c t = do {
       c2 \<leftarrow> (if ring c ! oldest c \<noteq> TAG_NULL then tag_remove c1 (ring c ! oldest c) else Some c1);
       Some (c2, False) }"
proof -
  note tb = cache_table [OF assms(1)] and rg = cache_ring [OF assms(1)]
  obtain p where p: "p < length (tag_map c)" "probe c t = Some (False, p)" "tag_map c ! p = TAG_NULL"
    and free: "\<forall>q < length (tag_map c). cdist (length (tag_map c)) (t mod length (tag_map c)) q < cdist (length (tag_map c)) (t mod length (tag_map c)) p \<longrightarrow>
      tag_map c ! q \<noteq> t \<and> tag_map c ! q \<noteq> TAG_NULL"
    using cache_probe [OF assms(1,2)] assms(3) by auto
  let ?m = "(tag_map c)[p := t]"
  have m: "table ?m (map_mask c)" "length ?m = length (tag_map c)" "chained {} ?m" "stored ?m = add_mset t (mset ws)"
    using tb(1,3) chained_insert [OF tb(2) p(1,3) assms(2) free] stored_set(1) [OF p(1) assms(2) p(3)] by simp_all
  show thesis
    by (rule that [OF refl m]) (use p rg(1-3) in \<open>simp add: tag_insert_def vec_get_def vec_set_def Let_def assms(4)\<close>)
qed

lemma tag_insert_rel:
  assumes "cache_rel d c ws" "t \<noteq> TAG_NULL"
  shows "\<exists>c'. tag_insert c t = Some (c', snd (window_insert d ws t)) \<and> cache_rel d c' (fst (window_insert d ws t))"
proof (cases "t \<in> set ws")
  case True
  then show ?thesis using cache_probe [OF assms] assms(1) by (auto simp: tag_insert_def window_insert_def)
next
  case new: False
  note tb = cache_table [OF assms(1)] and rg = cache_ring [OF assms(1)]
  define k' where "k' = (if oldest c + 1 \<ge> d then 0 else oldest c + 1)"
  obtain m c1 where c1: "c1 = c\<lparr>tag_map := m, ring := (ring c)[oldest c := t], oldest := k'\<rparr>"
    and m: "table m (map_mask c)" "length m = length (tag_map c)" "chained {} m" "stored m = add_mset t (mset ws)"
    and ins: "tag_insert c t = do {
       c2 \<leftarrow> (if ring c ! oldest c \<noteq> TAG_NULL then tag_remove c1 (ring c ! oldest c) else Some c1);
       Some (c2, False) }"
    by (rule insert_placed [OF assms new k'_def])
  note ri = ring_insert [OF assms(1) k'_def refl new]
  show ?thesis
  proof (cases "length ws < d")
    case True
    then have "tag_insert c t = Some (c1, False)" using ins ring_head [OF assms(1)] by simp
    moreover have "cache_rel d c1 (ws @ [t])"
      using True new m ri rg tb(5) assms(2) by (simp add: cache_rel_def c1 window_insert_def)
    ultimately show ?thesis using True new by (simp add: window_insert_def)
  next
    case False
    then obtain w vs where ws: "ws = w # vs" using rg(3) by (cases ws) auto
    then have w: "w \<noteq> TAG_NULL" "ring c ! oldest c = w" using rg(7) ring_head [OF assms(1)] False by auto
    have "size (stored (tag_map c1)) < length (tag_map c1)" using m tb(4,5) by (simp add: c1)
    then obtain m' where m': "tag_remove c1 w = Some (c1\<lparr>tag_map := m'\<rparr>)" "chained {} m'" "stored m' = stored m - {#w#}"
      "length m' = length m"
      using tag_remove_spec [of c1 w] m w(1) ws by (auto simp: c1)
    have "tag_insert c t = Some (c1\<lparr>tag_map := m'\<rparr>, False)" using ins w m'(1) by simp
    moreover have "cache_rel d (c1\<lparr>tag_map := m'\<rparr>) (vs @ [t])"
      using False new m m' ri rg tb(5) assms(2) ws by (simp add: cache_rel_def c1 window_insert_def table_def)
    ultimately show ?thesis using False new ws by (simp add: window_insert_def)
  qed
qed

subsection \<open>Creation and reset\<close>

lemma is_power_of_two_exp: "is_power_of_two (2 ^ k)"
  using and_mask_mod [of "2 ^ k" k] by (simp add: is_power_of_two_def)

lemma is_power_of_twoD: "is_power_of_two n \<Longrightarrow> \<exists>k. n = 2 ^ k"
proof (induction n rule: less_induct)
  case (less n)
  have n: "0 < n" "n AND (n - 1) = 0" using less.prems by (auto simp: is_power_of_two_def)
  show ?case
  proof (cases "even n")
    case True
    then obtain m where m: "n = 2 * m" "0 < m" using n(1) by auto
    have half: "(n - 1) div 2 = m - 1" "n div 2 = m" using m by arith+
    have "2 * ((n div 2) AND ((n - 1) div 2)) \<le> n AND (n - 1)" by (subst and_rec [of n]) simp
    then have "m AND (m - 1) = 0" using n(2) unfolding half by simp
    then obtain k where "m = 2 ^ k" using less.IH [of m] m by (auto simp: is_power_of_two_def)
    then show ?thesis using m by (intro exI [of _ "Suc k"]) simp
  next
    case False
    then obtain m where m: "n = 2 * m + 1" by (elim oddE)
    have "n AND (n - 1) = 2 * m" using m by (subst and_rec) simp
    then show ?thesis using n m by (intro exI [of _ 0]) simp
  qed
qed

lemma cache_rel_empty:
  assumes "0 < d" "d + 2 \<le> n" "n = 2 ^ k"
  shows "cache_rel d \<lparr>ring = replicate d TAG_NULL, tag_map = replicate n TAG_NULL, cache_depth = d, map_mask = n - 1, oldest = 0\<rparr> []"
proof -
  have "chained {} (replicate n TAG_NULL)" by (rule chainedI) simp
  moreover have "stored (replicate n TAG_NULL) = {#}" by (simp add: stored_def)
  ultimately show ?thesis using assms by (auto simp: cache_rel_def table_def)
qed

lemma with_map_cnt_rel:
  assumes "with_map_cnt d n = Some c"
  shows "cache_rel d c []"
proof -
  have "8 * d < 2 ^ 63" using assms by (auto simp: with_map_cnt_def vec_null_def split: if_splits)
  then have "add64 d 2 = d + 2" by (intro add64_exact) simp
  moreover have "0 < d" "is_power_of_two n" "add64 d 2 \<le> n"
    using assms by (auto simp: with_map_cnt_def split: if_splits)
  ultimately have "0 < d" "d + 2 \<le> n" "\<exists>k. n = 2 ^ k" using is_power_of_twoD by auto
  moreover have "c = \<lparr>ring = replicate d TAG_NULL, tag_map = replicate n TAG_NULL, cache_depth = d, map_mask = n - 1, oldest = 0\<rparr>"
    using assms by (auto simp: with_map_cnt_def vec_null_def split: if_splits)
  ultimately show ?thesis using cache_rel_empty by blast
qed

text \<open>The default table is large enough, so that creation succeeds for every depth that fits in memory.\<close>

lemma map_cnt_lg:
  assumes "0 < l" "l \<le> 58"
  shows "((63 + 2 ^ 32 - (64 - l)) mod 2 ^ 32 + SPARSE_DEFAULT) mod 2 ^ 32 mod 64 = l + 1"
proof -
  have "63 + 2 ^ 32 - (64 - l) = 2 ^ 32 + (l - 1)" using assms by simp
  moreover have "(2 ^ 32 + (l - 1)) mod 2 ^ 32 = l - 1"
    unfolding mod_add_self1 by (rule mod_less) (use assms in simp)
  ultimately show ?thesis using assms by (simp add: SPARSE_DEFAULT_def)
qed

lemma map_cnt_default_exp:
  assumes "0 < d" "d + 1 < 2 ^ 58"
  shows "map_cnt_default d = 2 ^ (floorlog 2 (d + 1) + 1)" and "floorlog 2 (d + 1) \<le> 58" and "d + 2 \<le> 2 ^ floorlog 2 (d + 1)"
proof -
  define l where "l = floorlog 2 (d + 1)"
  have b: "2 ^ (l - 1) \<le> d + 1" "d + 1 < 2 ^ l" using floorlog_bounds [of "d + 1" 2] by (auto simp: l_def)
  have "2 ^ (l - 1) < (2::nat) ^ 58" using b(1) assms(2) by (rule le_less_trans)
  then have "l - 1 < 58" by (rule power_less_imp_less_exp [rotated]) simp
  then have lg: "l \<le> 58" by simp
  have pos: "0 < l" using b(2) assms(1) by (cases l) auto
  have "d + 1 < 2 ^ 64" by (rule less_trans [OF assms(2)]) simp
  then have "add64 d 1 = d + 1" by (rule add64_exact)
  then have "map_cnt_default d = 2 ^ (((63 + 2 ^ 32 - (64 - l)) mod 2 ^ 32 + SPARSE_DEFAULT) mod 2 ^ 32 mod 64)"
    using assms(1) by (simp only: map_cnt_default_def leading_zeros_def l_def Let_def) simp
  then show "map_cnt_default d = 2 ^ (floorlog 2 (d + 1) + 1)" by (simp only: map_cnt_lg [OF pos lg] l_def [symmetric])
  show "floorlog 2 (d + 1) \<le> 58" "d + 2 \<le> 2 ^ floorlog 2 (d + 1)" using lg b(2) by (simp_all add: l_def)
qed

lemma tag_cache_new_total:
  assumes "0 < d" "d + 1 < 2 ^ 58"
  shows "\<exists>c. tag_cache_new d = Some c"
proof -
  note mc = map_cnt_default_exp [OF assms]
  have "(2::nat) ^ (floorlog 2 (d + 1) + 1) \<le> 2 ^ 59" using mc(2) by (intro power_increasing) auto
  moreover have "add64 d 2 = d + 2" using assms(2) by (intro add64_exact) simp
  moreover have "d + 2 \<le> 2 ^ (floorlog 2 (d + 1) + 1)" using mc(3) by simp
  ultimately show ?thesis using assms is_power_of_two_exp [of "floorlog 2 (d + 1) + 1"]
    by (simp add: tag_cache_new_def with_map_cnt_def mc(1) vec_null_def)
qed

lemma tag_reset_rel:
  assumes "cache_rel d c ws"
  shows "cache_rel d (tag_reset c) []"
proof -
  obtain k where k: "length (tag_map c) = 2 ^ k" "map_mask c = length (tag_map c) - 1"
    using cache_table(1) [OF assms] by (auto simp: table_def)
  have "0 < d" using cache_ring(3) [OF assms] by simp
  from cache_rel_empty [OF this cache_table(5) [OF assms] k(1)] show ?thesis
    using cache_ring(1,2) [OF assms] k(2) by (simp add: tag_reset_def cache_rel_def)
qed

lemma tag_len_rel: "cache_rel d c ws \<Longrightarrow> tag_len c = length ws"
proof -
  assume r: "cache_rel d c ws"
  have "tag_len c = length (filter (\<lambda>t. t \<noteq> TAG_NULL) (drop (oldest c) (ring c) @ take (oldest c) (ring c)))"
    unfolding tag_len_def by (subst append_take_drop_id [of "oldest c" "ring c", symmetric]) (simp del: append_take_drop_id)
  also have "\<dots> = length (filter (\<lambda>t. t \<noteq> TAG_NULL) ws)" by (simp only: cache_ring(5) [OF r]) simp
  also have "filter (\<lambda>t. t \<noteq> TAG_NULL) ws = ws" using cache_ring(7) [OF r] by (auto simp: filter_id_conv)
  finally show ?thesis .
qed

lemma tag_is_empty_rel:
  assumes "cache_rel d c ws"
  shows "tag_is_empty c = Some (ws = [])"
proof -
  note rg = cache_ring [OF assms]
  have "ring c ! 0 = TAG_NULL \<and> oldest c = 0 \<longleftrightarrow> ws = []"
  proof
    assume a: "ring c ! 0 = TAG_NULL \<and> oldest c = 0"
    then have "length ws < d" using ring_head [OF assms] rg(3,7) by (cases ws) (auto split: if_splits)
    then show "ws = []" using a rg(4) by simp
  next
    assume "ws = []"
    then show "ring c ! 0 = TAG_NULL \<and> oldest c = 0" using rg(3,4) ring_head [OF assms] by simp
  qed
  then show ?thesis using rg(2,3) by (simp add: tag_is_empty_def vec_get_def)
qed

subsection \<open>Refinement\<close>

text \<open>
  The operations of a cache with their answers, and the specification: a window of at most \<open>d\<close> distinct
  tags in the order of their insertion, from which a new tag pushes the oldest out.
\<close>

datatype tag_op = Insert u64 | Contains u64 | Reset | Is_Empty

fun tag_step :: "TagCache \<Rightarrow> tag_op \<Rightarrow> (TagCache \<times> bool) option" where
  "tag_step c (Insert t) = tag_insert c t"
| "tag_step c (Contains t) = map_option (Pair c) (tag_contains c t)"
| "tag_step c Reset = Some (tag_reset c, True)"
| "tag_step c Is_Empty = map_option (Pair c) (tag_is_empty c)"

fun window_step :: "nat \<Rightarrow> u64 list \<Rightarrow> tag_op \<Rightarrow> u64 list \<times> bool" where
  "window_step d ws (Insert t) = window_insert d ws t"
| "window_step d ws (Contains t) = (ws, t \<in> set ws)"
| "window_step d ws Reset = ([], True)"
| "window_step d ws Is_Empty = (ws, ws = [])"

fun tag_op_ok :: "tag_op \<Rightarrow> bool" where
  "tag_op_ok (Insert t) = (t \<noteq> TAG_NULL)"
| "tag_op_ok (Contains t) = (t \<noteq> TAG_NULL)"
| "tag_op_ok _ = True"

interpretation tag_sim: simulation tag_step "window_step d" "cache_rel d" tag_op_ok for d
proof
  fix c ws op
  assume "cache_rel d c ws" "tag_op_ok op"
  then show "\<exists>c'. tag_step c op = Some (c', snd (window_step d ws op)) \<and> cache_rel d c' (fst (window_step d ws op))"
    by (cases op) (auto simp: tag_insert_rel tag_contains_rel tag_is_empty_rel tag_reset_rel)
qed

text \<open>
  C7. The tag cache refines the window of the last \<open>depth\<close> distinct tags: creation succeeds for every
  depth up to \<open>2 ^ 58 - 2\<close>, and then every sequence of insertions, queries, resets and emptiness tests on
  non-null tags returns (no probe runs for ever, no index is out of range), answers what the window answers,
  and ends with as many tags as the window has.
\<close>
theorem tag_cache_refines_window:
  assumes "0 < d" "d + 1 < 2 ^ 58" "list_all tag_op_ok ops"
  shows "\<exists>c c'. tag_cache_new d = Some c \<and>
    run_steps tag_step c ops = Some (c', snd (run_spec (window_step d) [] ops)) \<and>
    tag_len c' = length (fst (run_spec (window_step d) [] ops))"
proof -
  obtain c where c: "tag_cache_new d = Some c" using tag_cache_new_total [OF assms(1,2)] by blast
  then have "cache_rel d c []" using with_map_cnt_rel by (auto simp: tag_cache_new_def split: if_splits)
  from tag_sim.run_sim [OF this assms(3)] show ?thesis using c tag_len_rel by blast
qed

theorem tag_cache_refines_window_witness:
  "\<exists>c c'. tag_cache_new 3 = Some c \<and>
    run_steps tag_step c [Insert 8, Insert 16, Insert 24, Insert 8, Insert 32, Contains 8, Contains 16] =
      Some (c', [False, False, False, True, False, False, True]) \<and> tag_len c' = 3"
proof -
  let ?ops = "[Insert 8, Insert 16, Insert 24, Insert 8, Insert 32, Contains 8, Contains 16]"
  have "run_spec (window_step 3) [] ?ops = ([16, 24, 32], [False, False, False, True, False, False, True])"
    by (simp add: window_insert_def)
  moreover have "list_all tag_op_ok ?ops" by (simp add: TAG_NULL_def)
  ultimately show ?thesis using tag_cache_refines_window [of 3 ?ops] by (simp add: numeral_3_eq_3 del: run_steps.simps)
qed

text \<open>The same for a cache with a table of the caller's size, which the constructor checks.\<close>

lemma with_map_cnt_refines_window:
  assumes "with_map_cnt d n = Some c" "list_all tag_op_ok ops"
  shows "\<exists>c'. run_steps tag_step c ops = Some (c', snd (run_spec (window_step d) [] ops))"
  using tag_sim.run_sim [OF with_map_cnt_rel [OF assms(1)] assms(2)] by blast

text \<open>What the window remembers: the last \<open>d\<close> of the tags that were new when they came.\<close>

lemma window_insert_last:
  assumes "t \<notin> set ps" "0 < d"
  shows "window_insert d (drop (length ps - d) ps) t = (drop (length (ps @ [t]) - d) (ps @ [t]), False)"
proof -
  have "t \<notin> set (drop (length ps - d) ps)" using assms(1) by (meson in_set_dropD)
  moreover have "tl (drop (length ps - d) ps) = drop (Suc (length ps) - d) ps" if "d \<le> length ps"
    using that by (simp add: tl_drop drop_Suc [symmetric] Suc_diff_le)
  ultimately show ?thesis using assms(2) by (auto simp: window_insert_def)
qed

lemma window_last_from:
  assumes "distinct (ps @ ts)" "0 < d"
  shows "fst (run_spec (window_step d) (drop (length ps - d) ps) (map Insert ts)) = drop (length (ps @ ts) - d) (ps @ ts)"
  using assms(1)
proof (induction ts arbitrary: ps)
  case (Cons t ts)
  have "t \<notin> set ps" using Cons.prems by auto
  then show ?case using Cons.IH [of "ps @ [t]"] Cons.prems window_insert_last [OF _ assms(2), of t ps]
    by (simp add: split_beta Let_def)
qed simp

lemma window_last:
  "distinct ts \<Longrightarrow> 0 < d \<Longrightarrow> fst (run_spec (window_step d) [] (map Insert ts)) = drop (length ts - d) ts"
  using window_last_from [of "[]" ts d] by simp

text \<open>
  Without the debug assertions the null tag counts as present in every cache that has an empty slot, so
  inserting it answers that it is a duplicate and stores nothing.
\<close>

lemma null_tag_is_duplicate:
  assumes "cache_rel d c ws"
  shows "tag_contains c TAG_NULL = Some True" and "tag_insert c TAG_NULL = Some (c, True)"
proof -
  obtain e where e: "e < length (tag_map c)" "tag_map c ! e = TAG_NULL" using cache_table(6) [OF assms] by blast
  obtain p where "probe c TAG_NULL = Some (True, p)"
    using probe_spec [OF cache_table(1) [OF assms] e, of TAG_NULL] by (auto simp: probe_def)
  then show "tag_contains c TAG_NULL = Some True" and "tag_insert c TAG_NULL = Some (c, True)"
    by (simp_all add: tag_contains_def tag_insert_def)
qed

end
