(* ===== verification/Flow_Control.thy ===== *)
theory Flow_Control
  imports Karst_Prelude
begin

section \<open>Credit-based flow control\<close>

text \<open>
  \<open>karstflow-mesh/src/flow_control.rs\<close>: one producer and several reliable receivers. A receiver's
  \<open>seq_fn\<close> reads a counter that another thread moves, so \<open>query_credits\<close> takes the values it reads as an
  argument. The producer and the receivers then run as an interleaving, in which the receivers may move
  between the reads of one query.
\<close>

subsection \<open>Definitions\<close>

definition MAX_RECEIVERS :: nat where
  "MAX_RECEIVERS = 64"

record FlowControlConfig =
  cr_burst :: u64
  cr_max :: u64
  cr_refill :: u64
  cr_resume :: u64

definition from_depth :: "u64 \<Rightarrow> u64 \<Rightarrow> FlowControlConfig" where
  "from_depth depth burst = \<lparr>cr_burst = min burst depth, cr_max = depth, cr_refill = depth div 4, cr_resume = depth div 2\<rparr>"

record Receiver =
  rx_cr_max :: u64
  rx_slow_count :: u64

record FlowControl =
  fl_config :: FlowControlConfig
  receivers :: "Receiver list"
  cr_avail :: u64
  in_refill :: bool
  tx_seq :: u64

definition flow_new :: "FlowControlConfig \<Rightarrow> FlowControl" where
  "flow_new c = \<lparr>fl_config = c, receivers = [], cr_avail = cr_max c, in_refill = False, tx_seq = 0\<rparr>"

definition add_receiver :: "FlowControl \<Rightarrow> u64 \<Rightarrow> FlowControl option" where
  "add_receiver f m =
     (if length (receivers f) < MAX_RECEIVERS
      then Some (f\<lparr>receivers := receivers f @ [\<lparr>rx_cr_max = m, rx_slow_count = 0\<rparr>]\<rparr>)
      else None)"

definition receiver_count :: "FlowControl \<Rightarrow> nat" where
  "receiver_count f = length (receivers f)"

definition has_credits :: "FlowControl \<Rightarrow> bool" where
  "has_credits f = (if in_refill f then cr_avail f \<ge> cr_resume (fl_config f) else cr_avail f > 0)"

definition spend :: "FlowControl \<Rightarrow> u64 \<Rightarrow> FlowControl" where
  "spend f amount = f\<lparr>cr_avail := cr_avail f - amount, tx_seq := add64 (tx_seq f) amount\<rparr>"

definition set_tx_seq :: "FlowControl \<Rightarrow> u64 \<Rightarrow> FlowControl" where
  "set_tx_seq f seq = f\<lparr>tx_seq := seq\<rparr>"

text \<open>The loop over the receivers: the least credit so far, and whose it is.\<close>

fun credit_loop :: "u64 \<Rightarrow> nat \<Rightarrow> (Receiver \<times> u64) list \<Rightarrow> u64 \<times> nat \<Rightarrow> u64 \<times> nat" where
  "credit_loop tx i [] (min_cr, slowest_idx) = (min_cr, slowest_idx)"
| "credit_loop tx i ((rx, rx_seq) # rest) (min_cr, slowest_idx) =
     (let consumed = sub64 tx rx_seq;
          cr = rx_cr_max rx - consumed
      in credit_loop tx (i + 1) rest (if cr < min_cr then (cr, i) else (min_cr, slowest_idx)))"

definition query_credits :: "u64 list \<Rightarrow> FlowControl \<Rightarrow> FlowControl \<times> nat option" where
  "query_credits seqs f =
     (if receivers f = [] then (f\<lparr>cr_avail := cr_max (fl_config f), in_refill := False\<rparr>, None)
      else let (min_cr, slowest_idx) = credit_loop (tx_seq f) 0 (zip (receivers f) seqs) (u64_max, 0);
               avail = min min_cr (cr_max (fl_config f));
               rx = receivers f ! slowest_idx
           in (f\<lparr>cr_avail := avail,
                 receivers := (receivers f)[slowest_idx := rx\<lparr>rx_slow_count := add64 (rx_slow_count rx) 1\<rparr>],
                 in_refill := (if avail \<ge> cr_resume (fl_config f) then False else in_refill f)\<rparr>, Some slowest_idx))"

definition check_credits :: "u64 list \<Rightarrow> FlowControl \<Rightarrow> FlowControl" where
  "check_credits seqs f =
     (if cr_avail f < cr_refill (fl_config f) \<or> in_refill f
      then fst (query_credits seqs (f\<lparr>in_refill := True\<rparr>))
      else f)"

definition slow_count :: "FlowControl \<Rightarrow> nat \<Rightarrow> u64 option" where
  "slow_count f rx_idx = map_option rx_slow_count (vec_get (receivers f) rx_idx)"

subsection \<open>The least credit\<close>

definition credit :: "u64 \<Rightarrow> Receiver \<Rightarrow> u64 \<Rightarrow> u64" where
  "credit tx rx seq = rx_cr_max rx - sub64 tx seq"

lemma credit_loop_min:
  "fst (credit_loop tx i xs (c, s)) \<le> c"
  "\<forall>(rx, seq) \<in> set xs. fst (credit_loop tx i xs (c, s)) \<le> credit tx rx seq"
proof (induction xs arbitrary: i c s)
  case (Cons x xs)
  obtain rx seq where x: "x = (rx, seq)" by (cases x)
  { case 1 show ?case
      using Cons.IH(1) [of "i + 1" "rx_cr_max rx - sub64 tx seq" i] Cons.IH(1) [of "i + 1" c s] by (auto simp: x Let_def) }
  { case 2
    have "fst (credit_loop tx i (x # xs) (c, s)) \<le> credit tx rx seq"
      using Cons.IH(1) [of "i + 1" "rx_cr_max rx - sub64 tx seq" i] Cons.IH(1) [of "i + 1" c s]
      by (auto simp: x Let_def credit_def)
    then show ?case using Cons.IH(2) by (auto simp: x Let_def) }
qed simp_all

lemma credit_loop_attained:
  "fst (credit_loop tx i xs (c, s)) = c \<or> (\<exists>(rx, seq) \<in> set xs. fst (credit_loop tx i xs (c, s)) = credit tx rx seq)"
proof (induction xs arbitrary: i c s)
  case (Cons x xs)
  obtain rx seq where x: "x = (rx, seq)" by (cases x)
  show ?case
    using Cons.IH [of "i + 1" "rx_cr_max rx - sub64 tx seq" i] Cons.IH [of "i + 1" c s] by (auto simp: x Let_def credit_def)
qed simp

lemma credit_loop_index:
  "s < i + length xs \<Longrightarrow> snd (credit_loop tx i xs (c, s)) < i + length xs \<or> xs = []"
proof (induction xs arbitrary: i c s)
  case (Cons x xs)
  obtain rx seq where x: "x = (rx, seq)" by (cases x)
  show ?case
  proof (cases "xs = []")
    case True
    then show ?thesis using Cons.prems by (simp add: x Let_def)
  next
    case False
    then show ?thesis using Cons.IH [of i "i + 1"] Cons.IH [of s "i + 1"] Cons.prems by (auto simp: x Let_def)
  qed
qed simp

text \<open>What a query leaves: no more credit than any receiver grants, and none of the limits changed.\<close>

lemma query_credits_fields [simp]:
  "fl_config (fst (query_credits seqs f)) = fl_config f" "tx_seq (fst (query_credits seqs f)) = tx_seq f"
  by (auto simp: query_credits_def Let_def split: prod.splits)

lemma query_credits_limits [simp]: "map rx_cr_max (receivers (fst (query_credits seqs f))) = map rx_cr_max (receivers f)"
proof -
  have "rx_cr_max (xs[k := (xs ! k)\<lparr>rx_slow_count := v\<rparr>] ! i) = rx_cr_max (xs ! i)" if "i < length xs" for xs k v i
    using that by (cases "i = k") simp_all
  then have "map rx_cr_max (xs[k := (xs ! k)\<lparr>rx_slow_count := v\<rparr>]) = map rx_cr_max xs" for xs :: "Receiver list" and k v
    by (intro nth_equalityI) simp_all
  then show ?thesis by (auto simp: query_credits_def Let_def split: prod.splits)
qed

lemma query_credits_avail:
  assumes "length seqs = length (receivers f)"
  shows "cr_avail (fst (query_credits seqs f)) \<le> cr_max (fl_config f)"
    and "i < length seqs \<Longrightarrow> cr_avail (fst (query_credits seqs f)) \<le> credit (tx_seq f) (receivers f ! i) (seqs ! i)"
proof -
  show "cr_avail (fst (query_credits seqs f)) \<le> cr_max (fl_config f)"
    by (auto simp: query_credits_def Let_def split: prod.splits)
  assume i: "i < length seqs"
  then have "(receivers f ! i, seqs ! i) \<in> set (zip (receivers f) seqs)" using assms by (auto simp: set_zip)
  then have "fst (credit_loop (tx_seq f) 0 (zip (receivers f) seqs) (u64_max, 0)) \<le> credit (tx_seq f) (receivers f ! i) (seqs ! i)"
    using credit_loop_min(2) [of "zip (receivers f) seqs" "tx_seq f" 0 u64_max 0] by auto
  then show "cr_avail (fst (query_credits seqs f)) \<le> credit (tx_seq f) (receivers f ! i) (seqs ! i)"
    using i assms by (auto simp: query_credits_def Let_def split: prod.splits)
qed

lemma query_credits_index:
  assumes "length seqs = length (receivers f)" "receivers f \<noteq> []"
  shows "\<exists>k < length (receivers f). snd (query_credits seqs f) = Some k"
proof -
  have "snd (credit_loop (tx_seq f) 0 (zip (receivers f) seqs) (u64_max, 0)) < length (receivers f)"
    using credit_loop_index [of 0 0 "zip (receivers f) seqs" "tx_seq f" u64_max] assms by (cases "receivers f"; cases seqs) auto
  then show ?thesis using assms by (auto simp: query_credits_def Let_def split: prod.splits)
qed

subsection \<open>The producer and its receivers\<close>

text \<open>
  A state is the controller and the receivers' counters. How far a receiver is behind is the wrapped
  difference, so the counters may pass the top of the range; a receiver moves towards the producer and never past it.
\<close>

definition lag :: "FlowControl \<Rightarrow> u64 \<Rightarrow> u64" where
  "lag f seq = sub64 (tx_seq f) seq"

definition advances :: "FlowControl \<Rightarrow> u64 list \<Rightarrow> u64 list \<Rightarrow> bool" where
  "advances f seqs seqs' \<longleftrightarrow> list_all2 (\<lambda>a b. lag f b \<le> lag f a \<and> b \<le> u64_max) seqs seqs'"

text \<open>
  The producer spends credit it has; the receivers move; a check reads each counter at some moment, so that
  the receivers move before and after their own read.
\<close>

inductive flow_step :: "FlowControl \<times> u64 list \<Rightarrow> FlowControl \<times> u64 list \<Rightarrow> bool" where
  publish: "has_credits f \<Longrightarrow> n \<le> cr_avail f \<Longrightarrow> flow_step (f, seqs) (spend f n, seqs)"
| receive: "advances f seqs seqs' \<Longrightarrow> flow_step (f, seqs) (f, seqs')"
| check: "advances f seqs reads \<Longrightarrow> advances f reads seqs' \<Longrightarrow> flow_step (f, seqs) (check_credits reads f, seqs')"

text \<open>The credit in hand fits into what every receiver can still take; the limits \<open>ms\<close> do not change.\<close>

definition flow_inv :: "u64 list \<Rightarrow> FlowControl \<times> u64 list \<Rightarrow> bool" where
  "flow_inv ms = (\<lambda>(f, seqs).
     map rx_cr_max (receivers f) = ms \<and> length seqs = length ms \<and> tx_seq f \<le> u64_max \<and>
     (\<forall>i < length ms. seqs ! i \<le> u64_max \<and> ms ! i \<le> u64_max \<and> lag f (seqs ! i) + cr_avail f \<le> ms ! i))"

lemma flow_invD:
  assumes "flow_inv ms (f, seqs)"
  shows "map rx_cr_max (receivers f) = ms" "length seqs = length ms" "tx_seq f \<le> u64_max"
    "i < length ms \<Longrightarrow> seqs ! i \<le> u64_max" "i < length ms \<Longrightarrow> ms ! i \<le> u64_max"
    "i < length ms \<Longrightarrow> lag f (seqs ! i) + cr_avail f \<le> ms ! i"
  using assms by (auto simp: flow_inv_def)

lemma flow_inv_receivers:
  assumes "flow_inv ms (f, seqs)"
  shows "length seqs = length (receivers f)" "i < length ms \<Longrightarrow> rx_cr_max (receivers f ! i) = ms ! i"
  using flow_invD(1,2) [OF assms] by auto

lemma advancesD:
  assumes "advances f seqs seqs'"
  shows "length seqs' = length seqs" "i < length seqs' \<Longrightarrow> lag f (seqs' ! i) \<le> lag f (seqs ! i)" "i < length seqs' \<Longrightarrow> seqs' ! i \<le> u64_max"
  using assms by (auto simp: advances_def list_all2_conv_all_nth)

lemma sub64_add:
  assumes "b \<le> u64_max" "sub64 a b + n \<le> u64_max"
  shows "sub64 (add64 a n) b = sub64 a b + n"
proof -
  have s: "sub64 x b = (x + (2 ^ 64 - b)) mod 2 ^ 64" for x
    using assms(1) unfolding sub64_def le_u64_max_iff by (metis Nat.add_diff_assoc less_imp_le)
  have "sub64 (add64 a n) b = (a + n + (2 ^ 64 - b)) mod 2 ^ 64" unfolding s add64_def by (rule mod_add_left_eq)
  also have "\<dots> = (a + (2 ^ 64 - b) + n) mod 2 ^ 64" by (simp only: ac_simps)
  also have "\<dots> = (sub64 a b + n) mod 2 ^ 64" unfolding s by (rule mod_add_left_eq [symmetric])
  also have "\<dots> = sub64 a b + n" using assms(2) by (intro mod_less) (simp only: le_u64_max_iff)
  finally show ?thesis .
qed

lemma publish_inv:
  assumes "flow_inv ms (f, seqs)" "n \<le> cr_avail f"
  shows "flow_inv ms (spend f n, seqs)"
proof -
  have "lag (spend f n) (seqs ! i) + (cr_avail f - n) \<le> ms ! i" if "i < length ms" for i
  proof -
    note d = flow_invD(4-6) [OF assms(1) that]
    have "lag (spend f n) (seqs ! i) = lag f (seqs ! i) + n"
      using d assms(2) by (simp add: lag_def spend_def sub64_add)
    then show ?thesis using d(3) assms(2) by simp
  qed
  then show ?thesis using flow_invD [OF assms(1)] by (auto simp: flow_inv_def spend_def add64_def le_u64_max_iff)
qed

lemma receive_inv:
  assumes "flow_inv ms (f, seqs)" "advances f seqs seqs'"
  shows "flow_inv ms (f, seqs')"
  using flow_invD [OF assms(1)] advancesD [OF assms(2)] by (fastforce simp: flow_inv_def)

lemma query_inv:
  assumes "flow_inv ms (f, seqs)"
  shows "flow_inv ms (fst (query_credits seqs f), seqs)"
proof -
  note d = flow_invD [OF assms] and r = flow_inv_receivers [OF assms]
  have "lag f (seqs ! i) + cr_avail (fst (query_credits seqs f)) \<le> ms ! i" if "i < length ms" for i
    using query_credits_avail(2) [OF r(1), of i] d(2,6) r(2) that by (fastforce simp: credit_def lag_def)
  then show ?thesis using d by (auto simp: flow_inv_def lag_def)
qed

lemma flow_inv_refill [simp]: "flow_inv ms (f\<lparr>in_refill := b\<rparr>, seqs) = flow_inv ms (f, seqs)"
  by (simp add: flow_inv_def lag_def)

lemma check_inv: "flow_inv ms (f, seqs) \<Longrightarrow> flow_inv ms (check_credits seqs f, seqs)"
  by (simp add: check_credits_def query_inv)

lemma query_lag [simp]: "lag (fst (query_credits seqs f)) = lag f"
  by (rule ext) (simp add: lag_def)

lemma check_lag [simp]: "lag (check_credits seqs f) = lag f"
  by (rule ext) (simp add: lag_def check_credits_def)

interpretation flow_run: invariant_steps flow_step "flow_inv ms" for ms
proof
  fix s t
  assume inv: "flow_inv ms s" and step: "flow_step s t"
  from step inv show "flow_inv ms t"
  proof (induction rule: flow_step.induct)
    case (check f seqs reads seqs')
    have "flow_inv ms (check_credits reads f, reads)" using check_inv receive_inv check by blast
    moreover have "advances (check_credits reads f) reads seqs'" using check(2) by (simp add: advances_def)
    ultimately show ?case by (rule receive_inv)
  qed (auto intro: publish_inv receive_inv)
qed

text \<open>
  The whole interface: in addition a receiver may join at the producer's position with a limit that is at
  least the producer's, and the credits may be queried without the refill test of a check.
\<close>

inductive link_step :: "FlowControl \<times> u64 list \<Rightarrow> FlowControl \<times> u64 list \<Rightarrow> bool" where
  flow: "flow_step s t \<Longrightarrow> link_step s t"
| query: "advances f seqs reads \<Longrightarrow> advances f reads seqs' \<Longrightarrow>
    link_step (f, seqs) (fst (query_credits reads f), seqs')"
| join: "add_receiver f m = Some f' \<Longrightarrow> cr_max (fl_config f) \<le> m \<Longrightarrow> m \<le> u64_max \<Longrightarrow>
    link_step (f, seqs) (f', seqs @ [tx_seq f])"

definition link_inv :: "FlowControl \<times> u64 list \<Rightarrow> bool" where
  "link_inv = (\<lambda>(f, seqs). flow_inv (map rx_cr_max (receivers f)) (f, seqs) \<and> cr_avail f \<le> cr_max (fl_config f))"

lemma link_invI: "flow_inv ms (f, seqs) \<Longrightarrow> cr_avail f \<le> cr_max (fl_config f) \<Longrightarrow> link_inv (f, seqs)"
  by (simp add: link_inv_def flow_invD(1))

lemma query_avail_le: "cr_avail (fst (query_credits seqs f)) \<le> cr_max (fl_config f)"
  by (auto simp: query_credits_def Let_def split: prod.splits)

lemma flow_step_avail:
  assumes "flow_step s t" "cr_avail (fst s) \<le> cr_max (fl_config (fst s))"
  shows "cr_avail (fst t) \<le> cr_max (fl_config (fst t))"
  using assms
proof (induction rule: flow_step.induct)
  case (check f seqs reads seqs')
  then show ?case using query_avail_le [of reads "f\<lparr>in_refill := True\<rparr>"] by (simp add: check_credits_def)
qed (simp_all add: spend_def)

lemma join_inv:
  assumes "link_inv (f, seqs)" "add_receiver f m = Some f'" "cr_max (fl_config f) \<le> m" "m \<le> u64_max"
  shows "link_inv (f', seqs @ [tx_seq f])"
proof -
  have inv: "flow_inv (map rx_cr_max (receivers f)) (f, seqs)" and le: "cr_avail f \<le> cr_max (fl_config f)"
    using assms(1) by (simp_all add: link_inv_def)
  note d = flow_invD [OF inv]
  have f': "f' = f\<lparr>receivers := receivers f @ [\<lparr>rx_cr_max = m, rx_slow_count = 0\<rparr>]\<rparr>"
    using assms(2) by (simp add: add_receiver_def split: if_splits)
  have "lag f' = lag f" "lag f (tx_seq f) = 0" using d(3) by (auto simp: lag_def f' sub64_def)
  then show ?thesis
    using d le assms(3,4) by (auto simp: link_inv_def flow_inv_def f' nth_append less_Suc_eq)
qed

interpretation link_run: invariant_steps link_step link_inv
proof
  fix s t
  assume inv: "link_inv s" and step: "link_step s t"
  from step inv show "link_inv t"
  proof (induction rule: link_step.induct)
    case (flow s t)
    obtain f seqs f' seqs' where st: "s = (f, seqs)" "t = (f', seqs')" by (cases s, cases t)
    have "flow_inv (map rx_cr_max (receivers f)) t"
      using flow_run.step_inv [OF _ flow(1)] flow(2) by (simp add: st link_inv_def)
    then show ?case using flow_step_avail [OF flow(1)] flow(2) link_invI by (simp add: st link_inv_def)
  next
    case (query f seqs reads seqs')
    let ?ms = "map rx_cr_max (receivers f)"
    have "flow_inv ?ms (fst (query_credits reads f), reads)"
      using query receive_inv query_inv by (auto simp: link_inv_def)
    moreover have "advances (fst (query_credits reads f)) reads seqs'" using query(2) by (simp add: advances_def)
    ultimately have "flow_inv ?ms (fst (query_credits reads f), seqs')" by (rule receive_inv)
    then show ?case by (rule link_invI) (simp add: query_avail_le)
  qed (rule join_inv)
qed

lemma link_inv_new: "start \<le> u64_max \<Longrightarrow> link_inv (set_tx_seq (flow_new c) start, [])"
  by (simp add: link_inv_def flow_inv_def set_tx_seq_def flow_new_def)

text \<open>Adding receivers with these limits one after the other.\<close>

fun add_receivers :: "FlowControl \<Rightarrow> u64 list \<Rightarrow> FlowControl option" where
  "add_receivers f [] = Some f"
| "add_receivers f (m # ms) = (case add_receiver f m of None \<Rightarrow> None | Some f' \<Rightarrow> add_receivers f' ms)"

lemma add_receivers_fields:
  assumes "add_receivers f ms = Some f'"
  shows "map rx_cr_max (receivers f') = map rx_cr_max (receivers f) @ ms" "fl_config f' = fl_config f"
    "cr_avail f' = cr_avail f" "tx_seq f' = tx_seq f" "in_refill f' = in_refill f"
proof -
  have "map rx_cr_max (receivers f') = map rx_cr_max (receivers f) @ ms \<and> fl_config f' = fl_config f \<and>
      cr_avail f' = cr_avail f \<and> tx_seq f' = tx_seq f \<and> in_refill f' = in_refill f"
    using assms
  proof (induction ms arbitrary: f)
    case (Cons m ms)
    then show ?case by (fastforce simp: add_receiver_def split: if_splits)
  qed simp
  then show "map rx_cr_max (receivers f') = map rx_cr_max (receivers f) @ ms" "fl_config f' = fl_config f"
    "cr_avail f' = cr_avail f" "tx_seq f' = tx_seq f" "in_refill f' = in_refill f" by simp_all
qed

text \<open>
  C11. No receiver is overrun. Start a new controller at any sequence number, and interleave in any way: a
  producer that spends only credit it has, receivers that join at the producer's position, receivers that
  move at any time but not past the producer, and credit checks and queries whose reads the receivers may
  overtake. If the limit of every receiver that joins is at least the producer's own (\<open>cr_max\<close>), the
  producer is never further ahead of a receiver than the receiver's limit less the credit in hand, also
  when the sequence numbers wrap around. The producer's number is set (\<open>set_tx_seq\<close>) only at the start.
\<close>
theorem flow_control_no_overrun:
  assumes "start \<le> u64_max" and "link_step\<^sup>*\<^sup>* (set_tx_seq (flow_new c) start, []) (f, seqs)"
    and "i < receiver_count f"
  shows "length seqs = receiver_count f \<and> lag f (seqs ! i) + cr_avail f \<le> rx_cr_max (receivers f ! i)"
proof -
  have "link_inv (f, seqs)" by (rule link_run.run_inv [OF assms(2) link_inv_new [OF assms(1)]])
  then have inv: "flow_inv (map rx_cr_max (receivers f)) (f, seqs)" by (simp add: link_inv_def)
  show ?thesis using flow_invD(2,6) [OF inv] assms(3) by (simp add: receiver_count_def)
qed

text \<open>
  A controller started two numbers below the top of the range and one receiver; the producer sends three
  fragments, past the top, the receiver takes two of them, and credit is queried.
\<close>

theorem flow_control_no_overrun_witness:
  "\<exists>f. link_step\<^sup>*\<^sup>* (set_tx_seq (flow_new (from_depth 8 1)) (u64_max - 1), []) (f, [0]) \<and>
     tx_seq f = 1 \<and> lag f 0 + cr_avail f \<le> 8"
proof -
  define f0 where "f0 = set_tx_seq (flow_new (from_depth 8 1)) (u64_max - 1)"
  define f1 where "f1 = f0\<lparr>receivers := [\<lparr>rx_cr_max = 8, rx_slow_count = 0\<rparr>]\<rparr>"
  define f2 where "f2 = spend f1 3"
  define f3 where "f3 = fst (query_credits [0] f2)"
  have "add_receiver f0 8 = Some f1"
    by (simp add: f0_def f1_def add_receiver_def set_tx_seq_def flow_new_def MAX_RECEIVERS_def)
  then have s1: "link_step (f0, []) (f1, [] @ [tx_seq f0])"
    by (rule join) (simp_all add: f0_def set_tx_seq_def flow_new_def from_depth_def u64_max_def)
  have s2: "link_step (f1, [u64_max - 1]) (f2, [u64_max - 1])"
    unfolding f2_def
    by (rule flow, rule publish) (simp_all add: f1_def f0_def set_tx_seq_def flow_new_def from_depth_def has_credits_def)
  have tx: "tx_seq f2 = 1" "tx_seq f0 = u64_max - 1"
    by (simp_all add: f2_def f1_def f0_def set_tx_seq_def spend_def add64_def u64_max_def)
  have mv: "advances f2 [u64_max - 1] [0]" "advances f2 [0] [0]"
    using tx by (simp_all add: advances_def lag_def sub64_def u64_max_def)
  have s3: "link_step (f2, [u64_max - 1]) (f3, [0])" unfolding f3_def by (rule query [OF mv])
  have run: "link_step\<^sup>*\<^sup>* (f0, []) (f3, [0])"
    using s1 s2 s3 tx by (auto intro: converse_rtranclp_into_rtranclp)
  have rc: "map rx_cr_max (receivers f3) = [8]" by (simp add: f3_def f2_def f1_def spend_def)
  then have len: "length (receivers f3) = 1" by (metis length_map length_Cons list.size(3) One_nat_def)
  then have lim: "rx_cr_max (receivers f3 ! 0) = 8" using rc by (metis nth_Cons_0 nth_map zero_less_one)
  have "tx_seq f3 = 1" using tx by (simp add: f3_def)
  moreover have "lag f3 ([0] ! 0) + cr_avail f3 \<le> rx_cr_max (receivers f3 ! 0)"
    using flow_control_no_overrun [OF _ run [unfolded f0_def], of 0] len by (simp add: receiver_count_def)
  ultimately show ?thesis using run lim by (auto simp: f0_def)
qed

subsection \<open>Running out of credit\<close>

text \<open>When every receiver has caught up, a check gives credit again, provided the refill threshold is positive.\<close>

lemma check_resumes:
  assumes "flow_inv ms (f, seqs)" "\<forall>i < length ms. lag f (seqs ! i) = 0" "\<forall>m \<in> set ms. cr_max (fl_config f) \<le> m"
    and "0 < cr_refill (fl_config f)" "0 < cr_max (fl_config f)" "cr_resume (fl_config f) \<le> cr_max (fl_config f)"
    "cr_max (fl_config f) \<le> u64_max"
  shows "has_credits (check_credits seqs f)"
proof (cases "cr_avail f < cr_refill (fl_config f) \<or> in_refill f")
  case True
  let ?f = "f\<lparr>in_refill := True\<rparr>" and ?zs = "zip (receivers f) seqs"
  note r = flow_inv_receivers [OF assms(1)] and d = flow_invD [OF assms(1)]
  have "cr_max (fl_config f) \<le> credit (tx_seq f) rx seq" if "(rx, seq) \<in> set ?zs" for rx seq
  proof -
    obtain i where i: "i < length ms" "rx = receivers f ! i" "seq = seqs ! i" using \<open>(rx, seq) \<in> set ?zs\<close> d(2) by (auto simp: set_zip)
    then show ?thesis using assms(2,3) r(2) [OF i(1)] by (auto simp: credit_def lag_def)
  qed
  then have "cr_max (fl_config f) \<le> fst (credit_loop (tx_seq f) 0 ?zs (u64_max, 0))"
    using credit_loop_attained [of "tx_seq f" 0 ?zs u64_max 0] assms(7) by auto
  then show ?thesis using True assms(5,6) by (auto simp: has_credits_def check_credits_def query_credits_def Let_def split: prod.splits)
qed (use assms(4) in \<open>auto simp: has_credits_def check_credits_def\<close>)

text \<open>A controller that is out of credit and not refilling, with a refill threshold of zero, stays so.\<close>

definition stalled :: "FlowControl \<times> u64 list \<Rightarrow> bool" where
  "stalled = (\<lambda>(f, _). cr_avail f = 0 \<and> \<not> in_refill f \<and> cr_refill (fl_config f) = 0)"

interpretation flow_stall: invariant_steps flow_step stalled
proof
  fix s t
  assume "stalled s" and step: "flow_step s t"
  from step \<open>stalled s\<close> show "stalled t"
    by (induction rule: flow_step.induct) (auto simp: stalled_def has_credits_def check_credits_def)
qed

text \<open>
  C19. A producer on a link of depth one, two or three can stop for ever: the thresholds computed from
  the depth put the refill level at zero, which no credit is below, so that after it has spent its credit
  every check leaves it at zero, however far the receivers move and whatever they are.
\<close>
theorem shallow_link_stalls:
  assumes "0 < depth" "depth < 4" "add_receivers (flow_new (from_depth depth burst)) ms = Some f"
  shows "flow_step (f, seqs) (spend f depth, seqs) \<and>
    (\<forall>f' seqs'. flow_step\<^sup>*\<^sup>* (spend f depth, seqs) (f', seqs') \<longrightarrow> \<not> has_credits f')"
proof -
  note af = add_receivers_fields [OF assms(3)]
  have st: "stalled (spend f depth, seqs)" using af assms(1,2) by (simp add: stalled_def spend_def flow_new_def from_depth_def)
  have "flow_step (f, seqs) (spend f depth, seqs)"
    by (rule publish) (use af assms(1) in \<open>simp_all add: has_credits_def flow_new_def from_depth_def\<close>)
  moreover have "\<not> has_credits f'" if "flow_step\<^sup>*\<^sup>* (spend f depth, seqs) (f', seqs')" for f' seqs'
    using flow_stall.run_inv [OF that st] by (simp add: stalled_def has_credits_def)
  ultimately show ?thesis by blast
qed

theorem shallow_link_stalls_witness:
  "\<exists>f. add_receivers (flow_new (from_depth 2 1)) [2] = Some f \<and> flow_step (f, [0]) (spend f 2, [0]) \<and>
     \<not> has_credits (check_credits [2] (spend f 2))"
proof -
  obtain f where f: "add_receivers (flow_new (from_depth 2 1)) [2] = Some f"
    by (simp add: add_receiver_def flow_new_def MAX_RECEIVERS_def)
  have tx: "tx_seq (spend f 2) = 2" using add_receivers_fields [OF f] by (simp add: flow_new_def spend_def add64_def)
  have "flow_step (spend f 2, [0]) (check_credits [2] (spend f 2), [2])"
    by (rule check) (use tx in \<open>simp_all add: advances_def lag_def sub64_def u64_max_def\<close>)
  then have run: "flow_step\<^sup>*\<^sup>* (spend f 2, [0]) (check_credits [2] (spend f 2), [2])" by (rule r_into_rtranclp)
  have "flow_step (f, [0]) (spend f 2, [0]) \<and> (\<forall>f' seqs'. flow_step\<^sup>*\<^sup>* (spend f 2, [0]) (f', seqs') \<longrightarrow> \<not> has_credits f')"
    by (rule shallow_link_stalls [OF _ _ f]) simp_all
  then show ?thesis using f run by blast
qed

text \<open>
  The other condition of no overrun: a new controller starts with the producer's full
  credit without asking the receivers, so that a receiver with a smaller limit is overrun by the first burst.
\<close>

lemma smaller_receiver_overrun:
  assumes "add_receivers (flow_new c) ms = Some f" "i < length ms" "ms ! i < cr_max c" "cr_max c \<le> u64_max" "seqs ! i = 0"
  shows "flow_step (f, seqs) (spend f (cr_max c), seqs)" "ms ! i < lag (spend f (cr_max c)) (seqs ! i)"
proof -
  note af = add_receivers_fields [OF assms(1)]
  show "flow_step (f, seqs) (spend f (cr_max c), seqs)"
    by (rule publish) (use af assms(3) in \<open>simp_all add: has_credits_def flow_new_def\<close>)
  show "ms ! i < lag (spend f (cr_max c)) (seqs ! i)"
    using af assms(3-5) by (simp add: lag_def spend_def flow_new_def u64_arith le_u64_max_iff)
qed

end
