(* ===== verification/Spec2Isabelle.thy ===== *)
theory Spec2Isabelle
  imports Compact_U16 Fork_Choice Epoch_Schedule Blockhash_Queue Top_Votes
    Alp_Slot_State Alp_Parent_Ready Alp_Finality Alp_Pool Tag_Cache Flow_Control
begin

text \<open>
  \<^bold>\<open>Karstflow: the consensus core and its data structures.\<close>

  Karstflow is a Solana validator in Rust (\<open>src/crates\<close>). This development models the parts that decide
  what the validator votes for and what it takes as final, and data structures of the bank and of the
  inter-thread mesh on which they rest. Names are those of the source; every theory opens with the
  file it translates.

  \<^bold>\<open>The parts and how they interact.\<close>

  Tower consensus (\<open>karstflow-consensus\<close>). The \<open>Tower\<close> holds this validator's votes with their lockouts and
  decides whether it may vote for a slot; the \<open>ForkChoice\<close> accumulates every validator's latest vote over
  the tree of slots and picks the fork to vote for. Both compare stake ratios as \<open>f64\<close>.

  Alpenglow (\<open>karstflow-alpenglow\<close>), the newer voting protocol. The \<open>Pool\<close> receives votes, certificates and
  blocks. It gives each vote to the \<open>SlotState\<close> of its slot, which counts stake and builds certificates;
  certificates go to the \<open>FinalityTracker\<close>, which finalizes and skips slots, and to the
  \<open>ParentReadyTracker\<close>, which knows on which blocks a leader may build. What they report becomes events for
  the \<open>Votor\<close>, which casts this validator's votes. Votes and certificates carry aggregate signatures and
  are judged by the quorum tests of the \<open>EpochInfo\<close>.

  Bank data: the \<open>EpochSchedule\<close> maps slots to epochs, the \<open>BlockhashQueue\<close> knows which blockhashes a
  transaction may refer to, and \<open>TopVotes\<close> selects the validators with the largest stakes. Mesh data: the
  \<open>TagCache\<close> drops duplicate transactions, and \<open>FlowControl\<close> keeps a producer from overrunning its receivers.
  Compact-u16 is the encoding of lengths in transactions.

  \<^bold>\<open>Which theory models what.\<close>

  \<^item> \<open>Karst_Prelude\<close>: machine types, saturating and wrapping arithmetic, vectors, hash maps as association
    lists, and the interfaces as locales: \<open>hash_map\<close> (laws of a map), \<open>invariant_steps\<close> (an invariant of one
    step holds on runs), \<open>simulation\<close> (operations that answer like a specification do so in sequence),
    \<open>weighted_quorums\<close> (two quorums share stake). The components interpret them on their own
    definitions; \<open>fork_tree\<close>, the locale of parent links to lower slots, is in \<open>Fork_Choice\<close>.
  \<^item> \<open>Compact_U16\<close>: \<open>karstflow-types/src/compact.rs\<close>, slice and stream codecs. The two decoders invert their
    encoders; the slice decoder accepts a third byte that overflows.
  \<^item> \<open>Float64\<close>: the conversion of \<open>u64\<close> to \<open>f64\<close>, division and comparison, rounding to nearest even. It reduces
    the threshold tests of the two theories below to integer arithmetic.
  \<^item> \<open>Tower\<close>: \<open>tower.rs\<close>, the record \<open>Tower\<close> and all its operations. Order and size of the votes
    (\<open>tower_core\<close>) hold on every run of the interface, restarts included, and nothing panics; that the votes
    are above the root as well (\<open>tower_inv\<close>), and hence \<open>verify\<close>, holds when slots are pushed directly only above
    the root. The result of \<open>push_vote\<close> and the outcomes of \<open>record_vote\<close> are given on every branch, the
    lockouts are exact, and the thresholds are characterised in integers.
  \<^item> \<open>Fork_Choice\<close>: \<open>fork_choice.rs\<close>, the maps of forks and of latest votes. The incrementally kept weights are
    the stakes whose latest vote is in the subtree plus the slot's entry in a ledger of the stake added directly
    (\<open>lmd_with\<close>; \<open>lmd_inv\<close> when there is none), on every run that registers each slot once and before votes for it;
    what a vote before its slot costs is a property of its own. On every run with lower parents all loops
    return. Both selection loops compute the GHOST rule for every iteration order of the map; without
    direct stake a majority fork is selected and a supermajority root is unique up to ancestry; pruning keeps
    the descendants.
  \<^item> \<open>Epoch_Schedule\<close>: \<open>epoch_schedule.rs\<close>. The epochs partition the slots and the lookups invert each other,
    through the warm-up and at the top of the range, exactly when the first normal slot fits the warm-up.
  \<^item> \<open>Blockhash_Queue\<close>: \<open>blockhash_queue.rs\<close>. Queue and index refine the list of the 300 most recent hashes.
  \<^item> \<open>Top_Votes\<close>: \<open>top_votes.rs\<close>. With distinct stakes the set is the top selection; with ties it is not.
  \<^item> \<open>Alp_Base\<close>: \<open>base.rs\<close> and \<open>epoch_info.rs\<close>; \<open>Alp_Vote\<close>: \<open>aggsig.rs\<close> and \<open>vote.rs\<close> (the stub signatures the source
    has, not a signature scheme); \<open>Alp_Cert\<close>: \<open>cert.rs\<close>. Quorums intersect; aggregates have the signers
    they were built from and survive the wire; signed payloads determine the vote; any two certificates that pass
    their threshold share signers with a fifth of the stake.
  \<^item> \<open>Alp_Slot_State\<close>: \<open>slot_state.rs\<close>. On every run of a slot the running totals are the stake of the stored
    votes, no slashable pair is stored, and certificates come exactly when the totals cross their
    threshold; every safe-to-notar event raised stays justified by the stored votes and the parents.
  \<^item> \<open>Alp_Parent_Ready\<close>: \<open>parent_ready_state.rs\<close> and \<open>parent_ready_tracker.rs\<close>. The tracker refines the relation
    between certified blocks, skipped slots and ready parents, and its loops return.
  \<^item> \<open>Alp_Finality\<close>: \<open>finality_tracker.rs\<close>. What each operation reports, and that finalizing a block whose recorded
    parents reach the watermark moves the watermark to it.
  \<^item> \<open>Alp_Votor\<close>: \<open>votor.rs\<close>. On every run one notarization and one skip vote per slot at most, no skip after a
    notarization, finalization only for a notarized slot; the engine does not panic.
  \<^item> \<open>Alp_Pool\<close>: \<open>pool.rs\<close>, the composition of the four components above. Their invariants hold on every run of the
    pool; a fast-finalization certificate advances it; a refusal adds at most an empty slot state.
  \<^item> \<open>Tag_Cache\<close>: \<open>karstflow-mesh/src/tag_cache.rs\<close>. Ring and open-addressing table refine the window of the last
    distinct tags; linear probing and backward-shift deletion end and keep the probing invariant (\<open>chained\<close>).
  \<^item> \<open>Flow_Control\<close>: \<open>flow_control.rs\<close>. No receiver is overrun in any interleaving of producer, joining and
    moving receivers, credit checks and queries (\<open>link_step\<close>), sequence numbers wrapping around, if every limit is
    at least the producer's; with checks alone (\<open>flow_step\<close>) a link of depth below four stalls.

  Properties of kind error state what the code does where it departs from its comments or from what its
  callers need: a vote that arrives before its slot, a certificate built without the vote that completes it, a
  quorum held by one validator, late parents, ties among stakes, shallow links.

  \<^bold>\<open>How the code is rendered.\<close>

  State is passed explicitly: a struct is a record, an operation a function to the new record and its
  answer. A panic, an index out of range, a division by zero and a loop that does not return are \<open>None\<close>; an error
  value is a constructor. \<open>u64\<close> values are natural numbers with saturation and wrap-around written out at
  each operation, as in the release profile; bytes and bit masks are words. Hash maps are association lists
  whose order is the iteration order, which the source leaves open: lemmas hold for every order.
  Sequences of operations are step relations (\<open>tower_step\<close>, \<open>fc_step\<close>, \<open>slot_step\<close>, \<open>fin_step\<close>, \<open>votor_step\<close>,
  \<open>pool_step\<close>, \<open>flow_step\<close>, \<open>link_step\<close>) or operation lists (\<open>run_steps\<close>).

  \<^bold>\<open>Bounds, loops and hypotheses.\<close>

  Loops that may not end are \<open>partial_function (option)\<close>, and theorems say that they return: the walks and
  descents of the fork choice on a tree whose parents are lower slots (\<open>forks_wf\<close>, which every run keeps), the
  loops of the two trackers below the largest slot, the search for an epoch on a well-formed schedule, the
  probes of the tag cache while the table has an empty slot (two more slots than tags, which the constructor
  checks). Only \<open>subtree_weight\<close> takes fuel, one level per known slot, which is enough (\<open>subtree_weight_fuel\<close>).
  \<open>ei_fits\<close> says that twice the total stake is below \<open>2 ^ 64\<close> and that the validators fit the signer
  mask: lamports are far below it, and otherwise the sums of the slot state wrap. \<open>no_lone_quorum\<close> says that no
  validator has 60 percent alone; what happens otherwise is a property of its own. \<open>fits_chain\<close> says that the
  recorded statuses do not contradict the chain of recorded parents that a finalization walks down. \<open>schedule_wf\<close>
  says that epochs are not empty and that the warm-up has the length its powers of two give. The step relations
  \<open>tower_step\<close> and \<open>fc_step\<close> carry a flag for the discipline of the caller, and the theorems say what holds with
  and without it. Tag cache depths are
  below \<open>2 ^ 58 - 1\<close>, beyond which the allocation fails.

  \<^bold>\<open>Not modelled.\<close>

  In the fork choice, \<open>select_fork\<close>, \<open>should_switch_fork\<close> and \<open>update_root\<close> take a \<open>BankForks\<close> and read the banks
  behind it. Logging, statistics, serde and display code have no state. Of the rest of the repository, the
  networking, RPC, storage, control and plugin crates are I/O; the mesh queues work on raw shared memory with
  volatile accesses; the virtual machine, the bank and the program processors work on the account store, and
  the cryptography crate wraps external libraries. None of them is called by the modelled components.
\<close>

end
